(* ===== verification/Dht_Prelude.thy ===== *)
theory Dht_Prelude
  imports Main "HOL-Library.Word" "HOL-Library.Multiset" "HOL-Library.AList"
begin

text \<open>
  Shared vocabulary of the development.  Machine integers and byte strings, the panics of the
  Rust code as values of a sum type, the operations of \<^verbatim>\<open>Vec\<close>, \<^verbatim>\<open>VecDeque\<close>, \<^verbatim>\<open>ArrayVec\<close>,
  slices and iterators that the components use, with the lemmas about them, and the locale
  that lifts a one-operation contract (no panic, invariant kept) to every sequence of
  operations.

  Conventions.

  \<^item> A Rust function that can panic returns \<open>'a res = panic + 'a\<close>.  Integer
  subtraction is checked, as in a build with overflow checks.
  \<^item> \<^verbatim>\<open>Instant\<close> and \<^verbatim>\<open>Duration\<close> are natural numbers on one monotone clock; a call of
  \<^verbatim>\<open>Instant::now()\<close> is an argument of the definition.
  \<^item> A hash map is an association list with distinct keys.  Its iteration order is not
  specified, so every definition that iterates over one takes the order as an argument.
\<close>

named_theorems res_simps \<open>evaluation rules for results that may be panics\<close>

named_theorems inv_intros \<open>introduction rules for the components' invariants\<close>

section \<open>Types\<close>

type_synonym u8 = "8 word"
type_synonym u16 = "16 word"
type_synonym u32 = "32 word"
type_synonym u64 = "64 word"
type_synonym bytes = "u8 list"
type_synonym instant = nat
type_synonym duration = nat

text \<open>\<^verbatim>\<open>std::task::Poll\<close>\<close>

datatype 'a poll = Pending | Ready 'a

section \<open>Panics\<close>

datatype panic =
    Unreachable          \<comment> \<open>\<^verbatim>\<open>unreachable!\<close>\<close>
  | ExpectFailed         \<comment> \<open>\<^verbatim>\<open>expect\<close> / \<^verbatim>\<open>unwrap\<close> on \<^verbatim>\<open>None\<close>\<close>
  | ArithOverflow        \<comment> \<open>checked arithmetic\<close>
  | IndexOutOfBounds     \<comment> \<open>index, slice, \<^verbatim>\<open>Vec::remove\<close>, \<^verbatim>\<open>Vec::insert\<close>\<close>
  | CapacityExceeded     \<comment> \<open>\<^verbatim>\<open>ArrayVec\<close> is full\<close>
  | AssertFailed         \<comment> \<open>\<^verbatim>\<open>assert!\<close> / \<^verbatim>\<open>debug_assert!\<close> / \<^verbatim>\<open>panic!\<close>\<close>
  | NoReturn             \<comment> \<open>not a panic: a loop that does not end\<close>

type_synonym 'a res = "panic + 'a"

definition res_bind :: "'a res \<Rightarrow> ('a \<Rightarrow> 'b res) \<Rightarrow> 'b res" where
  "res_bind m f = (case m of Inl e \<Rightarrow> Inl e | Inr x \<Rightarrow> f x)"

lemma res_bind_simps [simp, res_simps]:
  "res_bind (Inl e) f = Inl e"
  "res_bind (Inr x) f = f x"
  by (simp_all add: res_bind_def)

lemma res_bind_Inr_iff:
  "res_bind m f = Inr y \<longleftrightarrow> (\<exists>x. m = Inr x \<and> f x = Inr y)"
  by (cases m) auto

text \<open>The result of a computation whose loop may not end (\<open>None\<close>).\<close>

definition returned :: "'a res option \<Rightarrow> 'a res" where
  "returned r = (case r of None \<Rightarrow> Inl NoReturn | Some x \<Rightarrow> x)"

lemma returned_simps [simp, res_simps]: "returned None = Inl NoReturn" "returned (Some x) = x"
  by (simp_all add: returned_def)

definition checked_sub :: "nat \<Rightarrow> nat \<Rightarrow> nat option" where
  "checked_sub a b = (if b \<le> a then Some (a - b) else None)"

definition usize_sub :: "nat \<Rightarrow> nat \<Rightarrow> nat res" where
  "usize_sub a b = (if b \<le> a then Inr (a - b) else Inl ArithOverflow)"

lemma usize_sub_ok [simp, res_simps]: "b \<le> a \<Longrightarrow> usize_sub a b = Inr (a - b)"
  by (simp add: usize_sub_def)

definition expect :: "'a option \<Rightarrow> 'a res" where
  "expect x = (case x of None \<Rightarrow> Inl ExpectFailed | Some y \<Rightarrow> Inr y)"

lemma expect_simps [simp, res_simps]:
  "expect None = Inl ExpectFailed"
  "expect (Some y) = Inr y"
  by (simp_all add: expect_def)

section \<open>Vectors and slices\<close>

definition remove_at :: "nat \<Rightarrow> 'a list \<Rightarrow> 'a list" where
  "remove_at i xs = take i xs @ drop (Suc i) xs"

definition insert_at :: "nat \<Rightarrow> 'a \<Rightarrow> 'a list \<Rightarrow> 'a list" where
  "insert_at i x xs = take i xs @ x # drop i xs"

text \<open>\<^verbatim>\<open>Vec::remove\<close> returns the element and closes the gap; it panics out of range.\<close>

definition vec_remove :: "nat \<Rightarrow> 'a list \<Rightarrow> ('a \<times> 'a list) res" where
  "vec_remove i xs =
     (if i < length xs then Inr (xs ! i, remove_at i xs) else Inl IndexOutOfBounds)"

text \<open>\<^verbatim>\<open>ArrayVec::insert\<close> and \<^verbatim>\<open>ArrayVec::push\<close> with the capacity as an argument.\<close>

definition array_insert :: "nat \<Rightarrow> nat \<Rightarrow> 'a \<Rightarrow> 'a list \<Rightarrow> 'a list res" where
  "array_insert cap i x xs =
     (if length xs < i then Inl IndexOutOfBounds
      else if length xs < cap then Inr (insert_at i x xs)
      else Inl CapacityExceeded)"

definition array_push :: "nat \<Rightarrow> 'a \<Rightarrow> 'a list \<Rightarrow> 'a list res" where
  "array_push cap x xs = (if length xs < cap then Inr (xs @ [x]) else Inl CapacityExceeded)"

definition vec_index :: "'a list \<Rightarrow> nat \<Rightarrow> 'a res" where
  "vec_index xs i = (if i < length xs then Inr (xs ! i) else Inl IndexOutOfBounds)"

text \<open>\<^verbatim>\<open>buf[a..b]\<close>\<close>

definition slice_range :: "'a list \<Rightarrow> nat \<Rightarrow> nat \<Rightarrow> 'a list res" where
  "slice_range xs a b =
     (if a \<le> b \<and> b \<le> length xs then Inr (take (b - a) (drop a xs)) else Inl IndexOutOfBounds)"

lemma length_remove_at [simp]: "i < length xs \<Longrightarrow> length (remove_at i xs) = length xs - 1"
  by (simp add: remove_at_def)

lemma length_insert_at [simp]: "i \<le> length xs \<Longrightarrow> length (insert_at i x xs) = Suc (length xs)"
  by (simp add: insert_at_def)

lemma set_insert_at [simp]: "set (insert_at i x xs) = insert x (set xs)"
proof -
  have "set xs = set (take i xs) \<union> set (drop i xs)"
    by (metis append_take_drop_id set_append)
  then show ?thesis by (auto simp: insert_at_def)
qed

lemma set_remove_at_subset: "set (remove_at i xs) \<subseteq> set xs"
  by (auto simp: remove_at_def dest: in_set_takeD in_set_dropD)

lemma mset_remove_at: "i < length xs \<Longrightarrow> mset xs = add_mset (xs ! i) (mset (remove_at i xs))"
  by (metis id_take_nth_drop mset_append mset.simps(2) remove_at_def union_mset_add_mset_right)

lemma mset_insert_at [simp]: "mset (insert_at i x xs) = add_mset x (mset xs)"
  by (metis append_take_drop_id insert_at_def mset.simps(2) mset_append union_mset_add_mset_right)

lemma remove_at_0 [simp]: "remove_at 0 xs = tl xs"
  by (simp add: remove_at_def drop_Suc)

lemma map_remove_at [simp]: "map f (remove_at i xs) = remove_at i (map f xs)"
  by (simp add: remove_at_def take_map drop_map)

lemma map_insert_at [simp]: "map f (insert_at i x xs) = insert_at i (f x) (map f xs)"
  by (simp add: insert_at_def take_map drop_map)

lemma vec_remove_ok [simp, res_simps]:
  "i < length xs \<Longrightarrow> vec_remove i xs = Inr (xs ! i, remove_at i xs)"
  by (simp add: vec_remove_def)

lemma array_insert_ok [simp, res_simps]:
  "i \<le> length xs \<Longrightarrow> length xs < cap \<Longrightarrow> array_insert cap i x xs = Inr (insert_at i x xs)"
  by (simp add: array_insert_def)

lemma array_push_ok [simp, res_simps]:
  "length xs < cap \<Longrightarrow> array_push cap x xs = Inr (xs @ [x])"
  by (simp add: array_push_def)

lemma vec_index_ok [simp, res_simps]: "i < length xs \<Longrightarrow> vec_index xs i = Inr (xs ! i)"
  by (simp add: vec_index_def)

lemma distinct_remove_at: "distinct xs \<Longrightarrow> distinct (remove_at i xs)"
  unfolding remove_at_def
  by (metis append_take_drop_id distinct_append drop_Suc drop_tl distinct_tl disjoint_iff
      list.set_sel(2) tl_Nil)

lemma remove_at_distinct_notin:
  assumes "distinct xs" and "i < length xs"
  shows "xs ! i \<notin> set (remove_at i xs)"
proof -
  have "mset xs = add_mset (xs ! i) (mset (remove_at i xs))"
    using assms(2) by (rule mset_remove_at)
  then have "count (mset (remove_at i xs)) (xs ! i) = count (mset xs) (xs ! i) - 1" by simp
  also have "count (mset xs) (xs ! i) \<le> 1"
    using assms(1) by (metis distinct_count_atmost_1 le_refl linorder_linear not_one_le_zero)
  finally show ?thesis by (simp add: count_eq_zero_iff)
qed

lemma distinct_insert_at: "distinct (insert_at i x xs) \<longleftrightarrow> x \<notin> set xs \<and> distinct xs"
proof -
  have "mset (insert_at i x xs) = mset (x # xs)" by simp
  then have "distinct (insert_at i x xs) \<longleftrightarrow> distinct (x # xs)"
    by (rule mset_eq_imp_distinct_iff)
  then show ?thesis by simp
qed

lemma distinct_concat_nth:
  assumes "\<And>i. i < length xss \<Longrightarrow> distinct (xss ! i)"
    and "\<And>i j. i < j \<Longrightarrow> j < length xss \<Longrightarrow> set (xss ! i) \<inter> set (xss ! j) = {}"
  shows "distinct (concat xss)"
  using assms
proof (induction xss)
  case (Cons xs xss)
  have "distinct (concat xss)"
  proof (rule Cons.IH)
    show "distinct (xss ! i)" if "i < length xss" for i using Cons.prems(1) [of "Suc i"] that by simp
    show "set (xss ! i) \<inter> set (xss ! j) = {}" if "i < j" "j < length xss" for i j
      using Cons.prems(2) [of "Suc i" "Suc j"] that by simp
  qed
  moreover have "set xs \<inter> set ys = {}" if "ys \<in> set xss" for ys
    using that Cons.prems(2) [of 0 "Suc _"] by (auto simp: in_set_conv_nth)
  moreover have "distinct xs" using Cons.prems(1) [of 0] by simp
  ultimately show ?case by auto
qed simp

subsection \<open>Iterator adaptors\<close>

text \<open>\<^verbatim>\<open>Iterator::position\<close>: the index of the first element that satisfies the predicate.\<close>

fun position_of :: "('a \<Rightarrow> bool) \<Rightarrow> 'a list \<Rightarrow> nat option" where
  "position_of P [] = None"
| "position_of P (x # xs) = (if P x then Some 0 else map_option Suc (position_of P xs))"

lemma position_of_None: "position_of P xs = None \<longleftrightarrow> (\<forall>x \<in> set xs. \<not> P x)"
  by (induction xs) auto

lemma position_of_SomeD:
  "position_of P xs = Some i \<Longrightarrow> i < length xs \<and> P (xs ! i) \<and> (\<forall>j < i. \<not> P (xs ! j))"
proof (induction xs arbitrary: i)
  case (Cons x xs)
  show ?case
  proof (cases "P x")
    case False
    with Cons.prems obtain k where "position_of P xs = Some k" "i = Suc k" by auto
    with Cons.IH [of k] False show ?thesis by (auto simp: nth_Cons split: nat.splits)
  qed (use Cons.prems in auto)
qed simp

lemma position_of_total: "x \<in> set xs \<Longrightarrow> P x \<Longrightarrow> \<exists>i. position_of P xs = Some i"
  by (cases "position_of P xs") (auto simp: position_of_None)

text \<open>\<^verbatim>\<open>slice::chunks\<close>\<close>

function chunks :: "nat \<Rightarrow> 'a list \<Rightarrow> 'a list list" where
  "chunks n xs = (if n = 0 \<or> xs = [] then [] else take n xs # chunks n (drop n xs))"
  by pat_completeness auto
termination
  by (relation "measure (\<lambda>(n, xs). length xs)") auto

declare chunks.simps [simp del]

lemma chunks_Nil [simp]: "chunks n [] = []"
  by (simp add: chunks.simps)

lemma chunks_append_full:
  "0 < n \<Longrightarrow> length ys = n \<Longrightarrow> chunks n (ys @ xs) = ys # chunks n xs"
  by (subst chunks.simps) auto

lemma chunks_concat:
  "0 < n \<Longrightarrow> \<forall>ys \<in> set yss. length ys = n \<Longrightarrow> chunks n (concat yss) = yss"
  by (induction yss) (auto simp: chunks_append_full)

section \<open>Hash maps\<close>

type_synonym ('k, 'v) hmap = "('k \<times> 'v) list"

definition hm_ok :: "('k, 'v) hmap \<Rightarrow> bool" where
  "hm_ok m \<longleftrightarrow> distinct (map fst m)"

definition hm_keys :: "('k, 'v) hmap \<Rightarrow> 'k set" where
  "hm_keys m = fst ` set m"

definition hm_get :: "('k, 'v) hmap \<Rightarrow> 'k \<Rightarrow> 'v option" where
  "hm_get m k = map_of m k"

definition hm_insert :: "'k \<Rightarrow> 'v \<Rightarrow> ('k, 'v) hmap \<Rightarrow> ('k, 'v) hmap" where
  "hm_insert k v m = AList.update k v m"

definition hm_remove :: "'k \<Rightarrow> ('k, 'v) hmap \<Rightarrow> ('k, 'v) hmap" where
  "hm_remove k m = AList.delete k m"

definition hm_sum :: "('v \<Rightarrow> nat) \<Rightarrow> ('k, 'v) hmap \<Rightarrow> nat" where
  "hm_sum f m = sum_list (map (\<lambda>(k, v). f v) m)"

lemma hm_ok_Nil [simp, inv_intros]: "hm_ok []"
  by (simp add: hm_ok_def)

lemma hm_keys_Nil [simp]: "hm_keys [] = {}"
  by (simp add: hm_keys_def)

lemma hm_get_Nil [simp]: "hm_get [] k = None"
  by (simp add: hm_get_def)

lemma hm_ok_insert [simp, inv_intros]: "hm_ok m \<Longrightarrow> hm_ok (hm_insert k v m)"
  by (simp add: hm_ok_def hm_insert_def distinct_update)

lemma hm_ok_remove [simp, inv_intros]: "hm_ok m \<Longrightarrow> hm_ok (hm_remove k m)"
  by (simp add: hm_ok_def hm_remove_def distinct_delete)

lemma hm_get_insert [simp]: "hm_get (hm_insert k v m) k' = (if k' = k then Some v else hm_get m k')"
  by (simp add: hm_get_def hm_insert_def update_conv')

lemma hm_get_remove [simp]: "hm_get (hm_remove k m) k' = (if k' = k then None else hm_get m k')"
  by (simp add: hm_get_def hm_remove_def delete_conv')

lemma hm_get_None: "hm_get m k = None \<longleftrightarrow> k \<notin> hm_keys m"
  by (simp add: hm_get_def hm_keys_def map_of_eq_None_iff)

lemma hm_get_SomeI: "k \<in> hm_keys m \<Longrightarrow> \<exists>v. hm_get m k = Some v"
  using hm_get_None [of m k] by (cases "hm_get m k") auto

lemma hm_get_keysD: "hm_get m k = Some v \<Longrightarrow> k \<in> hm_keys m"
  using hm_get_None [of m k] by auto

lemma hm_keys_insert [simp]: "hm_keys (hm_insert k v m) = insert k (hm_keys m)"
  by (auto simp: set_eq_iff hm_get_None [symmetric, THEN arg_cong [where f = Not], simplified] split: if_splits)

lemma hm_keys_remove [simp]: "hm_keys (hm_remove k m) = hm_keys m - {k}"
  by (auto simp: set_eq_iff hm_get_None [symmetric, THEN arg_cong [where f = Not], simplified] split: if_splits)

lemma hm_length: "hm_ok m \<Longrightarrow> distinct l \<Longrightarrow> set l = hm_keys m \<Longrightarrow> length m = length l"
  by (metis distinct_card hm_keys_def hm_ok_def length_map list.set_map)

lemma hm_sum_insert:
  "hm_ok m \<Longrightarrow> hm_sum f (hm_insert k v m) + (case hm_get m k of None \<Rightarrow> 0 | Some w \<Rightarrow> f w) = hm_sum f m + f v"
  by (induction m) (auto simp: hm_sum_def hm_insert_def hm_get_def hm_ok_def split: option.splits)

lemma hm_sum_remove:
  "hm_ok m \<Longrightarrow> hm_sum f (hm_remove k m) + (case hm_get m k of None \<Rightarrow> 0 | Some w \<Rightarrow> f w) = hm_sum f m"
proof (induction m)
  case (Cons e m)
  obtain k' v where e: "e = (k', v)" by fastforce
  show ?case
  proof (cases "k' = k")
    case True
    then have "k \<notin> fst ` set m" using Cons.prems e by (auto simp: hm_ok_def)
    then have "AList.delete k m = m" "map_of m k = None" by (simp_all add: delete_id map_of_eq_None_iff)
    with True e show ?thesis by (simp add: hm_sum_def hm_remove_def hm_get_def)
  next
    case False
    with Cons e show ?thesis by (simp add: hm_sum_def hm_remove_def hm_get_def hm_ok_def)
  qed
qed (simp add: hm_sum_def hm_remove_def)

text \<open>A map with a list that keeps its keys in an order, as the caches have it.\<close>

definition synced :: "('k, 'v) hmap \<Rightarrow> 'k list \<Rightarrow> bool" where
  "synced m l \<longleftrightarrow> hm_ok m \<and> distinct l \<and> set l = hm_keys m"

lemma synced_Nil [simp, inv_intros]: "synced [] []"
  by (simp add: synced_def)

lemma synced_length: "synced m l \<Longrightarrow> length m = length l"
  by (simp add: synced_def hm_length)

lemma synced_insert_new [inv_intros]:
  "synced m l \<Longrightarrow> hm_get m k = None \<Longrightarrow> synced (hm_insert k v m) (l @ [k])"
  by (auto simp: synced_def hm_get_None)

lemma synced_update [inv_intros]:
  "synced m l \<Longrightarrow> hm_get m k = Some w \<Longrightarrow> synced (hm_insert k v m) l"
  by (auto simp: synced_def dest: hm_get_keysD)

lemma synced_remove [inv_intros]:
  assumes "synced m l" and "p < length l"
  shows "synced (hm_remove (l ! p) m) (remove_at p l)"
proof -
  have "mset l = add_mset (l ! p) (mset (remove_at p l))" by (rule mset_remove_at [OF assms(2)])
  then have "set l = insert (l ! p) (set (remove_at p l))" by (metis set_mset_add_mset_insert set_mset_mset)
  then show ?thesis
    using assms remove_at_distinct_notin [of l p] by (auto simp: synced_def distinct_remove_at)
qed

lemma synced_pop [inv_intros]: "synced m (k # l) \<Longrightarrow> synced (hm_remove k m) l"
  using synced_remove [of m "k # l" 0] by simp

lemma synced_perm: "synced m l \<Longrightarrow> mset l' = mset l \<Longrightarrow> synced m l'"
  by (metis mset_eq_setD mset_eq_imp_distinct_iff synced_def)

lemma synced_get: "synced m l \<Longrightarrow> k \<in> set l \<Longrightarrow> \<exists>v. hm_get m k = Some v"
  by (simp add: synced_def hm_get_SomeI)

lemma synced_position: "synced m l \<Longrightarrow> hm_get m k = Some v \<Longrightarrow> \<exists>p < length l. position_of (\<lambda>x. x = k) l = Some p \<and> l ! p = k"
  using position_of_total [of k l "\<lambda>x. x = k"] position_of_SomeD [of "\<lambda>x. x = k" l]
  by (metis hm_get_keysD synced_def)

lemma synced_position_None: "synced m l \<Longrightarrow> hm_get m k = None \<Longrightarrow> position_of (\<lambda>x. x = k) l = None"
  by (auto simp: synced_def hm_get_None position_of_None)

section \<open>Big-endian integers\<close>

definition be_nat :: "bytes \<Rightarrow> nat" where
  "be_nat bs = foldl (\<lambda>acc b. acc * 256 + unat b) 0 bs"

fun nat_be :: "nat \<Rightarrow> nat \<Rightarrow> bytes" where
  "nat_be 0 n = []"
| "nat_be (Suc k) n = nat_be k (n div 256) @ [word_of_nat (n mod 256)]"

lemma be_nat_Nil [simp]: "be_nat [] = 0"
  by (simp add: be_nat_def)

lemma be_nat_snoc [simp]: "be_nat (bs @ [b]) = be_nat bs * 256 + unat b"
  by (simp add: be_nat_def)

lemma be_nat_single [simp]: "be_nat [b] = unat b"
  by (simp add: be_nat_def)

lemma length_nat_be [simp]: "length (nat_be k n) = k"
  by (induction k arbitrary: n) auto

lemma unat_byte_lt [simp]: "unat (b :: u8) < 256"
  using unsigned_less [of b, where ?'a = nat] by simp

lemma be_nat_bound: "be_nat bs < 256 ^ length bs"
proof (induction bs rule: rev_induct)
  case (snoc b bs)
  have "be_nat bs + 1 \<le> 256 ^ length bs" using snoc by simp
  then have "(be_nat bs + 1) * 256 \<le> 256 ^ length bs * 256" by (rule mult_le_mono1)
  then have "be_nat bs * 256 + 256 \<le> 256 ^ Suc (length bs)" by simp
  moreover have "unat b < 256" by (rule unat_byte_lt)
  ultimately have "be_nat bs * 256 + unat b < 256 ^ Suc (length bs)" by linarith
  then show ?case by simp
qed simp

lemma be_nat_nat_be: "n < 256 ^ k \<Longrightarrow> be_nat (nat_be k n) = n"
proof (induction k arbitrary: n)
  case (Suc k)
  then have "n div 256 < 256 ^ k" by (simp add: less_mult_imp_div_less)
  with Suc.IH have "be_nat (nat_be k (n div 256)) = n div 256" by blast
  then show ?case by (simp add: unat_of_nat)
qed simp

lemma nat_be_be_nat: "nat_be (length bs) (be_nat bs) = bs"
proof (induction bs rule: rev_induct)
  case (snoc b bs)
  have "(be_nat bs * 256 + unat b) div 256 = be_nat bs" by simp
  moreover have "(be_nat bs * 256 + unat b) mod 256 = unat b" by simp
  ultimately show ?case using snoc by simp
qed simp

lemma be_nat_inject:
  assumes "length xs = length ys" and "be_nat xs = be_nat ys"
  shows "xs = ys"
  by (metis assms nat_be_be_nat)

lemma be_nat_append: "be_nat (xs @ ys) = be_nat xs * 256 ^ length ys + be_nat ys"
proof (induction ys rule: rev_induct)
  case (snoc y ys)
  have "be_nat (xs @ ys @ [y]) = be_nat (xs @ ys) * 256 + unat y"
    using be_nat_snoc [of "xs @ ys" y] by simp
  with snoc show ?case by (simp add: algebra_simps)
qed simp

lemma be_nat_zeros [simp]: "be_nat (replicate n 0) = 0"
  by (induction n) (simp_all add: be_nat_def)

section \<open>Contracts of operations and their sequences\<close>

text \<open>
  \<open>run_ops step es s\<close> performs the operations \<open>es\<close> one after the other and collects their
  results; a panic ends the run.
\<close>

fun run_ops :: "('e \<Rightarrow> 's \<Rightarrow> ('r \<times> 's) res) \<Rightarrow> 'e list \<Rightarrow> 's \<Rightarrow> ('r list \<times> 's) res" where
  "run_ops step [] s = Inr ([], s)"
| "run_ops step (e # es) s =
     res_bind (step e s) (\<lambda>(r, s').
       res_bind (run_ops step es s') (\<lambda>(rs, s''). Inr (r # rs, s'')))"

text \<open>
  The contract an operation of a component keeps: where the operation is admissible it does
  not panic, and it extends the history of results so that the invariant on history and state
  still holds.
\<close>

locale traced_steps =
  fixes step :: "'e \<Rightarrow> 's \<Rightarrow> ('r \<times> 's) res"
    and tinv :: "'r list \<Rightarrow> 's \<Rightarrow> bool"
    and adm :: "'e \<Rightarrow> bool"
  assumes step_traced: "tinv rs s \<Longrightarrow> adm e \<Longrightarrow> \<exists>r s'. step e s = Inr (r, s') \<and> tinv (rs @ [r]) s'"
begin

lemma run_traced:
  "tinv rs s \<Longrightarrow> \<forall>e \<in> set es. adm e \<Longrightarrow>
     \<exists>rs' s'. run_ops step es s = Inr (rs', s') \<and> tinv (rs @ rs') s' \<and> length rs' = length es"
proof (induction es arbitrary: rs s)
  case (Cons e es)
  from Cons.prems obtain r s1 where s1: "step e s = Inr (r, s1)" "tinv (rs @ [r]) s1"
    using step_traced [of rs s e] by auto
  with Cons.IH [of "rs @ [r]" s1] Cons.prems obtain rs' s2 where
    "run_ops step es s1 = Inr (rs', s2)" "tinv ((rs @ [r]) @ rs') s2" "length rs' = length es" by auto
  with s1 show ?case by simp
qed simp

end

text \<open>The special case of an invariant on the state alone.\<close>

locale safe_steps =
  fixes step :: "'e \<Rightarrow> 's \<Rightarrow> ('r \<times> 's) res"
    and inv :: "'s \<Rightarrow> bool"
    and adm :: "'e \<Rightarrow> bool"
  assumes step_safe: "inv s \<Longrightarrow> adm e \<Longrightarrow> \<exists>r s'. step e s = Inr (r, s') \<and> inv s'"

sublocale safe_steps \<subseteq> traced: traced_steps step "\<lambda>_. inv" adm
  using step_safe by unfold_locales blast

context safe_steps
begin

lemma run_safe:
  "inv s \<Longrightarrow> \<forall>e \<in> set es. adm e \<Longrightarrow>
     \<exists>rs s'. run_ops step es s = Inr (rs, s') \<and> inv s' \<and> length rs = length es"
  using traced.run_traced [of s es] by blast

end

end
