(* ===== verification/Kad_Key.thy ===== *)
theory Kad_Key
  imports Dht_Prelude
begin

text \<open>
  Model of \<^verbatim>\<open>src/kbucket/key.rs\<close>: keys of the DHT key space with their preimage, the XOR
  distance and its order.  \<^verbatim>\<open>U256\<close> (crate \<^verbatim>\<open>uint\<close>) is a \<open>256 word\<close>, a fixed array of
  \<open>n\<close> bytes is a list of length \<open>n\<close>, and the SHA-256 digest is the argument \<open>sha\<close>.
  The lemmas give the byte round trips, the metric laws of the distance and the order of two
  words by their highest differing bit, on which the routing table rests.
\<close>

unbundle bit_operations_syntax

section \<open>Data\<close>

type_synonym u256 = "256 word"
type_synonym keybytes = bytes

record 't key =
  preimage :: 't
  key_bytes :: keybytes

datatype distance = Distance (dist_u256: u256)

text \<open>The derived \<^verbatim>\<open>Ord\<close> of the one-field struct compares the integers.\<close>

definition distance_lte :: "distance \<Rightarrow> distance \<Rightarrow> bool" where
  "distance_lte d e \<longleftrightarrow> dist_u256 d \<le> dist_u256 e"

definition distance_lt :: "distance \<Rightarrow> distance \<Rightarrow> bool" where
  "distance_lt d e \<longleftrightarrow> dist_u256 d < dist_u256 e"

instantiation distance :: linorder
begin

definition less_eq_distance :: "distance \<Rightarrow> distance \<Rightarrow> bool" where
  "less_eq_distance = distance_lte"

definition less_distance :: "distance \<Rightarrow> distance \<Rightarrow> bool" where
  "less_distance = distance_lt"

instance
  by standard (auto simp: less_eq_distance_def less_distance_def distance_lte_def distance_lt_def intro: distance.expand)

end

lemma distance_le [simp]: "Distance a \<le> Distance b \<longleftrightarrow> a \<le> b"
  by (simp add: less_eq_distance_def distance_lte_def)

lemma distance_less [simp]: "Distance a < Distance b \<longleftrightarrow> a < b"
  by (simp add: less_distance_def distance_lt_def)

section \<open>Operations\<close>

text \<open>\<^verbatim>\<open>U256::from(&[u8])\<close> reads big-endian bytes, \<^verbatim>\<open><[u8; 32]>::from(U256)\<close> writes them.\<close>

definition u256_from_be :: "bytes \<Rightarrow> u256" where
  "u256_from_be bs = word_of_nat (be_nat bs)"

definition u256_to_be :: "u256 \<Rightarrow> bytes" where
  "u256_to_be w = nat_be 32 (unat w)"

definition keybytes_new :: "(bytes \<Rightarrow> bytes) \<Rightarrow> bytes \<Rightarrow> keybytes" where
  "keybytes_new sha value = sha value"

definition keybytes_distance :: "keybytes \<Rightarrow> keybytes \<Rightarrow> distance" where
  "keybytes_distance a b = Distance (u256_from_be a XOR u256_from_be b)"

definition keybytes_for_distance :: "keybytes \<Rightarrow> distance \<Rightarrow> keybytes" where
  "keybytes_for_distance a d = u256_to_be (u256_from_be a XOR dist_u256 d)"

text \<open>\<open>borrow\<close> is the preimage type's \<^verbatim>\<open>Borrow<[u8]>\<close>.\<close>

definition key_new :: "(bytes \<Rightarrow> bytes) \<Rightarrow> ('t \<Rightarrow> bytes) \<Rightarrow> 't \<Rightarrow> 't key" where
  "key_new sha borrow p = \<lparr>preimage = p, key_bytes = keybytes_new sha (borrow p)\<rparr>"

definition into_preimage :: "'t key \<Rightarrow> 't" where
  "into_preimage k = preimage k"

definition key_distance :: "'t key \<Rightarrow> keybytes \<Rightarrow> distance" where
  "key_distance k other = keybytes_distance (key_bytes k) other"

definition key_for_distance :: "'t key \<Rightarrow> distance \<Rightarrow> keybytes" where
  "key_for_distance k d = keybytes_for_distance (key_bytes k) d"

text \<open>\<^verbatim>\<open>PartialEq\<close> on keys ignores the preimage.\<close>

definition key_eq :: "'t key \<Rightarrow> 'u key \<Rightarrow> bool" where
  "key_eq a b \<longleftrightarrow> key_bytes a = key_bytes b"

section \<open>Byte round trips\<close>

lemma length_u256_to_be [simp]: "length (u256_to_be w) = 32"
  by (simp add: u256_to_be_def)

lemma u256_unat_bound: "unat (w :: u256) < 256 ^ 32"
  using unsigned_less [of w, where ?'a = nat] by simp

lemma u256_from_to_be [simp]: "u256_from_be (u256_to_be w) = w"
proof -
  have "be_nat (nat_be 32 (unat w)) = unat w" using u256_unat_bound by (rule be_nat_nat_be)
  then show ?thesis by (simp add: u256_from_be_def u256_to_be_def)
qed

lemma unat_u256_from_be:
  assumes "length bs = 32"
  shows "unat (u256_from_be bs) = be_nat bs"
proof -
  have "be_nat bs < 2 ^ 256" using be_nat_bound [of bs] assms by simp
  then show ?thesis by (simp add: u256_from_be_def unat_of_nat)
qed

lemma u256_to_from_be [simp]: "length bs = 32 \<Longrightarrow> u256_to_be (u256_from_be bs) = bs"
  using nat_be_be_nat [of bs] by (simp add: u256_to_be_def unat_u256_from_be)

lemma u256_from_be_inject:
  "length xs = 32 \<Longrightarrow> length ys = 32 \<Longrightarrow> u256_from_be xs = u256_from_be ys \<longleftrightarrow> xs = ys"
  by (metis u256_to_from_be)

section \<open>Words by their bits\<close>

lemma xor_cancel [simp]: "(a :: 'a::len word) XOR (a XOR b) = b"
  by (simp add: bit_eq_iff bit_xor_iff)

lemma xor_eq_0_iff [simp]: "(a :: 'a::len word) XOR b = 0 \<longleftrightarrow> a = b"
  by (metis xor.right_neutral xor_cancel xor_self_eq)

lemma xor_xor_cancel_mid: "(a :: 'a::len word) XOR c = (a XOR b) XOR (b XOR c)"
  by (simp add: bit_eq_iff bit_xor_iff) blast

lemma unat_bit: "bit (w :: 'a::len word) i \<longleftrightarrow> odd (unat w div 2 ^ i)"
proof -
  have "bit (unat w) i = bit w i" by (simp add: bit_unsigned_iff)
  then show ?thesis using bit_iff_odd [of "unat w" i] by simp
qed

lemma div_power_Suc_split:
  "(n :: nat) div 2 ^ i = 2 * (n div 2 ^ Suc i) + of_bool (odd (n div 2 ^ i))"
proof -
  have "n div 2 ^ Suc i = (n div 2 ^ i) div 2"
    using div_mult2_eq [of n "2 ^ i" 2] by (simp add: mult.commute)
  moreover have "n div 2 ^ i = 2 * (n div 2 ^ i div 2) + of_bool (odd (n div 2 ^ i))"
    by simp
  ultimately show ?thesis by (simp only:)
qed

text \<open>The bits from \<open>i\<close> on determine the quotient by \<open>2 ^ i\<close>.\<close>

lemma drop_bits_eq:
  assumes "\<And>j. i \<le> j \<Longrightarrow> bit (x :: 'a::len word) j = bit (y :: 'a word) j"
  shows "unat x div 2 ^ i = unat y div 2 ^ i"
proof -
  have "drop_bit i x = drop_bit i y"
    using assms by (simp add: bit_eq_iff bit_drop_bit_eq)
  then have "unat (drop_bit i x) = unat (drop_bit i y)" by (rule arg_cong)
  then have "drop_bit i (unat x) = drop_bit i (unat y)" by (simp only: unat_drop_bit_eq)
  then show ?thesis by (simp only: drop_bit_eq_div)
qed

lemma word_less_by_bit:
  fixes x y :: "'a::len word"
  assumes "\<And>j. i < j \<Longrightarrow> bit x j = bit y j" and "\<not> bit x i" and "bit y i"
  shows "x < y"
proof -
  have hi: "unat x div 2 ^ Suc i = unat y div 2 ^ Suc i"
    using assms(1) by (intro drop_bits_eq) auto
  have "unat x div 2 ^ i < unat y div 2 ^ i"
    using div_power_Suc_split [of "unat x" i] div_power_Suc_split [of "unat y" i]
      hi assms(2,3) by (simp add: unat_bit)
  then have "unat x < unat y"
    by (metis div_le_mono not_less)
  then show ?thesis by (simp add: word_less_nat_alt)
qed

lemma top_bit_exists:
  fixes w :: "'a::len word"
  assumes "w \<noteq> 0"
  obtains i where "i < LENGTH('a)" "bit w i" "\<And>j. i < j \<Longrightarrow> \<not> bit w j"
proof -
  let ?S = "{j. bit w j}"
  have fin: "finite ?S" by (rule finite_subset [of _ "{..< LENGTH('a)}"]) (auto dest: bit_imp_le_length)
  have ne: "?S \<noteq> {}" using assms by (auto simp: bit_eq_iff)
  define m where "m = Max ?S"
  have "bit w m" using Max_in [OF fin ne] by (simp add: m_def)
  moreover from this have "m < LENGTH('a)" by (rule bit_imp_le_length)
  moreover have "\<not> bit w j" if "m < j" for j
  proof
    assume "bit w j"
    then have "j \<le> m" using Max_ge [OF fin, of j] by (simp add: m_def)
    with that show False by simp
  qed
  ultimately show thesis using that by blast
qed

lemma unat_less_power_by_bits:
  fixes w :: "'a::len word"
  shows "unat w < 2 ^ i \<longleftrightarrow> (\<forall>j \<ge> i. \<not> bit w j)"
proof
  assume "\<forall>j \<ge> i. \<not> bit w j"
  then have "unat w div 2 ^ i = unat (0 :: 'a word) div 2 ^ i"
    by (intro drop_bits_eq) auto
  then have "unat w div 2 ^ i = 0" by simp
  then show "unat w < 2 ^ i" by (simp add: div_eq_0_iff)
next
  assume lt: "unat w < 2 ^ i"
  show "\<forall>j \<ge> i. \<not> bit w j"
  proof (intro allI impI)
    fix j assume "i \<le> j"
    then have "unat w < 2 ^ j"
      using lt by (metis less_le_trans one_le_numeral power_increasing)
    then show "\<not> bit w j" by (simp add: unat_bit)
  qed
qed

lemma xor_nat_le: "(m :: nat) XOR n \<le> m + n"
proof (induction m arbitrary: n rule: less_induct)
  case (less m)
  show ?case
  proof (cases "m = 0")
    case False
    define x b where "x = (m div 2) XOR (n div 2)" and "b = (of_bool (odd m \<noteq> odd n) :: nat)"
    have "x \<le> m div 2 + n div 2" unfolding x_def using False by (intro less.IH) simp
    moreover have "m XOR n = b + 2 * x" unfolding x_def b_def by (rule xor_nat_rec)
    moreover have "b \<le> m mod 2 + n mod 2" by (auto simp: b_def odd_iff_mod_2_eq_one)
    ultimately show ?thesis
      using div_mult_mod_eq [of m 2] div_mult_mod_eq [of n 2] by linarith
  qed simp
qed

lemma unat_xor_le: "unat ((a :: 'a::len word) XOR b) \<le> unat a + unat b"
proof -
  have "unat (a XOR b) = unat a XOR unat b" by (rule unsigned_xor_eq)
  then show ?thesis using xor_nat_le by simp
qed

section \<open>The XOR metric\<close>

text \<open>The laws of the distance that the routing table and the queries rely on.\<close>

locale key_metric =
  fixes dist :: "'k \<Rightarrow> 'k \<Rightarrow> distance"
    and point :: "'k \<Rightarrow> bool"
  assumes dist_zero: "point a \<Longrightarrow> point b \<Longrightarrow> dist a b = Distance 0 \<longleftrightarrow> a = b"
    and dist_sym: "dist a b = dist b a"
    and dist_triangle:
      "unat (dist_u256 (dist a c)) \<le> unat (dist_u256 (dist a b)) + unat (dist_u256 (dist b c))"
    and dist_inj: "point b \<Longrightarrow> point c \<Longrightarrow> dist a b = dist a c \<Longrightarrow> b = c"
begin

text \<open>Unidirectionality: two keys at the same distance from a target are the same key, so the
  order of distinct keys by their distance is strict.\<close>

lemma sorted_distinct_strict:
  assumes "sorted (map (dist t) ks)" and "distinct ks" and "\<forall>k \<in> set ks. point k"
  shows "sorted_wrt (\<lambda>a b. dist t a < dist t b) ks"
  using assms
proof (induction ks)
  case (Cons k ks)
  have "dist t k < dist t k'" if "k' \<in> set ks" for k'
  proof -
    have "dist t k \<le> dist t k'" using Cons.prems(1) that by auto
    moreover have "dist t k \<noteq> dist t k'" using Cons.prems(2,3) that dist_inj [of k k' t] by auto
    ultimately show ?thesis by simp
  qed
  with Cons show ?case by auto
qed simp

end

abbreviation is_key :: "keybytes \<Rightarrow> bool" where
  "is_key k \<equiv> length k = 32"

interpretation kad: key_metric keybytes_distance is_key
proof
  show "keybytes_distance a b = Distance 0 \<longleftrightarrow> a = b" if "is_key a" "is_key b" for a b
    using that by (simp add: keybytes_distance_def u256_from_be_inject)
  show "keybytes_distance a b = keybytes_distance b a" for a b
    by (simp add: keybytes_distance_def xor.commute)
  show "unat (dist_u256 (keybytes_distance a c))
      \<le> unat (dist_u256 (keybytes_distance a b)) + unat (dist_u256 (keybytes_distance b c))" for a b c
    using unat_xor_le [of "u256_from_be a XOR u256_from_be b" "u256_from_be b XOR u256_from_be c"]
    by (simp add: keybytes_distance_def flip: xor_xor_cancel_mid)
  show "b = c" if "is_key b" "is_key c" "keybytes_distance a b = keybytes_distance a c" for a b c
    using that by (metis distance.inject keybytes_distance_def u256_from_be_inject xor_cancel)
qed

section \<open>Properties\<close>

text \<open>C21. The equivalence documented at \<^verbatim>\<open>Key::for_distance\<close>, on keys as 32-byte arrays:
  \<open>d\<close> is the distance of two keys exactly when the second is the key \<open>for_distance\<close> computes
  from the first, and that key is again a 32-byte array.\<close>

theorem for_distance_equivalence:
  assumes "is_key (key_bytes a)" and "is_key b"
  shows "(key_distance a b = d \<longleftrightarrow> b = key_for_distance a d) \<and> is_key (key_for_distance a d)"
proof -
  let ?a = "u256_from_be (key_bytes a)"
  have "key_distance a b = d \<longleftrightarrow> ?a XOR u256_from_be b = dist_u256 d"
    by (cases d) (simp add: key_distance_def keybytes_distance_def)
  also have "\<dots> \<longleftrightarrow> u256_from_be b = ?a XOR dist_u256 d" by (metis xor_cancel)
  also have "\<dots> \<longleftrightarrow> b = key_for_distance a d"
    using assms(2) by (metis key_for_distance_def keybytes_for_distance_def u256_from_to_be u256_to_from_be)
  finally show ?thesis by (simp add: key_for_distance_def keybytes_for_distance_def)
qed

theorem for_distance_equivalence_witness:
  "is_key (replicate 32 7) \<and>
   (key_distance \<lparr>preimage = (), key_bytes = replicate 32 7\<rparr> (replicate 32 7) = Distance 0 \<longleftrightarrow>
      replicate 32 7 = key_for_distance \<lparr>preimage = (), key_bytes = replicate 32 7\<rparr> (Distance 0)) \<and>
   is_key (key_for_distance \<lparr>preimage = (), key_bytes = replicate 32 7\<rparr> (Distance 0))"
  using for_distance_equivalence [of "\<lparr>preimage = (), key_bytes = replicate 32 7\<rparr>"
      "replicate 32 7" "Distance 0"] by simp

text \<open>The distance of keys is a metric on the 32-byte keys with the XOR topology: it is zero
  only between equal keys, it is symmetric, it satisfies the triangle inequality over the
  integers (without wrap-around), and a target has no two different keys at the same distance.\<close>

lemma distance_metric:
  assumes "is_key a" and "is_key b" and "is_key c"
  shows "(keybytes_distance a b = Distance 0 \<longleftrightarrow> a = b)
    \<and> keybytes_distance a b = keybytes_distance b a
    \<and> unat (dist_u256 (keybytes_distance a c))
        \<le> unat (dist_u256 (keybytes_distance a b)) + unat (dist_u256 (keybytes_distance b c))
    \<and> (keybytes_distance a b = keybytes_distance a c \<longleftrightarrow> b = c)"
proof (intro conjI)
  show "keybytes_distance a b = Distance 0 \<longleftrightarrow> a = b" using assms by (intro kad.dist_zero)
  show "keybytes_distance a b = keybytes_distance b a" by (rule kad.dist_sym)
  show "unat (dist_u256 (keybytes_distance a c))
      \<le> unat (dist_u256 (keybytes_distance a b)) + unat (dist_u256 (keybytes_distance b c))"
    by (rule kad.dist_triangle)
  show "keybytes_distance a b = keybytes_distance a c \<longleftrightarrow> b = c"
    using assms(2,3) kad.dist_inj [of b c a] by auto
qed

lemma distance_metric_witness:
  "(keybytes_distance (replicate 32 1) (replicate 32 2) = Distance 0
      \<longleftrightarrow> (replicate 32 1 :: bytes) = replicate 32 2)
    \<and> keybytes_distance (replicate 32 1) (replicate 32 2)
        = keybytes_distance (replicate 32 2) (replicate 32 1)
    \<and> unat (dist_u256 (keybytes_distance (replicate 32 1) (replicate 32 3)))
        \<le> unat (dist_u256 (keybytes_distance (replicate 32 1) (replicate 32 2)))
          + unat (dist_u256 (keybytes_distance (replicate 32 2) (replicate 32 3)))
    \<and> (keybytes_distance (replicate 32 1) (replicate 32 2)
          = keybytes_distance (replicate 32 1) (replicate 32 3)
      \<longleftrightarrow> (replicate 32 2 :: bytes) = replicate 32 3)"
  by (rule distance_metric) simp_all

end
