(* ===== verification/Kad_Bucket.thy ===== *)
theory Kad_Bucket
  imports Kad_Key
begin

text \<open>
  Model of \<^verbatim>\<open>src/kbucket/bucket.rs\<close>: one bucket of the routing table, a list of at most
  \<^verbatim>\<open>K_VALUE\<close> nodes split at \<open>first_connected_pos\<close> into disconnected and connected nodes, with
  one pending node.  \<^verbatim>\<open>ArrayVec<[_; K_VALUE]>\<close> is a list with its capacity checks.

  The specification \<open>bucket_spec\<close> has the two lists themselves and no positions.  The section
  on refinement shows that on well-formed buckets every operation computes what the
  specification says and never panics; the last section follows the keys of a bucket through
  the operations, which is what the routing table needs.
\<close>

section \<open>Data\<close>

definition K_VALUE :: nat where
  "K_VALUE = 20"

datatype node_status = Connected | Disconnected

record ('t, 'v) node =
  node_key :: "'t key"
  node_value :: 'v

record ('t, 'v) pending_node =
  pn_node :: "('t, 'v) node"
  pn_status :: node_status
  pn_replace :: instant

record ('t, 'v) kbucket =
  kb_nodes :: "('t, 'v) node list"
  first_connected_pos :: "nat option"
  kb_pending :: "('t, 'v) pending_node option"
  pending_timeout :: duration

datatype 't insert_result = Inserted | PendingInsert (disconnected: "'t key") | Full

record ('t, 'v) applied_pending =
  ap_inserted :: "('t, 'v) node"
  ap_evicted :: "('t, 'v) node option"

section \<open>Operations\<close>

definition pending_node_key :: "('t, 'v) pending_node \<Rightarrow> 't key" where
  "pending_node_key p = node_key (pn_node p)"

definition pending_value_mut :: "('v \<Rightarrow> 'v) \<Rightarrow> ('t, 'v) pending_node \<Rightarrow> ('t, 'v) pending_node" where
  "pending_value_mut f p = p\<lparr>pn_node := (pn_node p)\<lparr>node_value := f (node_value (pn_node p))\<rparr>\<rparr>"

definition pending_is_ready :: "instant \<Rightarrow> ('t, 'v) pending_node \<Rightarrow> bool" where
  "pending_is_ready now p \<longleftrightarrow> now \<ge> pn_replace p"

definition pending_set_ready_at :: "instant \<Rightarrow> ('t, 'v) pending_node \<Rightarrow> ('t, 'v) pending_node" where
  "pending_set_ready_at t p = p\<lparr>pn_replace := t\<rparr>"

definition kbucket_new :: "duration \<Rightarrow> ('t, 'v) kbucket" where
  "kbucket_new timeout =
     \<lparr>kb_nodes = [], first_connected_pos = None, kb_pending = None, pending_timeout = timeout\<rparr>"

definition kbucket_is_full :: "('t, 'v) kbucket \<Rightarrow> bool" where
  "kbucket_is_full b \<longleftrightarrow> length (kb_nodes b) = K_VALUE"

definition kbucket_status :: "('t, 'v) kbucket \<Rightarrow> nat \<Rightarrow> node_status" where
  "kbucket_status b pos =
     (case first_connected_pos b of
        None \<Rightarrow> Disconnected
      | Some i \<Rightarrow> if pos \<ge> i then Connected else Disconnected)"

definition kbucket_is_connected :: "('t, 'v) kbucket \<Rightarrow> nat \<Rightarrow> bool" where
  "kbucket_is_connected b pos \<longleftrightarrow> kbucket_status b pos = Connected"

definition kbucket_num_entries :: "('t, 'v) kbucket \<Rightarrow> nat" where
  "kbucket_num_entries b = length (kb_nodes b)"

definition kbucket_num_connected :: "('t, 'v) kbucket \<Rightarrow> nat res" where
  "kbucket_num_connected b =
     (case first_connected_pos b of None \<Rightarrow> Inr 0 | Some i \<Rightarrow> usize_sub (length (kb_nodes b)) i)"

definition kbucket_num_disconnected :: "('t, 'v) kbucket \<Rightarrow> nat res" where
  "kbucket_num_disconnected b =
     res_bind (kbucket_num_connected b) (usize_sub (length (kb_nodes b)))"

definition same_key :: "'t key \<Rightarrow> ('t, 'v) node \<Rightarrow> bool" where
  "same_key key p \<longleftrightarrow> key_bytes (node_key p) = key_bytes key"

definition kbucket_position :: "('t, 'v) kbucket \<Rightarrow> 't key \<Rightarrow> nat option" where
  "kbucket_position b key = position_of (same_key key) (kb_nodes b)"

definition kbucket_as_pending :: "('t, 'v) kbucket \<Rightarrow> 't key \<Rightarrow> ('t, 'v) pending_node option" where
  "kbucket_as_pending b key =
     (case kb_pending b of
        None \<Rightarrow> None
      | Some p \<Rightarrow> if same_key key (pn_node p) then Some p else None)"

definition kbucket_get :: "('t, 'v) kbucket \<Rightarrow> 't key \<Rightarrow> ('t, 'v) node option" where
  "kbucket_get b key = map_option (\<lambda>p. kb_nodes b ! p) (kbucket_position b key)"

text \<open>\<^verbatim>\<open>get_mut\<close>, with the change \<open>f\<close> that the caller makes through the reference.\<close>

definition kbucket_get_mut ::
  "('t, 'v) kbucket \<Rightarrow> 't key \<Rightarrow> ('v \<Rightarrow> 'v) \<Rightarrow> ('t, 'v) kbucket option" where
  "kbucket_get_mut b key f =
     map_option
       (\<lambda>p. b\<lparr>kb_nodes := (kb_nodes b)
               [p := (kb_nodes b ! p)\<lparr>node_value := f (node_value (kb_nodes b ! p))\<rparr>]\<rparr>)
       (kbucket_position b key)"

definition kbucket_iter :: "('t, 'v) kbucket \<Rightarrow> (('t, 'v) node \<times> node_status) list" where
  "kbucket_iter b = map (\<lambda>(p, n). (n, kbucket_status b p)) (enumerate 0 (kb_nodes b))"

definition kbucket_insert ::
  "instant \<Rightarrow> ('t, 'v) kbucket \<Rightarrow> ('t, 'v) node \<Rightarrow> node_status
     \<Rightarrow> ('t insert_result \<times> ('t, 'v) kbucket) res" where
  "kbucket_insert now b n status =
     (case status of
        Connected \<Rightarrow>
          if kbucket_is_full b then
            if first_connected_pos b = Some 0 \<or> kb_pending b \<noteq> None then Inr (Full, b)
            else
              res_bind (vec_index (kb_nodes b) 0) (\<lambda>first.
                Inr (PendingInsert (node_key first),
                     b\<lparr>kb_pending := Some \<lparr>pn_node = n, pn_status = Connected,
                                          pn_replace = now + pending_timeout b\<rparr>\<rparr>))
          else
            let pos = length (kb_nodes b) in
            res_bind (array_push K_VALUE n (kb_nodes b)) (\<lambda>ns.
              Inr (Inserted,
                   b\<lparr>first_connected_pos :=
                        (case first_connected_pos b of None \<Rightarrow> Some pos | Some p \<Rightarrow> Some p),
                     kb_nodes := ns\<rparr>))
      | Disconnected \<Rightarrow>
          if kbucket_is_full b then Inr (Full, b)
          else
            (case first_connected_pos b of
               Some p \<Rightarrow>
                 res_bind (array_insert K_VALUE p n (kb_nodes b)) (\<lambda>ns.
                   Inr (Inserted, b\<lparr>kb_nodes := ns, first_connected_pos := Some (p + 1)\<rparr>))
             | None \<Rightarrow>
                 res_bind (array_push K_VALUE n (kb_nodes b)) (\<lambda>ns.
                   Inr (Inserted, b\<lparr>kb_nodes := ns\<rparr>))))"

definition kbucket_remove ::
  "('t, 'v) kbucket \<Rightarrow> 't key
     \<Rightarrow> ((('t, 'v) node \<times> node_status \<times> nat) option \<times> ('t, 'v) kbucket) res" where
  "kbucket_remove b key =
     (case kbucket_position b key of
        None \<Rightarrow> Inr (None, b)
      | Some pos \<Rightarrow>
          let status = kbucket_status b pos in
          res_bind (vec_remove pos (kb_nodes b)) (\<lambda>(n, ns).
            let b1 = b\<lparr>kb_nodes := ns\<rparr> in
            case status of
              Connected \<Rightarrow>
                Inr (Some (n, status, pos),
                     if first_connected_pos b1 = Some pos \<and> pos = length ns
                     then b1\<lparr>first_connected_pos := None\<rparr> else b1)
            | Disconnected \<Rightarrow>
                (case first_connected_pos b1 of
                   None \<Rightarrow> Inr (Some (n, status, pos), b1)
                 | Some p \<Rightarrow>
                     res_bind (usize_sub p 1) (\<lambda>q.
                       Inr (Some (n, status, pos), b1\<lparr>first_connected_pos := Some q\<rparr>)))))"

definition kbucket_update ::
  "instant \<Rightarrow> ('t, 'v) kbucket \<Rightarrow> 't key \<Rightarrow> node_status \<Rightarrow> ('t, 'v) kbucket res" where
  "kbucket_update now b key status =
     res_bind (kbucket_remove b key) (\<lambda>(removed, b1).
       case removed of
         None \<Rightarrow> Inr b1
       | Some (n, _, pos) \<Rightarrow>
           let b2 = (if pos = 0 \<and> status = Connected then b1\<lparr>kb_pending := None\<rparr> else b1) in
           res_bind (kbucket_insert now b2 n status) (\<lambda>(r, b3).
             if r = Inserted then Inr b3 else Inl Unreachable))"

definition kbucket_update_pending :: "('t, 'v) kbucket \<Rightarrow> node_status \<Rightarrow> ('t, 'v) kbucket" where
  "kbucket_update_pending b status =
     b\<lparr>kb_pending := map_option (\<lambda>p. p\<lparr>pn_status := status\<rparr>) (kb_pending b)\<rparr>"

definition kbucket_remove_pending ::
  "('t, 'v) kbucket \<Rightarrow> ('t, 'v) pending_node option \<times> ('t, 'v) kbucket" where
  "kbucket_remove_pending b = (kb_pending b, b\<lparr>kb_pending := None\<rparr>)"

definition kbucket_apply_pending ::
  "instant \<Rightarrow> ('t, 'v) kbucket \<Rightarrow> (('t, 'v) applied_pending option \<times> ('t, 'v) kbucket) res" where
  "kbucket_apply_pending now b =
     (case kb_pending b of
        None \<Rightarrow> Inr (None, b)
      | Some p \<Rightarrow>
          let b0 = b\<lparr>kb_pending := None\<rparr> in
          if pn_replace p \<le> now then
            if kbucket_is_full b0 then
              if kbucket_status b0 0 = Connected then Inr (None, b0)
              else if first_connected_pos b0 = Some 0 then Inl AssertFailed
              else if pn_status p = Connected then
                res_bind (vec_remove 0 (kb_nodes b0)) (\<lambda>(ev, ns).
                  let f = (case first_connected_pos b0 of
                             None \<Rightarrow> Some (length ns) | Some q \<Rightarrow> checked_sub q 1) in
                  res_bind (array_push K_VALUE (pn_node p) ns) (\<lambda>ns'.
                    Inr (Some \<lparr>ap_inserted = pn_node p, ap_evicted = Some ev\<rparr>,
                         b0\<lparr>kb_nodes := ns', first_connected_pos := f\<rparr>)))
              else
                (case first_connected_pos b0 of
                   Some q \<Rightarrow>
                     res_bind (expect (checked_sub q 1)) (\<lambda>insert_pos.
                     res_bind (vec_remove 0 (kb_nodes b0)) (\<lambda>(ev, ns).
                     res_bind (array_insert K_VALUE insert_pos (pn_node p) ns) (\<lambda>ns'.
                       Inr (Some \<lparr>ap_inserted = pn_node p, ap_evicted = Some ev\<rparr>,
                            b0\<lparr>kb_nodes := ns'\<rparr>))))
                 | None \<Rightarrow>
                     res_bind (vec_remove 0 (kb_nodes b0)) (\<lambda>(ev, ns).
                     res_bind (array_push K_VALUE (pn_node p) ns) (\<lambda>ns'.
                       Inr (Some \<lparr>ap_inserted = pn_node p, ap_evicted = Some ev\<rparr>,
                            b0\<lparr>kb_nodes := ns'\<rparr>))))
            else
              res_bind (kbucket_insert now b0 (pn_node p) (pn_status p)) (\<lambda>(r, b1).
                if r = Inserted
                then Inr (Some \<lparr>ap_inserted = pn_node p, ap_evicted = None\<rparr>, b1)
                else Inl Unreachable)
          else Inr (None, b))"

section \<open>Specification\<close>

record ('t, 'v) bucket_spec =
  sp_disconnected :: "('t, 'v) node list"
  sp_connected :: "('t, 'v) node list"
  sp_pending :: "('t, 'v) pending_node option"

definition spec_size :: "('t, 'v) bucket_spec \<Rightarrow> nat" where
  "spec_size s = length (sp_disconnected s) + length (sp_connected s)"

text \<open>Appending to one of the two lists, as the most recent of its kind.\<close>

definition spec_append :: "('t, 'v) node \<Rightarrow> node_status \<Rightarrow> ('t, 'v) bucket_spec \<Rightarrow> ('t, 'v) bucket_spec" where
  "spec_append n status s =
     (case status of
        Connected \<Rightarrow> s\<lparr>sp_connected := sp_connected s @ [n]\<rparr>
      | Disconnected \<Rightarrow> s\<lparr>sp_disconnected := sp_disconnected s @ [n]\<rparr>)"

text \<open>A full bucket accepts a connected node as pending if it has a disconnected node to evict
  and no pending node yet.\<close>

definition spec_insert ::
  "instant \<Rightarrow> duration \<Rightarrow> ('t, 'v) bucket_spec \<Rightarrow> ('t, 'v) node \<Rightarrow> node_status
     \<Rightarrow> 't insert_result \<times> ('t, 'v) bucket_spec" where
  "spec_insert now timeout s n status =
     (if spec_size s < K_VALUE then (Inserted, spec_append n status s)
      else if status = Connected \<and> sp_disconnected s \<noteq> [] \<and> sp_pending s = None
      then (PendingInsert (node_key (hd (sp_disconnected s))),
            s\<lparr>sp_pending := Some \<lparr>pn_node = n, pn_status = Connected, pn_replace = now + timeout\<rparr>\<rparr>)
      else (Full, s))"

definition spec_remove ::
  "('t, 'v) bucket_spec \<Rightarrow> 't key
     \<Rightarrow> (('t, 'v) node \<times> node_status \<times> nat) option \<times> ('t, 'v) bucket_spec" where
  "spec_remove s key =
     (case position_of (same_key key) (sp_disconnected s) of
        Some i \<Rightarrow>
          (Some (sp_disconnected s ! i, Disconnected, i),
           s\<lparr>sp_disconnected := remove_at i (sp_disconnected s)\<rparr>)
      | None \<Rightarrow>
          (case position_of (same_key key) (sp_connected s) of
             Some i \<Rightarrow>
               (Some (sp_connected s ! i, Connected, length (sp_disconnected s) + i),
                s\<lparr>sp_connected := remove_at i (sp_connected s)\<rparr>)
           | None \<Rightarrow> (None, s)))"

text \<open>A status change moves the node to the end of the list of its new status; the pending node
  is dropped when the node next in line for eviction becomes connected.\<close>

definition spec_update ::
  "('t, 'v) bucket_spec \<Rightarrow> 't key \<Rightarrow> node_status \<Rightarrow> ('t, 'v) bucket_spec" where
  "spec_update s key status =
     (case spec_remove s key of
        (None, s1) \<Rightarrow> s1
      | (Some (n, _, pos), s1) \<Rightarrow>
          spec_append n status
            (if pos = 0 \<and> status = Connected then s1\<lparr>sp_pending := None\<rparr> else s1))"

text \<open>A pending node whose time has come takes a free slot, or the slot of the node that is
  longest disconnected; it is dropped if the bucket is full of connected nodes.\<close>

definition spec_apply_pending ::
  "instant \<Rightarrow> ('t, 'v) bucket_spec \<Rightarrow> ('t, 'v) applied_pending option \<times> ('t, 'v) bucket_spec" where
  "spec_apply_pending now s =
     (case sp_pending s of
        None \<Rightarrow> (None, s)
      | Some p \<Rightarrow>
          if now < pn_replace p then (None, s)
          else
            let s0 = s\<lparr>sp_pending := None\<rparr> in
            if spec_size s < K_VALUE
            then (Some \<lparr>ap_inserted = pn_node p, ap_evicted = None\<rparr>,
                  spec_append (pn_node p) (pn_status p) s0)
            else
              (case sp_disconnected s of
                 [] \<Rightarrow> (None, s0)
               | d # ds \<Rightarrow>
                   (Some \<lparr>ap_inserted = pn_node p, ap_evicted = Some d\<rparr>,
                    spec_append (pn_node p) (pn_status p) (s0\<lparr>sp_disconnected := ds\<rparr>))))"

section \<open>Invariant and abstraction\<close>

definition kbucket_ok :: "('t, 'v) kbucket \<Rightarrow> bool" where
  "kbucket_ok b \<longleftrightarrow>
     length (kb_nodes b) \<le> K_VALUE \<and>
     (case first_connected_pos b of None \<Rightarrow> True | Some p \<Rightarrow> p < length (kb_nodes b))"

definition bucket_split :: "('t, 'v) kbucket \<Rightarrow> nat" where
  "bucket_split b =
     (case first_connected_pos b of None \<Rightarrow> length (kb_nodes b) | Some p \<Rightarrow> p)"

definition bucket_abs :: "('t, 'v) kbucket \<Rightarrow> ('t, 'v) bucket_spec" where
  "bucket_abs b =
     \<lparr>sp_disconnected = take (bucket_split b) (kb_nodes b),
      sp_connected = drop (bucket_split b) (kb_nodes b),
      sp_pending = kb_pending b\<rparr>"

definition bucket_rep :: "duration \<Rightarrow> ('t, 'v) bucket_spec \<Rightarrow> ('t, 'v) kbucket" where
  "bucket_rep timeout s =
     \<lparr>kb_nodes = sp_disconnected s @ sp_connected s,
      first_connected_pos =
        (if sp_connected s = [] then None else Some (length (sp_disconnected s))),
      kb_pending = sp_pending s,
      pending_timeout = timeout\<rparr>"

lemma bucket_rep_simps [simp]:
  "kb_nodes (bucket_rep t s) = sp_disconnected s @ sp_connected s"
  "first_connected_pos (bucket_rep t s) =
     (if sp_connected s = [] then None else Some (length (sp_disconnected s)))"
  "kb_pending (bucket_rep t s) = sp_pending s"
  "pending_timeout (bucket_rep t s) = t"
  by (simp_all add: bucket_rep_def)

lemma bucket_abs_rep [simp]: "bucket_abs (bucket_rep t s) = s"
  by (simp add: bucket_abs_def bucket_split_def)

lemma bucket_rep_abs: "kbucket_ok b \<Longrightarrow> bucket_rep (pending_timeout b) (bucket_abs b) = b"
  by (cases b) (auto simp: bucket_rep_def bucket_abs_def bucket_split_def kbucket_ok_def
      split: option.splits)

lemma kbucket_ok_rep [simp]: "kbucket_ok (bucket_rep t s) \<longleftrightarrow> spec_size s \<le> K_VALUE"
  by (auto simp: kbucket_ok_def spec_size_def)

lemma kbucket_okE:
  assumes "kbucket_ok b"
  obtains s where "b = bucket_rep (pending_timeout b) s" "spec_size s \<le> K_VALUE"
  using assms bucket_rep_abs kbucket_ok_rep by metis

lemma kbucket_new_rep:
  "kbucket_new t = bucket_rep t \<lparr>sp_disconnected = [], sp_connected = [], sp_pending = None\<rparr>"
  by (simp add: kbucket_new_def bucket_rep_def)

lemma kbucket_status_rep [simp]:
  "kbucket_status (bucket_rep t s) i =
     (if sp_connected s \<noteq> [] \<and> length (sp_disconnected s) \<le> i then Connected else Disconnected)"
  by (simp add: kbucket_status_def)

lemma kbucket_is_full_rep [simp]:
  "kbucket_is_full (bucket_rep t s) \<longleftrightarrow> spec_size s = K_VALUE"
  by (simp add: kbucket_is_full_def spec_size_def)

lemma K_VALUE_pos [simp]: "0 < K_VALUE" "K_VALUE \<noteq> 0"
  by (simp_all add: K_VALUE_def)

lemma bucket_rep_pending [simp]:
  "(bucket_rep t s)\<lparr>kb_pending := p\<rparr> = bucket_rep t (s\<lparr>sp_pending := p\<rparr>)"
  by (simp add: bucket_rep_def)

section \<open>Refinement\<close>

lemma spec_size_append [simp]: "spec_size (spec_append n st s) = Suc (spec_size s)"
  by (simp add: spec_append_def spec_size_def split: node_status.splits)

lemma spec_size_pending [simp]: "spec_size (s\<lparr>sp_pending := p\<rparr>) = spec_size s"
  by (simp add: spec_size_def)

lemma kbucket_insert_rep:
  assumes "spec_size s \<le> K_VALUE"
  shows "kbucket_insert now (bucket_rep t s) n st =
    Inr (map_prod id (bucket_rep t) (spec_insert now t s n st))"
proof (cases "spec_size s < K_VALUE")
  case True
  then show ?thesis
    by (cases st)
      (auto simp: kbucket_insert_def spec_insert_def spec_append_def spec_size_def bucket_rep_def
        insert_at_def kbucket_is_full_def)
next
  case False
  with assms have full: "spec_size s = K_VALUE" by simp
  show ?thesis
  proof (cases "sp_disconnected s")
    case Nil
    with full have "sp_connected s \<noteq> []" by (auto simp: spec_size_def)
    with Nil full show ?thesis
      by (cases st) (simp_all add: kbucket_insert_def spec_insert_def)
  next
    case (Cons d ds)
    with full show ?thesis
      by (cases st) (auto simp: kbucket_insert_def spec_insert_def bucket_rep_def kbucket_is_full_def spec_size_def)
  qed
qed

lemma position_of_append:
  "position_of P (xs @ ys) =
     (case position_of P xs of
        Some i \<Rightarrow> Some i
      | None \<Rightarrow> map_option (\<lambda>j. length xs + j) (position_of P ys))"
  by (induction xs; cases "position_of P ys")
    (auto split: option.splits)

lemma kbucket_remove_rep:
  "kbucket_remove (bucket_rep t s) key = Inr (map_prod id (bucket_rep t) (spec_remove s key))"
proof (cases "position_of (same_key key) (sp_disconnected s)")
  case (Some i)
  then have "i < length (sp_disconnected s)" by (auto dest: position_of_SomeD)
  with Some show ?thesis
    by (auto simp: kbucket_remove_def kbucket_position_def spec_remove_def position_of_append
        bucket_rep_def kbucket_status_def remove_at_def nth_append Let_def)
next
  case None
  show ?thesis
  proof (cases "position_of (same_key key) (sp_connected s)")
    case (Some j)
    then have j: "j < length (sp_connected s)" by (auto dest: position_of_SomeD)
    then have "sp_connected s \<noteq> []" by auto
    moreover have "remove_at j (sp_connected s) = [] \<longleftrightarrow> j = 0 \<and> length (sp_connected s) = 1"
      using j by (cases "sp_connected s") (auto simp: remove_at_def)
    ultimately show ?thesis
      using None Some j
      by (auto simp: kbucket_remove_def kbucket_position_def spec_remove_def position_of_append
          bucket_rep_def kbucket_status_def remove_at_def nth_append Let_def)
  qed (use None in \<open>simp add: kbucket_remove_def kbucket_position_def spec_remove_def
        position_of_append\<close>)
qed

lemma spec_remove_size:
  "spec_remove s key = (Some r, s') \<Longrightarrow> Suc (spec_size s') = spec_size s"
  by (auto simp: spec_remove_def spec_size_def split: option.splits dest!: position_of_SomeD)

lemma kbucket_update_rep:
  assumes "spec_size s \<le> K_VALUE"
  shows "kbucket_update now (bucket_rep t s) key st = Inr (bucket_rep t (spec_update s key st))"
proof (cases "spec_remove s key")
  case (Pair r s1)
  show ?thesis
  proof (cases r)
    case (Some x)
    obtain n st0 pos where x: "x = (n, st0, pos)" by (metis prod_cases3)
    have "spec_size s1 < K_VALUE"
      using spec_remove_size [of s key x s1] Pair Some assms by simp
    then show ?thesis
      using Pair Some x
      by (simp add: kbucket_update_def kbucket_remove_rep spec_update_def kbucket_insert_rep
          spec_insert_def Let_def)
  qed (use Pair in \<open>simp add: kbucket_update_def kbucket_remove_rep spec_update_def\<close>)
qed

lemma kbucket_apply_pending_full_rep:
  assumes full: "spec_size s = K_VALUE" and p: "sp_pending s = Some p" "pn_replace p \<le> now"
  shows "kbucket_apply_pending now (bucket_rep t s) =
    Inr (map_prod id (bucket_rep t) (spec_apply_pending now s))"
proof (cases "sp_disconnected s")
  case Nil
  with full have "sp_connected s \<noteq> []" by (auto simp: spec_size_def)
  with Nil full p show ?thesis
    by (simp add: kbucket_apply_pending_def spec_apply_pending_def kbucket_status_def
        bucket_rep_def kbucket_is_full_def spec_size_def Let_def)
next
  case (Cons d ds)
  have len: "length ds + length (sp_connected s) < K_VALUE" using full Cons by (simp add: spec_size_def)
  show ?thesis
    using full p Cons len
    by (cases "pn_status p")
      (auto simp: kbucket_apply_pending_def spec_apply_pending_def kbucket_status_def spec_append_def
        bucket_rep_def kbucket_is_full_def spec_size_def checked_sub_def insert_at_def Let_def)
qed

lemma kbucket_apply_pending_rep:
  assumes "spec_size s \<le> K_VALUE"
  shows "kbucket_apply_pending now (bucket_rep t s) =
    Inr (map_prod id (bucket_rep t) (spec_apply_pending now s))"
proof (cases "sp_pending s")
  case (Some p)
  show ?thesis
  proof (cases "pn_replace p \<le> now \<and> spec_size s < K_VALUE")
    case True
    with Some show ?thesis
      by (simp add: kbucket_apply_pending_def spec_apply_pending_def kbucket_insert_rep
          spec_insert_def Let_def)
  next
    case False
    then consider "now < pn_replace p" | "pn_replace p \<le> now" "spec_size s = K_VALUE"
      using assms by linarith
    then show ?thesis
    proof cases
      case 1
      with Some show ?thesis by (simp add: kbucket_apply_pending_def spec_apply_pending_def Let_def)
    qed (use Some kbucket_apply_pending_full_rep in blast)
  qed
qed (simp add: kbucket_apply_pending_def spec_apply_pending_def)

section \<open>Sequences of operations\<close>

datatype ('t, 'v) bucket_op =
    BInsert instant "('t, 'v) node" node_status
  | BRemove "'t key"
  | BUpdate instant "'t key" node_status
  | BUpdatePending node_status
  | BRemovePending
  | BApplyPending instant

datatype ('t, 'v) bucket_out =
    OInsert "'t insert_result"
  | ORemove "(('t, 'v) node \<times> node_status \<times> nat) option"
  | OUnit
  | ORemovedPending "('t, 'v) pending_node option"
  | OApplied "('t, 'v) applied_pending option"

fun kbucket_step ::
  "('t, 'v) bucket_op \<Rightarrow> ('t, 'v) kbucket \<Rightarrow> (('t, 'v) bucket_out \<times> ('t, 'v) kbucket) res" where
  "kbucket_step (BInsert now n st) b =
     res_bind (kbucket_insert now b n st) (\<lambda>(r, b'). Inr (OInsert r, b'))"
| "kbucket_step (BRemove k) b = res_bind (kbucket_remove b k) (\<lambda>(r, b'). Inr (ORemove r, b'))"
| "kbucket_step (BUpdate now k st) b = res_bind (kbucket_update now b k st) (\<lambda>b'. Inr (OUnit, b'))"
| "kbucket_step (BUpdatePending st) b = Inr (OUnit, kbucket_update_pending b st)"
| "kbucket_step BRemovePending b =
     (case kbucket_remove_pending b of (r, b') \<Rightarrow> Inr (ORemovedPending r, b'))"
| "kbucket_step (BApplyPending now) b =
     res_bind (kbucket_apply_pending now b) (\<lambda>(r, b'). Inr (OApplied r, b'))"

fun spec_step ::
  "duration \<Rightarrow> ('t, 'v) bucket_op \<Rightarrow> ('t, 'v) bucket_spec
     \<Rightarrow> ('t, 'v) bucket_out \<times> ('t, 'v) bucket_spec" where
  "spec_step t (BInsert now n st) s = map_prod OInsert id (spec_insert now t s n st)"
| "spec_step t (BRemove k) s = map_prod ORemove id (spec_remove s k)"
| "spec_step t (BUpdate now k st) s = (OUnit, spec_update s k st)"
| "spec_step t (BUpdatePending st) s =
     (OUnit, s\<lparr>sp_pending := map_option (\<lambda>p. p\<lparr>pn_status := st\<rparr>) (sp_pending s)\<rparr>)"
| "spec_step t BRemovePending s = (ORemovedPending (sp_pending s), s\<lparr>sp_pending := None\<rparr>)"
| "spec_step t (BApplyPending now) s = map_prod OApplied id (spec_apply_pending now s)"

fun spec_run ::
  "duration \<Rightarrow> ('t, 'v) bucket_op list \<Rightarrow> ('t, 'v) bucket_spec
     \<Rightarrow> ('t, 'v) bucket_out list \<times> ('t, 'v) bucket_spec" where
  "spec_run t [] s = ([], s)"
| "spec_run t (op # ops) s =
     (case spec_step t op s of (out, s') \<Rightarrow> map_prod ((#) out) id (spec_run t ops s'))"

lemma kbucket_step_rep:
  assumes "spec_size s \<le> K_VALUE"
  shows "kbucket_step op (bucket_rep t s) = Inr (map_prod id (bucket_rep t) (spec_step t op s))"
  using assms
  by (cases op)
    (auto simp: kbucket_insert_rep kbucket_remove_rep kbucket_update_rep kbucket_apply_pending_rep
      kbucket_update_pending_def kbucket_remove_pending_def case_prod_beta map_prod_def)

lemma spec_insert_size: "spec_size s \<le> K_VALUE \<Longrightarrow> spec_size (snd (spec_insert now t s n st)) \<le> K_VALUE"
  by (auto simp: spec_insert_def)

lemma spec_remove_size_le: "spec_size (snd (spec_remove s key)) \<le> spec_size s"
  using spec_remove_size [of s key] by (cases "spec_remove s key"; cases "fst (spec_remove s key)")
    (force simp: spec_remove_def split: option.splits)+

lemma spec_update_size: "spec_size (spec_update s key st) = spec_size s"
proof (cases "spec_remove s key")
  case (Pair r s1)
  then show ?thesis
    using spec_remove_size [of s key _ s1]
    by (cases r) (auto simp: spec_update_def spec_remove_def split: option.splits)
qed

lemma spec_apply_pending_size:
  "spec_size s \<le> K_VALUE \<Longrightarrow> spec_size (snd (spec_apply_pending now s)) \<le> K_VALUE"
  by (auto simp: spec_apply_pending_def Let_def split: option.splits list.splits)
    (simp add: spec_size_def)

lemma spec_step_size: "spec_size s \<le> K_VALUE \<Longrightarrow> spec_size (snd (spec_step t op s)) \<le> K_VALUE"
  by (cases op) (auto simp: spec_insert_size spec_update_size spec_apply_pending_size
      intro: le_trans [OF spec_remove_size_le])

lemma kbucket_step_safe:
  assumes "kbucket_ok b"
  shows "\<exists>out b'. kbucket_step op b = Inr (out, b') \<and> kbucket_ok b' \<and>
    pending_timeout b' = pending_timeout b \<and>
    (out, bucket_abs b') = spec_step (pending_timeout b) op (bucket_abs b)"
proof -
  from assms obtain s where s: "b = bucket_rep (pending_timeout b) s" "spec_size s \<le> K_VALUE"
    by (rule kbucket_okE)
  let ?t = "pending_timeout b"
  have "kbucket_step op b = Inr (map_prod id (bucket_rep ?t) (spec_step ?t op s))"
    using kbucket_step_rep [OF s(2)] s(1) by metis
  moreover have "bucket_abs b = s" using s(1) bucket_abs_rep by metis
  ultimately show ?thesis
    using spec_step_size [OF s(2), of ?t op] by (cases "spec_step ?t op s") auto
qed

text \<open>The contract of the previous lemma lifted to runs by the locale of the prelude.\<close>

interpretation bucket: safe_steps kbucket_step kbucket_ok "\<lambda>_. True"
  by unfold_locales (use kbucket_step_safe in blast)

lemma kbucket_run_spec:
  "kbucket_ok b \<Longrightarrow> run_ops kbucket_step ops b = Inr (outs, b') \<Longrightarrow>
     pending_timeout b' = pending_timeout b \<and>
     (outs, bucket_abs b') = spec_run (pending_timeout b) ops (bucket_abs b)"
proof (induction ops arbitrary: b outs)
  case (Cons op ops)
  obtain out b1 where b1: "kbucket_step op b = Inr (out, b1)" "kbucket_ok b1"
    "pending_timeout b1 = pending_timeout b"
    "spec_step (pending_timeout b) op (bucket_abs b) = (out, bucket_abs b1)"
    using kbucket_step_safe [OF Cons.prems(1), of op] by metis
  with Cons.prems(2) obtain outs1 where "run_ops kbucket_step ops b1 = Inr (outs1, b')" "outs = out # outs1"
    by (auto simp: res_bind_Inr_iff)
  with Cons.IH [OF b1(2), of outs1] b1 show ?case by (auto simp: map_prod_def split: prod.splits)
qed simp

section \<open>The keys of a bucket\<close>

definition node_kb :: "('t, 'v) node \<Rightarrow> keybytes" where
  "node_kb n = key_bytes (node_key n)"

definition pending_keys :: "('t, 'v) pending_node option \<Rightarrow> keybytes list" where
  "pending_keys p = (case p of None \<Rightarrow> [] | Some q \<Rightarrow> [node_kb (pn_node q)])"

definition bucket_keys :: "('t, 'v) kbucket \<Rightarrow> keybytes list" where
  "bucket_keys b = map node_kb (kb_nodes b) @ pending_keys (kb_pending b)"

definition spec_keys :: "('t, 'v) bucket_spec \<Rightarrow> keybytes list" where
  "spec_keys s =
     map node_kb (sp_disconnected s) @ map node_kb (sp_connected s) @ pending_keys (sp_pending s)"

lemma pending_keys_simps [simp]:
  "pending_keys None = []"
  "pending_keys (Some q) = [node_kb (pn_node q)]"
  by (simp_all add: pending_keys_def)

lemma bucket_keys_rep [simp]: "bucket_keys (bucket_rep t s) = spec_keys s"
  by (simp add: bucket_keys_def spec_keys_def)

lemma spec_keys_append:
  "mset (spec_keys (spec_append n st s)) = add_mset (node_kb n) (mset (spec_keys s))"
  by (cases st) (simp_all add: spec_append_def spec_keys_def)

lemma spec_keys_insert:
  "mset (spec_keys (snd (spec_insert now t s n st))) \<subseteq># add_mset (node_kb n) (mset (spec_keys s))"
  by (auto simp: spec_insert_def spec_keys_append) (auto simp: spec_keys_def)

lemma spec_keys_remove:
  assumes "spec_remove s key = (Some (n, st, pos), s')"
  shows "mset (spec_keys s) = add_mset (node_kb n) (mset (spec_keys s'))"
    and "node_kb n = key_bytes key"
proof -
  have *: "mset (map node_kb xs) = add_mset (node_kb (xs ! i)) (mset (map node_kb (remove_at i xs)))"
    if "i < length xs" for xs :: "('a, 'b) node list" and i
    using mset_remove_at [of i "map node_kb xs"] that by simp
  show "mset (spec_keys s) = add_mset (node_kb n) (mset (spec_keys s'))"
    using assms *
    by (auto simp: spec_remove_def spec_keys_def simp del: map_remove_at mset_map
        split: option.splits dest!: position_of_SomeD)
  show "node_kb n = key_bytes key"
    using assms
    by (auto simp: spec_remove_def same_key_def node_kb_def split: option.splits dest!: position_of_SomeD)
qed

lemma spec_keys_drop_pending: "mset (spec_keys (s\<lparr>sp_pending := None\<rparr>)) \<subseteq># mset (spec_keys s)"
  by (simp add: spec_keys_def)

lemma spec_keys_remove_le: "mset (spec_keys (snd (spec_remove s key))) \<subseteq># mset (spec_keys s)"
proof (cases "fst (spec_remove s key)")
  case (Some r)
  obtain n st pos where "r = (n, st, pos)" by (metis prod_cases3)
  with Some have "spec_remove s key = (Some (n, st, pos), snd (spec_remove s key))"
    by (metis prod.collapse)
  then show ?thesis by (drule_tac spec_keys_remove(1)) simp
qed (auto simp: spec_remove_def split: option.splits)

lemma spec_keys_update: "mset (spec_keys (spec_update s key st)) \<subseteq># mset (spec_keys s)"
proof (cases "spec_remove s key")
  case (Pair r s1)
  show ?thesis
  proof (cases r)
    case (Some x)
    obtain n st0 pos where x: "x = (n, st0, pos)" by (metis prod_cases3)
    have "mset (spec_keys s) = add_mset (node_kb n) (mset (spec_keys s1))"
      using Pair Some x spec_keys_remove(1) by blast
    with Pair Some x show ?thesis
      using spec_keys_drop_pending [of s1] by (simp add: spec_update_def spec_keys_append)
  next
    case None
    with Pair show ?thesis by (auto simp: spec_update_def spec_remove_def split: option.splits)
  qed
qed

lemma spec_keys_apply_pending: "mset (spec_keys (snd (spec_apply_pending now s))) \<subseteq># mset (spec_keys s)"
proof (cases "sp_pending s")
  case (Some p)
  have eq: "mset (spec_keys s) = add_mset (node_kb (pn_node p)) (mset (spec_keys (s\<lparr>sp_pending := None\<rparr>)))"
    using Some by (simp add: spec_keys_def)
  have tl: "mset (spec_keys (s\<lparr>sp_pending := None, sp_disconnected := ds\<rparr>))
      \<subseteq># mset (spec_keys (s\<lparr>sp_pending := None\<rparr>))" if "sp_disconnected s = d # ds" for d ds
    using that by (simp add: spec_keys_def)
  show ?thesis
    using Some tl by (auto simp: spec_apply_pending_def spec_keys_append eq Let_def
        simp del: spec_size_pending split: list.splits)
qed (simp add: spec_apply_pending_def)

section \<open>The entries of a bucket\<close>

lemma kbucket_iter_rep:
  "kbucket_iter (bucket_rep t s) =
     map (\<lambda>n. (n, Disconnected)) (sp_disconnected s) @ map (\<lambda>n. (n, Connected)) (sp_connected s)"
  by (rule nth_equalityI) (auto simp: kbucket_iter_def nth_enumerate_eq nth_append)

lemma length_kbucket_iter [simp]: "length (kbucket_iter b) = length (kb_nodes b)"
  by (simp add: kbucket_iter_def)

lemma map_fst_kbucket_iter [simp]: "map fst (kbucket_iter b) = kb_nodes b"
  by (rule nth_equalityI) (simp_all add: kbucket_iter_def nth_enumerate_eq)

lemma nth_kbucket_iter:
  "i < length (kb_nodes b) \<Longrightarrow> kbucket_iter b ! i = (kb_nodes b ! i, kbucket_status b i)"
  by (simp add: kbucket_iter_def nth_enumerate_eq)

lemma mset_iter_append:
  "mset (kbucket_iter (bucket_rep t (spec_append n st s))) =
     add_mset (n, st) (mset (kbucket_iter (bucket_rep t s)))"
  by (cases st) (simp_all add: kbucket_iter_rep spec_append_def)

lemma all_connected_rep:
  assumes "spec_size s = K_VALUE"
  shows "(\<forall>i < K_VALUE. kbucket_status (bucket_rep t s) i = Connected) \<longleftrightarrow> sp_disconnected s = []"
proof
  assume "\<forall>i < K_VALUE. kbucket_status (bucket_rep t s) i = Connected"
  then have "kbucket_status (bucket_rep t s) 0 = Connected" using K_VALUE_pos(1) by blast
  then show "sp_disconnected s = []" by (simp split: if_splits)
qed (use assms in \<open>auto simp: spec_size_def\<close>)

lemma spec_remove_iter:
  assumes "spec_remove s key = (Some (n, st, pos), s')"
  shows "pos < spec_size s \<and> n = (sp_disconnected s @ sp_connected s) ! pos \<and>
    position_of (same_key key) (sp_disconnected s @ sp_connected s) = Some pos \<and>
    kbucket_iter (bucket_rep t s') = remove_at pos (kbucket_iter (bucket_rep t s))"
  using assms
  by (auto simp: spec_remove_def kbucket_iter_rep position_of_append spec_size_def remove_at_def nth_append
      take_map drop_map split: option.splits dest!: position_of_SomeD)

lemma kbucket_iter_rep_drop_pending [simp]:
  "kbucket_iter (bucket_rep t (s\<lparr>sp_pending := p\<rparr>)) = kbucket_iter (bucket_rep t s)"
  by (simp add: kbucket_iter_rep)

lemma last_kb_nodes_append:
  "last (kb_nodes (bucket_rep t (spec_append n Connected s))) = n"
  by (simp add: spec_append_def)

lemma kbucket_insert_inserted:
  assumes "kbucket_ok b" and "kbucket_insert now b n st = Inr (Inserted, b')"
  shows "mset (kbucket_iter b') = add_mset (n, st) (mset (kbucket_iter b))"
proof -
  from assms(1) obtain s where s: "b = bucket_rep (pending_timeout b) s" "spec_size s \<le> K_VALUE"
    by (rule kbucket_okE)
  define t where "t = pending_timeout b"
  have b: "b = bucket_rep t s" using s(1) by (simp add: t_def)
  show ?thesis
  proof (cases "spec_size s < K_VALUE")
    case True
    then show ?thesis using assms(2) by (auto simp: b kbucket_insert_rep spec_insert_def mset_iter_append)
  next
    case False
    with s(2) show ?thesis using assms(2)
      by (auto simp: b kbucket_insert_rep spec_insert_def split: node_status.splits list.splits option.splits if_splits)
  qed
qed

section \<open>Properties\<close>

text \<open>C14. Every sequence of bucket operations, starting with a new bucket, runs without a panic
  (none of the \<^verbatim>\<open>unreachable!\<close>, \<^verbatim>\<open>expect\<close>, \<^verbatim>\<open>debug_assert!\<close>, index or capacity checks fails), returns
  exactly the results of the two-list specification, and leaves a bucket of at most 20 nodes
  whose disconnected prefix, connected suffix and pending node are those of the specification.\<close>

theorem bucket_run_refines:
  "\<exists>outs b. run_ops kbucket_step ops (kbucket_new t) = Inr (outs, b) \<and> kbucket_ok b \<and>
     (outs, bucket_abs b) =
       spec_run t ops \<lparr>sp_disconnected = [], sp_connected = [], sp_pending = None\<rparr>"
proof -
  have new: "kbucket_ok (kbucket_new t)"
    by (simp add: kbucket_ok_def kbucket_new_def)
  from bucket.run_safe [OF new, of ops] obtain outs b where
    "run_ops kbucket_step ops (kbucket_new t) = Inr (outs, b)" "kbucket_ok b" by auto
  moreover from this kbucket_run_spec [OF new, of ops outs b]
  have "(outs, bucket_abs b) = spec_run t ops (bucket_abs (kbucket_new t))"
    by (simp add: kbucket_new_def)
  ultimately show ?thesis by (auto simp: kbucket_new_rep)
qed

text \<open>C15. The outcome of \<^verbatim>\<open>insert\<close> as its documentation gives it.  A bucket with a free slot
  inserts the node with the requested status and changes no other entry.  A full bucket refuses a
  disconnected node; it refuses a connected node if all nodes are connected or a node is pending;
  otherwise the node becomes the pending node, due after the timeout, and the key returned is
  the key of the first node, which is disconnected.\<close>

theorem insert_outcome:
  assumes "kbucket_ok b"
  shows "\<exists>r b'. kbucket_insert now b n st = Inr (r, b') \<and> kbucket_ok b' \<and>
    (if \<not> kbucket_is_full b
     then r = Inserted \<and> kb_pending b' = kb_pending b \<and>
       mset (kbucket_iter b') = add_mset (n, st) (mset (kbucket_iter b))
     else if st = Disconnected \<or> kb_pending b \<noteq> None \<or>
       (\<forall>i < K_VALUE. kbucket_status b i = Connected)
     then r = Full \<and> b' = b
     else r = PendingInsert (node_key (kb_nodes b ! 0)) \<and> kbucket_status b 0 = Disconnected \<and>
       b' = b\<lparr>kb_pending := Some \<lparr>pn_node = n, pn_status = Connected,
                                 pn_replace = now + pending_timeout b\<rparr>\<rparr>)"
proof -
  from assms obtain s where s: "b = bucket_rep (pending_timeout b) s" "spec_size s \<le> K_VALUE"
    by (rule kbucket_okE)
  define t where "t = pending_timeout b"
  have b: "b = bucket_rep t s" using s(1) by (simp add: t_def)
  show ?thesis
  proof (cases "spec_size s < K_VALUE")
    case True
    then show ?thesis
      by (simp add: b kbucket_insert_rep spec_insert_def mset_iter_append) (simp add: spec_append_def split: node_status.splits)
  next
    case False
    with s(2) have full: "spec_size s = K_VALUE" by simp
    show ?thesis
      using all_connected_rep [OF full, of t] full
      by (cases st; cases "sp_disconnected s"; cases "sp_pending s")
        (simp_all add: b kbucket_insert_rep spec_insert_def)
  qed
qed

theorem insert_outcome_witness:
  "\<exists>r b'. kbucket_insert 5 (kbucket_new 60) \<lparr>node_key = \<lparr>preimage = (), key_bytes = [1]\<rparr>, node_value = ()\<rparr> Connected
      = Inr (r, b') \<and> kbucket_ok b' \<and> r = Inserted"
  using insert_outcome [of "kbucket_new 60" 5 "\<lparr>node_key = \<lparr>preimage = (), key_bytes = [1]\<rparr>, node_value = ()\<rparr>" Connected]
  by (auto simp: kbucket_ok_def kbucket_new_def kbucket_is_full_def K_VALUE_def)

text \<open>A status update of a node that is in the bucket never panics, gives that node the new
  status, leaves every other entry with its status, puts a node that became connected last in
  the bucket (the most recently connected), and drops the pending node exactly when the node
  was the first of the bucket and became connected.\<close>

lemma update_outcome:
  assumes "kbucket_ok b" and "kbucket_position b key = Some i"
  shows "\<exists>b'. kbucket_update now b key st = Inr b' \<and> kbucket_ok b' \<and>
    mset (kbucket_iter b') = add_mset (kb_nodes b ! i, st) (mset (remove_at i (kbucket_iter b))) \<and>
    (st = Connected \<longrightarrow> last (kb_nodes b') = kb_nodes b ! i) \<and>
    kb_pending b' = (if i = 0 \<and> st = Connected then None else kb_pending b)"
proof -
  from assms(1) obtain s where s: "b = bucket_rep (pending_timeout b) s" "spec_size s \<le> K_VALUE"
    by (rule kbucket_okE)
  define t where "t = pending_timeout b"
  have b: "b = bucket_rep t s" using s(1) by (simp add: t_def)
  obtain n st0 pos s1 where r: "spec_remove s key = (Some (n, st0, pos), s1)"
    using assms(2) by (cases "spec_remove s key")
      (auto simp: b kbucket_position_def spec_remove_def position_of_append split: option.splits)
  note it = spec_remove_iter [OF r, of t]
  with assms(2) have [simp]: "pos = i" by (simp add: b kbucket_position_def)
  have "sp_pending s1 = sp_pending s" using r by (auto simp: spec_remove_def split: option.splits)
  moreover have "spec_size (spec_update s key st) \<le> K_VALUE" using s(2) by (simp add: spec_update_size)
  ultimately show ?thesis
    using it r s(2)
    by (cases st) (auto simp: b kbucket_update_rep spec_update_def mset_iter_append last_kb_nodes_append
        simp del: bucket_rep_simps(1), auto simp: spec_append_def)
qed

text \<open>C16. A pending node replaces another node only when its time has come and the bucket is
  full, and then the evicted node is the first of the bucket, which is disconnected: no
  connected node is ever evicted.  The pending node enters with the status it had, every other
  entry keeps its status, and the bucket stays full with no pending node.\<close>

theorem apply_pending_eviction:
  assumes "kbucket_ok b" and "kbucket_apply_pending now b = Inr (Some a, b')" and "ap_evicted a = Some e"
  shows "\<exists>p. kb_pending b = Some p \<and> pending_is_ready now p \<and> ap_inserted a = pn_node p \<and>
    kbucket_is_full b \<and> e = kb_nodes b ! 0 \<and> kbucket_status b 0 = Disconnected \<and>
    mset (kbucket_iter b') = add_mset (pn_node p, pn_status p) (mset (tl (kbucket_iter b))) \<and>
    kbucket_is_full b' \<and> kbucket_ok b' \<and> kb_pending b' = None"
proof -
  from assms(1) obtain s where s: "b = bucket_rep (pending_timeout b) s" "spec_size s \<le> K_VALUE"
    by (rule kbucket_okE)
  define t where "t = pending_timeout b"
  have b: "b = bucket_rep t s" using s(1) by (simp add: t_def)
  have ap: "spec_apply_pending now s = (Some a, bucket_abs b')" and b': "b' = bucket_rep t (bucket_abs b')"
    using assms(2) s(2) by (cases "spec_apply_pending now s"; auto simp: b kbucket_apply_pending_rep)+
  then obtain p d ds where p: "sp_pending s = Some p" "pn_replace p \<le> now" "spec_size s = K_VALUE"
    "sp_disconnected s = d # ds" "a = \<lparr>ap_inserted = pn_node p, ap_evicted = Some d\<rparr>"
    "bucket_abs b' = spec_append (pn_node p) (pn_status p) (s\<lparr>sp_pending := None, sp_disconnected := ds\<rparr>)"
    using assms(3) s(2) by (auto simp: spec_apply_pending_def Let_def not_less split: option.splits if_splits list.splits)
  have size: "spec_size (s\<lparr>sp_pending := None, sp_disconnected := ds\<rparr>) = K_VALUE - 1"
    using p(3,4) by (simp add: spec_size_def)
  have "mset (kbucket_iter b') = add_mset (pn_node p, pn_status p) (mset (tl (kbucket_iter b)))"
    by (subst b') (simp add: p mset_iter_append, simp add: b kbucket_iter_rep p)
  moreover have "kbucket_is_full b'" "kbucket_ok b'"
    by (subst b', simp add: p size)+
  moreover have "kb_pending b' = None"
    by (subst b') (simp add: p spec_append_def split: node_status.splits)
  ultimately show ?thesis
    using p assms(3) by (auto simp: b pending_is_ready_def)
qed

text \<open>A full bucket of disconnected nodes with a due pending node, for the witnesses.\<close>

definition sample_node :: "nat \<Rightarrow> (unit, unit) node" where
  "sample_node i = \<lparr>node_key = \<lparr>preimage = (), key_bytes = [word_of_nat i]\<rparr>, node_value = ()\<rparr>"

definition sample_bucket :: "(unit, unit) kbucket" where
  "sample_bucket =
     \<lparr>kb_nodes = map sample_node [0..<20], first_connected_pos = None,
      kb_pending = Some \<lparr>pn_node = sample_node 20, pn_status = Connected, pn_replace = 7\<rparr>,
      pending_timeout = 3\<rparr>"

lemma sample_bucket_ok: "kbucket_ok sample_bucket"
  by (simp add: kbucket_ok_def sample_bucket_def K_VALUE_def)

lemma update_outcome_witness:
  "\<exists>b'. kbucket_update 9 sample_bucket (node_key (sample_node 0)) Connected = Inr b' \<and> kbucket_ok b' \<and>
     last (kb_nodes b') = sample_node 0 \<and> kb_pending b' = None"
proof -
  have pos: "kbucket_position sample_bucket (node_key (sample_node 0)) = Some 0"
    by (simp add: kbucket_position_def sample_bucket_def same_key_def sample_node_def upt_conv_Cons)
  have hd: "kb_nodes sample_bucket ! 0 = sample_node 0"
    by (simp add: sample_bucket_def)
  show ?thesis using update_outcome [OF sample_bucket_ok pos, of 9 Connected] hd by auto
qed

theorem apply_pending_eviction_witness:
  "\<exists>p. kb_pending sample_bucket = Some p \<and> pending_is_ready 8 p \<and> kbucket_status sample_bucket 0 = Disconnected"
proof -
  have "kbucket_apply_pending 8 sample_bucket =
      Inr (Some \<lparr>ap_inserted = sample_node 20, ap_evicted = Some (sample_node 0)\<rparr>,
           sample_bucket\<lparr>kb_pending := None, kb_nodes := map sample_node [1..<20] @ [sample_node 20],
                        first_connected_pos := Some 19\<rparr>)"
    by (simp add: kbucket_apply_pending_def sample_bucket_def kbucket_is_full_def K_VALUE_def
        kbucket_status_def upt_conv_Cons)
  from apply_pending_eviction [OF sample_bucket_ok this] show ?thesis by auto
qed

end
