(* ===== verification/Kad_Entry.thy ===== *)
theory Kad_Entry
  imports Kad_Bucket
begin

text \<open>
  Model of \<^verbatim>\<open>src/kbucket/entry.rs\<close>: the view of one key in its bucket.  A Rust entry borrows
  the bucket mutably; here an entry carries the bucket, its operations return the changed
  bucket, and the routing table writes it back (\<open>table_commit\<close> of theory \<open>Kad_Table\<close>).
  A \<^verbatim>\<open>&mut\<close> to the value is modelled by the function the caller applies through it.

  The lemmas show that the three \<^verbatim>\<open>expect\<close> calls of this file cannot fail on entries made by
  \<open>entry_new\<close>, and how the operations act on the keys of the bucket.
\<close>

section \<open>Data\<close>

record ('t, 'v) entry_ref =
  er_bucket :: "('t, 'v) kbucket"
  er_key :: "'t key"

datatype ('t, 'v) entry =
    Present "('t, 'v) entry_ref" node_status
  | PendingE "('t, 'v) entry_ref" node_status
  | Absent "('t, 'v) entry_ref"
  | SelfEntry

record ('t, 'v) entry_view =
  ev_node :: "('t, 'v) node"
  ev_status :: node_status

section \<open>Operations\<close>

definition entry_new :: "('t, 'v) kbucket \<Rightarrow> 't key \<Rightarrow> ('t, 'v) entry" where
  "entry_new b key =
     (case kbucket_position b key of
        Some pos \<Rightarrow> Present \<lparr>er_bucket = b, er_key = key\<rparr> (kbucket_status b pos)
      | None \<Rightarrow>
          (case kbucket_as_pending b key of
             Some p \<Rightarrow> PendingE \<lparr>er_bucket = b, er_key = key\<rparr> (pn_status p)
           | None \<Rightarrow> Absent \<lparr>er_bucket = b, er_key = key\<rparr>))"

definition present_value :: "('t, 'v) entry_ref \<Rightarrow> 'v res" where
  "present_value e = res_bind (expect (kbucket_get (er_bucket e) (er_key e))) (\<lambda>n. Inr (node_value n))"

definition present_value_mut :: "('v \<Rightarrow> 'v) \<Rightarrow> ('t, 'v) entry_ref \<Rightarrow> ('t, 'v) entry_ref res" where
  "present_value_mut f e =
     res_bind (expect (kbucket_get_mut (er_bucket e) (er_key e) f)) (\<lambda>b. Inr (e\<lparr>er_bucket := b\<rparr>))"

definition present_update :: "instant \<Rightarrow> node_status \<Rightarrow> ('t, 'v) entry_ref \<Rightarrow> ('t, 'v) entry_ref res" where
  "present_update now status e =
     res_bind (kbucket_update now (er_bucket e) (er_key e) status) (\<lambda>b. Inr (e\<lparr>er_bucket := b\<rparr>))"

definition present_remove ::
  "('t, 'v) entry_ref \<Rightarrow> (('t, 'v) entry_view \<times> ('t, 'v) kbucket) res" where
  "present_remove e =
     res_bind (kbucket_remove (er_bucket e) (er_key e)) (\<lambda>(removed, b).
     res_bind (expect removed) (\<lambda>(n, status, _).
       Inr (\<lparr>ev_node = n, ev_status = status\<rparr>, b)))"

definition pending_value :: "('t, 'v) entry_ref \<Rightarrow> 'v res" where
  "pending_value e =
     res_bind (expect (kb_pending (er_bucket e))) (\<lambda>p. Inr (node_value (pn_node p)))"

definition pending_entry_value_mut :: "('v \<Rightarrow> 'v) \<Rightarrow> ('t, 'v) entry_ref \<Rightarrow> ('t, 'v) entry_ref res" where
  "pending_entry_value_mut f e =
     res_bind (expect (kb_pending (er_bucket e))) (\<lambda>p.
       Inr (e\<lparr>er_bucket := (er_bucket e)\<lparr>kb_pending := Some (pending_value_mut f p)\<rparr>\<rparr>))"

definition pending_update :: "node_status \<Rightarrow> ('t, 'v) entry_ref \<Rightarrow> ('t, 'v) entry_ref" where
  "pending_update status e = e\<lparr>er_bucket := kbucket_update_pending (er_bucket e) status\<rparr>"

definition pending_remove ::
  "('t, 'v) entry_ref \<Rightarrow> (('t, 'v) entry_view \<times> ('t, 'v) kbucket) res" where
  "pending_remove e =
     (case kbucket_remove_pending (er_bucket e) of (removed, b) \<Rightarrow>
        res_bind (expect removed) (\<lambda>p. Inr (\<lparr>ev_node = pn_node p, ev_status = pn_status p\<rparr>, b)))"

definition absent_insert ::
  "instant \<Rightarrow> 'v \<Rightarrow> node_status \<Rightarrow> ('t, 'v) entry_ref \<Rightarrow> ('t insert_result \<times> ('t, 'v) kbucket) res" where
  "absent_insert now v status e =
     kbucket_insert now (er_bucket e) \<lparr>node_key = er_key e, node_value = v\<rparr> status"

text \<open>\<^verbatim>\<open>Entry::view\<close> shows the key it was looked up with, not the stored one.\<close>

fun entry_view_of :: "('t, 'v) entry \<Rightarrow> ('t, 'v) entry_view option res" where
  "entry_view_of (Present e status) =
     res_bind (present_value e) (\<lambda>v.
       Inr (Some \<lparr>ev_node = \<lparr>node_key = er_key e, node_value = v\<rparr>, ev_status = status\<rparr>))"
| "entry_view_of (PendingE e status) =
     res_bind (pending_value e) (\<lambda>v.
       Inr (Some \<lparr>ev_node = \<lparr>node_key = er_key e, node_value = v\<rparr>, ev_status = status\<rparr>))"
| "entry_view_of (Absent e) = Inr None"
| "entry_view_of SelfEntry = Inr None"

fun entry_key_of :: "('t, 'v) entry \<Rightarrow> 't key option" where
  "entry_key_of (Present e _) = Some (er_key e)"
| "entry_key_of (PendingE e _) = Some (er_key e)"
| "entry_key_of (Absent e) = Some (er_key e)"
| "entry_key_of SelfEntry = None"

fun entry_value :: "('t, 'v) entry \<Rightarrow> 'v option res" where
  "entry_value (Present e _) = res_bind (present_value e) (\<lambda>v. Inr (Some v))"
| "entry_value (PendingE e _) = res_bind (pending_value e) (\<lambda>v. Inr (Some v))"
| "entry_value (Absent e) = Inr None"
| "entry_value SelfEntry = Inr None"

section \<open>What the kinds of entries mean\<close>

lemma entry_new_cases:
  obtains (Present) i where "entry_new b key = Present \<lparr>er_bucket = b, er_key = key\<rparr> (kbucket_status b i)"
      "kbucket_position b key = Some i" "i < length (kb_nodes b)" "node_kb (kb_nodes b ! i) = key_bytes key"
  | (Pending) p where "entry_new b key = PendingE \<lparr>er_bucket = b, er_key = key\<rparr> (pn_status p)"
      "kbucket_position b key = None" "kb_pending b = Some p" "node_kb (pn_node p) = key_bytes key"
  | (Absent) "entry_new b key = Absent \<lparr>er_bucket = b, er_key = key\<rparr>"
      "kbucket_position b key = None" "key_bytes key \<notin> set (bucket_keys b)"
proof (cases "kbucket_position b key")
  case (Some i)
  then show thesis
    using Present by (auto simp: entry_new_def kbucket_position_def same_key_def node_kb_def
        dest!: position_of_SomeD)
next
  case None
  then have nokey: "key_bytes key \<notin> set (map node_kb (kb_nodes b))"
    by (auto simp: kbucket_position_def position_of_None same_key_def node_kb_def)
  show thesis
  proof (cases "kbucket_as_pending b key")
    case (Some p)
    with None Pending show thesis
      by (auto simp: entry_new_def kbucket_as_pending_def same_key_def node_kb_def
          split: option.splits if_splits)
  next
    case pNone: None
    with None nokey Absent show thesis
      by (auto simp: entry_new_def kbucket_as_pending_def bucket_keys_def same_key_def node_kb_def
          split: option.splits if_splits)
  qed
qed

lemma kbucket_okD_rep:
  assumes "kbucket_ok b"
  obtains s t where "b = bucket_rep t s" "spec_size s \<le> K_VALUE"
  using assms kbucket_okE by metis

lemma kbucket_remove_keys:
  assumes "kbucket_ok b" and "kbucket_position b key = Some i"
  obtains n st b' where "kbucket_remove b key = Inr (Some (n, st, i), b')" "n = kb_nodes b ! i"
    "st = kbucket_status b i" "kbucket_ok b'"
    "mset (bucket_keys b) = add_mset (key_bytes key) (mset (bucket_keys b'))"
proof -
  from assms(1) obtain s t where b: "b = bucket_rep t s" "spec_size s \<le> K_VALUE"
    by (rule kbucket_okD_rep)
  obtain n st pos s1 where r: "spec_remove s key = (Some (n, st, pos), s1)"
    using assms(2) by (cases "spec_remove s key")
      (auto simp: b kbucket_position_def spec_remove_def position_of_append split: option.splits)
  have pos: "pos = i" using spec_remove_iter [OF r, of t] assms(2) by (simp add: b kbucket_position_def)
  have st: "st = kbucket_status b i"
    using r pos by (auto simp: b spec_remove_def split: option.splits dest!: position_of_SomeD)
  show thesis
  proof (rule that)
    show "kbucket_remove b key = Inr (Some (n, st, i), bucket_rep t s1)"
      using r pos by (simp add: b kbucket_remove_rep)
    show "n = kb_nodes b ! i" using spec_remove_iter [OF r, of t] pos by (simp add: b)
    show "kbucket_ok (bucket_rep t s1)" using spec_remove_size [OF r] b(2) by simp
    show "mset (bucket_keys b) = add_mset (key_bytes key) (mset (bucket_keys (bucket_rep t s1)))"
      using spec_keys_remove [OF r] by (simp add: b)
  qed (rule st)
qed

lemma kbucket_update_keys:
  assumes "kbucket_ok b"
  obtains b' where "kbucket_update now b key st = Inr b'" "kbucket_ok b'"
    "mset (bucket_keys b') \<subseteq># mset (bucket_keys b)"
proof -
  from assms obtain s t where b: "b = bucket_rep t s" "spec_size s \<le> K_VALUE"
    by (rule kbucket_okD_rep)
  show thesis
    using that [of "bucket_rep t (spec_update s key st)"] spec_keys_update [of s key st] b
    by (simp add: kbucket_update_rep spec_update_size)
qed

lemma kbucket_insert_keys:
  assumes "kbucket_ok b"
  obtains r b' where "kbucket_insert now b n st = Inr (r, b')" "kbucket_ok b'"
    "mset (bucket_keys b') \<subseteq># add_mset (node_kb n) (mset (bucket_keys b))"
proof -
  from assms obtain s t where b: "b = bucket_rep t s" "spec_size s \<le> K_VALUE"
    by (rule kbucket_okD_rep)
  show thesis
    using that [of "fst (spec_insert now t s n st)" "bucket_rep t (snd (spec_insert now t s n st))"]
      spec_keys_insert [of now t s n st] spec_insert_size [OF b(2), of now t n st] b
    by (simp add: kbucket_insert_rep map_prod_def case_prod_beta)
qed

lemma kbucket_apply_pending_keys:
  assumes "kbucket_ok b"
  obtains a b' where "kbucket_apply_pending now b = Inr (a, b')" "kbucket_ok b'"
    "mset (bucket_keys b') \<subseteq># mset (bucket_keys b)"
proof -
  from assms obtain s t where b: "b = bucket_rep t s" "spec_size s \<le> K_VALUE"
    by (rule kbucket_okD_rep)
  show thesis
    using that [of "fst (spec_apply_pending now s)" "bucket_rep t (snd (spec_apply_pending now s))"]
      spec_keys_apply_pending [of now s] spec_apply_pending_size [OF b(2), of now] b
    by (simp add: kbucket_apply_pending_rep map_prod_def case_prod_beta)
qed

lemma kbucket_get_mut_keys:
  assumes "kbucket_ok b" and "kbucket_position b key = Some i"
  obtains b' where "kbucket_get_mut b key f = Some b'" "kbucket_ok b'" "bucket_keys b' = bucket_keys b"
proof -
  define ns where "ns = (kb_nodes b)[i := (kb_nodes b ! i)\<lparr>node_value := f (node_value (kb_nodes b ! i))\<rparr>]"
  have i: "i < length (kb_nodes b)"
    using assms(2) by (auto simp: kbucket_position_def dest: position_of_SomeD)
  have "map node_kb ns = (map node_kb (kb_nodes b))[i := node_kb (kb_nodes b ! i)]"
    by (simp add: ns_def map_update node_kb_def)
  also have "\<dots> = map node_kb (kb_nodes b)" using i by (metis list_update_id nth_map)
  finally have "bucket_keys (b\<lparr>kb_nodes := ns\<rparr>) = bucket_keys b" by (simp add: bucket_keys_def)
  moreover have "kbucket_ok (b\<lparr>kb_nodes := ns\<rparr>)"
    using assms(1) by (simp add: kbucket_ok_def ns_def split: option.splits)
  ultimately show thesis using that [of "b\<lparr>kb_nodes := ns\<rparr>"] assms(2)
    by (simp add: kbucket_get_mut_def ns_def)
qed

end
