(* ===== verification/Kad_Table.thy ===== *)
theory Kad_Table
  imports Kad_Entry
begin

text \<open>
  Model of the routing table of \<^verbatim>\<open>src/kbucket/mod.rs\<close>: the index of a distance, the table of
  256 buckets, access by key through entries, iteration, the queue of applied pending nodes
  and the random distance of a bucket.  The traversal by distance is in theory \<open>Kad_Closest\<close>.

  Every access to a bucket first applies its pending node at the current time.  The invariant
  \<open>table_ok\<close> says that every bucket is well formed and that bucket \<open>i\<close> holds each of its keys
  once, all with their distance from the local key in \<open>2 ^ i \<le> d < 2 ^ (i + 1)\<close>; the last
  section shows that the operations keep it and never panic.
\<close>

section \<open>Bucket indices\<close>

definition NUM_BUCKETS :: nat where
  "NUM_BUCKETS = 256"

definition leading_zeros :: "u256 \<Rightarrow> nat" where
  "leading_zeros w = length (takeWhile (\<lambda>i. \<not> bit w i) (rev [0..<256]))"

definition bucket_index_new :: "distance \<Rightarrow> nat option" where
  "bucket_index_new d = checked_sub (NUM_BUCKETS - leading_zeros (dist_u256 d)) 1"

text \<open>\<^verbatim>\<open>rand_distance\<close>: \<open>gen i\<close> is the byte drawn in round \<open>i\<close> of the loop and
  \<open>gen_range lower upper\<close> the number drawn at the end.\<close>

definition rand_distance :: "(nat \<Rightarrow> u8) \<Rightarrow> (nat \<Rightarrow> nat \<Rightarrow> nat) \<Rightarrow> nat \<Rightarrow> distance res" where
  "rand_distance gen gen_range index =
     (let quot = index div 8;
          rem = index mod 8;
          lower = 2 ^ rem;
          upper = 2 ^ (rem + 1)
      in if 31 < quot then Inl ArithOverflow
         else
           let bytes0 = fold (\<lambda>i bytes. bytes[31 - i := gen i]) [0..<quot] (replicate 32 0);
               bytes1 = bytes0[31 - quot := word_of_nat (gen_range lower upper)]
           in Inr (Distance (u256_from_be bytes1)))"

section \<open>The table\<close>

record ('t, 'v) kbuckets_table =
  local_key :: "'t key"
  tb_buckets :: "('t, 'v) kbucket list"
  tb_applied :: "('t, 'v) applied_pending list"

definition table_new :: "'t key \<Rightarrow> duration \<Rightarrow> ('t, 'v) kbuckets_table" where
  "table_new k timeout =
     \<lparr>local_key = k, tb_buckets = replicate NUM_BUCKETS (kbucket_new timeout), tb_applied = []\<rparr>"

definition table_index :: "('t, 'v) kbuckets_table \<Rightarrow> 't key \<Rightarrow> nat option" where
  "table_index t key =
     bucket_index_new (keybytes_distance (key_bytes (local_key t)) (key_bytes key))"

definition push_applied :: "'a option \<Rightarrow> 'a list \<Rightarrow> 'a list" where
  "push_applied a xs = (case a of None \<Rightarrow> xs | Some x \<Rightarrow> xs @ [x])"

text \<open>Access to bucket \<open>i\<close>, with the application of its pending node.\<close>

definition table_visit ::
  "instant \<Rightarrow> nat \<Rightarrow> ('t, 'v) kbuckets_table \<Rightarrow> (('t, 'v) kbucket \<times> ('t, 'v) kbuckets_table) res" where
  "table_visit now i t =
     res_bind (vec_index (tb_buckets t) i) (\<lambda>b.
     res_bind (kbucket_apply_pending now b) (\<lambda>(applied, b').
       Inr (b', t\<lparr>tb_buckets := (tb_buckets t)[i := b'],
                 tb_applied := push_applied applied (tb_applied t)\<rparr>)))"

definition table_entry ::
  "instant \<Rightarrow> ('t, 'v) kbuckets_table \<Rightarrow> 't key
     \<Rightarrow> (('t, 'v) entry \<times> ('t, 'v) kbuckets_table) res" where
  "table_entry now t key =
     (case table_index t key of
        Some i \<Rightarrow> res_bind (table_visit now i t) (\<lambda>(b, t'). Inr (entry_new b key, t'))
      | None \<Rightarrow> Inr (SelfEntry, t))"

text \<open>The bucket changed through an entry of \<open>key\<close>, back in its place.\<close>

definition table_commit ::
  "'t key \<Rightarrow> ('t, 'v) kbucket \<Rightarrow> ('t, 'v) kbuckets_table \<Rightarrow> ('t, 'v) kbuckets_table" where
  "table_commit key b t =
     (case table_index t key of
        Some i \<Rightarrow> t\<lparr>tb_buckets := (tb_buckets t)[i := b]\<rparr>
      | None \<Rightarrow> t)"

text \<open>
  Iteration over the buckets with the indices \<open>is\<close>; \<open>clock i\<close> is the time at which bucket \<open>i\<close>
  is reached.  The iterators of \<^verbatim>\<open>iter\<close> and \<^verbatim>\<open>buckets\<close> are lazy; the definitions below are the
  run to the end.
\<close>

fun table_visit_all ::
  "(nat \<Rightarrow> instant) \<Rightarrow> nat list \<Rightarrow> ('t, 'v) kbuckets_table
     \<Rightarrow> (('t, 'v) kbucket list \<times> ('t, 'v) kbuckets_table) res" where
  "table_visit_all clock [] t = Inr ([], t)"
| "table_visit_all clock (i # is) t =
     res_bind (table_visit (clock i) i t) (\<lambda>(b, t').
     res_bind (table_visit_all clock is t') (\<lambda>(bs, t''). Inr (b # bs, t'')))"

definition table_iter ::
  "(nat \<Rightarrow> instant) \<Rightarrow> ('t, 'v) kbuckets_table
     \<Rightarrow> ((('t, 'v) node \<times> node_status) list \<times> ('t, 'v) kbuckets_table) res" where
  "table_iter clock t =
     res_bind (table_visit_all clock [0..<length (tb_buckets t)] t) (\<lambda>(bs, t'). Inr (concat (map kbucket_iter bs), t'))"

record ('t, 'v) kbucket_ref =
  kr_index :: nat
  kr_bucket :: "('t, 'v) kbucket"

definition table_buckets ::
  "(nat \<Rightarrow> instant) \<Rightarrow> ('t, 'v) kbuckets_table
     \<Rightarrow> (('t, 'v) kbucket_ref list \<times> ('t, 'v) kbuckets_table) res" where
  "table_buckets clock t =
     res_bind (table_visit_all clock [0..<length (tb_buckets t)] t) (\<lambda>(bs, t').
       Inr (map (\<lambda>(i, b). \<lparr>kr_index = i, kr_bucket = b\<rparr>) (enumerate 0 bs), t'))"

definition table_take_applied_pending ::
  "('t, 'v) kbuckets_table \<Rightarrow> ('t, 'v) applied_pending option \<times> ('t, 'v) kbuckets_table" where
  "table_take_applied_pending t =
     (case tb_applied t of
        [] \<Rightarrow> (None, t)
      | a # as \<Rightarrow> (Some a, t\<lparr>tb_applied := as\<rparr>))"

definition kbucket_ref_num_entries :: "('t, 'v) kbucket_ref \<Rightarrow> nat" where
  "kbucket_ref_num_entries r = kbucket_num_entries (kr_bucket r)"

definition kbucket_ref_has_pending :: "instant \<Rightarrow> ('t, 'v) kbucket_ref \<Rightarrow> bool" where
  "kbucket_ref_has_pending now r =
     (case kb_pending (kr_bucket r) of None \<Rightarrow> False | Some p \<Rightarrow> \<not> pending_is_ready now p)"

definition kbucket_ref_contains :: "('t, 'v) kbucket_ref \<Rightarrow> distance \<Rightarrow> bool" where
  "kbucket_ref_contains r d =
     (case bucket_index_new d of None \<Rightarrow> False | Some i \<Rightarrow> i = kr_index r)"

section \<open>Bucket indices by bits\<close>

lemma leading_zeros_top_bit:
  assumes "i < 256" and "bit w i" and "\<And>j. i < j \<Longrightarrow> \<not> bit w j"
  shows "leading_zeros w = 255 - i"
proof -
  have "[0..<256] = [0..<i] @ [i..<256]"
    using assms(1) by (metis le_add_diff_inverse less_imp_le upt_add_eq_append zero_le)
  moreover have "[i..<256] = i # [Suc i..<256]" using assms(1) by (rule upt_conv_Cons)
  ultimately have "rev [0..<256] = rev [Suc i..<256] @ i # rev [0..<i]"
    by (simp del: upt.simps)
  moreover have "takeWhile (\<lambda>j. \<not> bit w j) (rev [Suc i..<256] @ i # rev [0..<i]) = rev [Suc i..<256]"
    using assms(2,3) by (subst takeWhile_append2) auto
  ultimately show ?thesis using assms(1) by (simp add: leading_zeros_def)
qed

lemma leading_zeros_0: "leading_zeros 0 = 256"
  by (simp add: leading_zeros_def takeWhile_eq_all_conv [THEN iffD2])

lemma bucket_index_None: "bucket_index_new d = None \<longleftrightarrow> d = Distance 0"
proof (cases "dist_u256 d = 0")
  case True
  then show ?thesis
    by (cases d) (simp add: bucket_index_new_def leading_zeros_0 NUM_BUCKETS_def checked_sub_def)
next
  case False
  then obtain i where i: "i < 256" "bit (dist_u256 d) i" "\<And>j. i < j \<Longrightarrow> \<not> bit (dist_u256 d) j"
    using top_bit_exists [of "dist_u256 d"] by auto
  from leading_zeros_top_bit [OF this] False i(1) show ?thesis
    by (cases d) (auto simp: bucket_index_new_def NUM_BUCKETS_def checked_sub_def)
qed

lemma bucket_index_Some:
  "bucket_index_new d = Some i \<longleftrightarrow>
     i < 256 \<and> bit (dist_u256 d) i \<and> (\<forall>j > i. \<not> bit (dist_u256 d) j)"
proof (cases "dist_u256 d = 0")
  case True
  then have "bucket_index_new d = None" by (cases d) (simp add: bucket_index_None)
  with True show ?thesis by simp
next
  case False
  then obtain k where k: "k < 256" "bit (dist_u256 d) k" "\<And>j. k < j \<Longrightarrow> \<not> bit (dist_u256 d) j"
    using top_bit_exists [of "dist_u256 d"] by auto
  then have "bucket_index_new d = Some k"
    using leading_zeros_top_bit [OF k] by (simp add: bucket_index_new_def NUM_BUCKETS_def checked_sub_def)
  with k show ?thesis by (metis linorder_neqE_nat option.inject)
qed

lemma bucket_index_range:
  "bucket_index_new d = Some i \<longleftrightarrow>
     i < 256 \<and> 2 ^ i \<le> unat (dist_u256 d) \<and> unat (dist_u256 d) < 2 ^ (i + 1)"
proof -
  let ?w = "dist_u256 d"
  have "bit ?w i \<and> (\<forall>j > i. \<not> bit ?w j) \<longleftrightarrow> 2 ^ i \<le> unat ?w \<and> unat ?w < 2 ^ (i + 1)"
    using unat_less_power_by_bits [of ?w i] unat_less_power_by_bits [of ?w "i + 1"]
    by (auto simp: Suc_le_eq not_less) (metis le_neq_implies_less)
  then show ?thesis by (auto simp: bucket_index_Some)
qed

section \<open>Invariant\<close>

definition bucket_at :: "keybytes \<Rightarrow> nat \<Rightarrow> ('t, 'v) kbucket \<Rightarrow> bool" where
  "bucket_at l i b \<longleftrightarrow>
     kbucket_ok b \<and> distinct (bucket_keys b) \<and>
     (\<forall>k \<in> set (bucket_keys b). is_key k \<and> bucket_index_new (keybytes_distance l k) = Some i)"

definition table_ok :: "('t, 'v) kbuckets_table \<Rightarrow> bool" where
  "table_ok t \<longleftrightarrow>
     is_key (key_bytes (local_key t)) \<and> length (tb_buckets t) = NUM_BUCKETS \<and>
     (\<forall>i < NUM_BUCKETS. bucket_at (key_bytes (local_key t)) i (tb_buckets t ! i))"

lemma distinct_mset_le:
  assumes "mset xs \<subseteq># mset ys" and "distinct ys"
  shows "distinct xs"
proof -
  have le: "count (mset xs) a \<le> (if a \<in> set ys then 1 else 0)" for a
    using mset_subset_eq_count [OF assms(1), of a] assms(2) by (simp add: distinct_count_atmost_1)
  have "count (mset xs) a = (if a \<in> set xs then 1 else 0)" for a
  proof (cases "a \<in> set xs")
    case True
    then have "0 < count (mset xs) a" by simp
    moreover have "count (mset xs) a \<le> 1" using le [of a] by (rule order_trans) simp
    ultimately have "count (mset xs) a = 1" by linarith
    with True show ?thesis by simp
  qed simp
  then show ?thesis by (simp add: distinct_count_atmost_1)
qed

lemma bucket_at_mono:
  assumes "bucket_at l i b" and "kbucket_ok b'" and "mset (bucket_keys b') \<subseteq># mset (bucket_keys b)"
  shows "bucket_at l i b'"
proof -
  have "set (bucket_keys b') \<subseteq> set (bucket_keys b)"
    using set_mset_mono [OF assms(3)] by simp
  with assms show ?thesis by (auto simp: bucket_at_def dest: distinct_mset_le)
qed

lemma bucket_at_add:
  assumes "bucket_at l i b" and "kbucket_ok b'"
    and "mset (bucket_keys b') \<subseteq># add_mset k (mset (bucket_keys b))"
    and "k \<notin> set (bucket_keys b)" "is_key k" "bucket_index_new (keybytes_distance l k) = Some i"
  shows "bucket_at l i b'"
proof -
  have le: "mset (bucket_keys b') \<subseteq># mset (k # bucket_keys b)" using assms(3) by simp
  have "set (bucket_keys b') \<subseteq> insert k (set (bucket_keys b))"
    using set_mset_mono [OF le] by simp
  moreover have "distinct (k # bucket_keys b)" using assms(1,4) by (simp add: bucket_at_def)
  ultimately show ?thesis
    using assms(1,2,5,6) distinct_mset_le [OF le] by (auto simp: bucket_at_def)
qed

lemma bucket_at_new [simp]: "bucket_at l i (kbucket_new t)"
  by (simp add: bucket_at_def bucket_keys_def kbucket_new_def kbucket_ok_def)

lemma table_new_ok: "is_key (key_bytes k) \<Longrightarrow> table_ok (table_new k t)"
  by (simp add: table_ok_def table_new_def)

lemma table_ok_put:
  assumes "table_ok t" and "bucket_at (key_bytes (local_key t)) i b"
  shows "table_ok (t\<lparr>tb_buckets := (tb_buckets t)[i := b], tb_applied := as\<rparr>)"
proof -
  have "bucket_at (key_bytes (local_key t)) j ((tb_buckets t)[i := b] ! j)" if "j < NUM_BUCKETS" for j
    using that assms by (cases "j = i") (simp_all add: table_ok_def)
  with assms(1) show ?thesis by (simp add: table_ok_def)
qed

lemma table_visit_ok:
  assumes "table_ok t" and "i < NUM_BUCKETS"
  obtains b t' where "table_visit now i t = Inr (b, t')" "table_ok t'" "local_key t' = local_key t"
    "tb_buckets t' ! i = b" "bucket_at (key_bytes (local_key t)) i b"
    "\<And>j. j \<noteq> i \<Longrightarrow> tb_buckets t' ! j = tb_buckets t ! j"
proof -
  let ?b = "tb_buckets t ! i"
  have at: "bucket_at (key_bytes (local_key t)) i ?b" and len: "i < length (tb_buckets t)"
    using assms by (auto simp: table_ok_def)
  then have "kbucket_ok ?b" by (simp add: bucket_at_def)
  then obtain a b' where b': "kbucket_apply_pending now ?b = Inr (a, b')" "kbucket_ok b'"
    "mset (bucket_keys b') \<subseteq># mset (bucket_keys ?b)"
    by (rule kbucket_apply_pending_keys)
  then have at': "bucket_at (key_bytes (local_key t)) i b'" using at bucket_at_mono by blast
  show thesis
    using that [of b' "t\<lparr>tb_buckets := (tb_buckets t)[i := b'],
        tb_applied := push_applied a (tb_applied t)\<rparr>"] b' len at' table_ok_put [OF assms(1) at']
    by (simp add: table_visit_def)
qed

lemma bucket_index_less: "bucket_index_new d = Some i \<Longrightarrow> i < NUM_BUCKETS"
  by (simp add: bucket_index_Some NUM_BUCKETS_def)

lemma table_entry_cases:
  assumes "table_ok t" and "is_key (key_bytes key)"
  obtains (Self) "key_bytes key = key_bytes (local_key t)" "table_entry now t key = Inr (SelfEntry, t)"
  | (Bucket) i b t' where "table_index t key = Some i" "i < NUM_BUCKETS"
      "table_entry now t key = Inr (entry_new b key, t')" "table_ok t'" "local_key t' = local_key t"
      "tb_buckets t' ! i = b" "bucket_at (key_bytes (local_key t)) i b"
proof (cases "table_index t key")
  case None
  then have "key_bytes key = key_bytes (local_key t)"
    using assms kad.dist_zero [of "key_bytes (local_key t)" "key_bytes key"]
    by (auto simp: table_index_def bucket_index_None table_ok_def)
  with None Self show thesis by (simp add: table_entry_def)
next
  case (Some i)
  then have i: "i < NUM_BUCKETS" by (simp add: table_index_def bucket_index_less)
  obtain b t' where v: "table_visit now i t = Inr (b, t')" "table_ok t'" "local_key t' = local_key t"
    "tb_buckets t' ! i = b" "bucket_at (key_bytes (local_key t)) i b"
    using table_visit_ok [OF assms(1) i] by metis
  then show thesis using Bucket [OF Some i] Some by (simp add: table_entry_def)
qed

lemma table_commit_ok:
  assumes "table_ok t" and "table_index t key = Some i" and "bucket_at (key_bytes (local_key t)) i b"
  shows "table_ok (table_commit key b t)"
  using table_ok_put [OF assms(1,3), of "tb_applied t"] assms(2) by (simp add: table_commit_def)

lemma table_visit_all_ok:
  assumes "table_ok t" and "\<forall>i \<in> set is. i < NUM_BUCKETS"
  shows "\<exists>bs t'. table_visit_all clock is t = Inr (bs, t') \<and> table_ok t' \<and> local_key t' = local_key t \<and>
    length bs = length is"
  using assms
proof (induction "is" arbitrary: t)
  case (Cons i js)
  from Cons.prems(2) have "i < NUM_BUCKETS" by simp
  then obtain b t1 where t1: "table_visit (clock i) i t = Inr (b, t1)" "table_ok t1"
    "local_key t1 = local_key t"
    using table_visit_ok [OF Cons.prems(1), of i "clock i"] by metis
  from Cons.IH [OF t1(2)] Cons.prems(2) t1 show ?case by auto
qed simp

lemma table_iter_ok:
  assumes "table_ok t"
  shows "\<exists>es t'. table_iter clock t = Inr (es, t') \<and> table_ok t' \<and> local_key t' = local_key t"
proof -
  have "\<forall>i \<in> set [0..<length (tb_buckets t)]. i < NUM_BUCKETS"
    using assms by (simp add: table_ok_def)
  from table_visit_all_ok [OF assms this, of clock] show ?thesis by (auto simp: table_iter_def)
qed

section \<open>Sequences of operations\<close>

text \<open>The ways in which the rest of the program uses the table: insertion if absent, status
  change, value change, removal through an entry; iteration; consuming the applied pending
  nodes.  The first instant is the time of the access, the second that of the insertion.\<close>

datatype ('t, 'v) table_op =
    TInsert instant instant "'t key" 'v node_status
  | TUpdate instant instant "'t key" node_status
  | TModify instant "'t key" "'v \<Rightarrow> 'v"
  | TRemove instant "'t key"
  | TIter "nat \<Rightarrow> instant"
  | TTakeApplied

datatype ('t, 'v) table_out =
    TOInsert "'t insert_result"
  | TORemove "('t, 'v) entry_view"
  | TOIter "(('t, 'v) node \<times> node_status) list"
  | TOApplied "('t, 'v) applied_pending option"
  | TODone
  | TONothing

fun op_key :: "('t, 'v) table_op \<Rightarrow> 't key option" where
  "op_key (TInsert _ _ k _ _) = Some k"
| "op_key (TUpdate _ _ k _) = Some k"
| "op_key (TModify _ k _) = Some k"
| "op_key (TRemove _ k) = Some k"
| "op_key _ = None"

definition op_admissible :: "('t, 'v) table_op \<Rightarrow> bool" where
  "op_admissible op = (case op_key op of None \<Rightarrow> True | Some k \<Rightarrow> is_key (key_bytes k))"

fun table_step ::
  "('t, 'v) table_op \<Rightarrow> ('t, 'v) kbuckets_table \<Rightarrow> (('t, 'v) table_out \<times> ('t, 'v) kbuckets_table) res" where
  "table_step (TInsert now now' key v st) t =
     res_bind (table_entry now t key) (\<lambda>(e, t').
       case e of
         Absent er \<Rightarrow> res_bind (absent_insert now' v st er) (\<lambda>(r, b). Inr (TOInsert r, table_commit key b t'))
       | _ \<Rightarrow> Inr (TONothing, t'))"
| "table_step (TUpdate now now' key st) t =
     res_bind (table_entry now t key) (\<lambda>(e, t').
       case e of
         Present er _ \<Rightarrow> res_bind (present_update now' st er) (\<lambda>er'. Inr (TODone, table_commit key (er_bucket er') t'))
       | PendingE er _ \<Rightarrow> Inr (TODone, table_commit key (er_bucket (pending_update st er)) t')
       | _ \<Rightarrow> Inr (TONothing, t'))"
| "table_step (TModify now key f) t =
     res_bind (table_entry now t key) (\<lambda>(e, t').
       case e of
         Present er _ \<Rightarrow> res_bind (present_value_mut f er) (\<lambda>er'. Inr (TODone, table_commit key (er_bucket er') t'))
       | PendingE er _ \<Rightarrow> res_bind (pending_entry_value_mut f er) (\<lambda>er'. Inr (TODone, table_commit key (er_bucket er') t'))
       | _ \<Rightarrow> Inr (TONothing, t'))"
| "table_step (TRemove now key) t =
     res_bind (table_entry now t key) (\<lambda>(e, t').
       case e of
         Present er _ \<Rightarrow> res_bind (present_remove er) (\<lambda>(v, b). Inr (TORemove v, table_commit key b t'))
       | PendingE er _ \<Rightarrow> res_bind (pending_remove er) (\<lambda>(v, b). Inr (TORemove v, table_commit key b t'))
       | _ \<Rightarrow> Inr (TONothing, t'))"
| "table_step (TIter clock) t = res_bind (table_iter clock t) (\<lambda>(es, t'). Inr (TOIter es, t'))"
| "table_step TTakeApplied t = (case table_take_applied_pending t of (a, t') \<Rightarrow> Inr (TOApplied a, t'))"

text \<open>Each operation on an entry keeps the bucket in its place.\<close>

lemma absent_insert_at:
  assumes "bucket_at l i b" and "entry_new b key = Absent er" and "is_key (key_bytes key)"
    and "bucket_index_new (keybytes_distance l (key_bytes key)) = Some i"
  obtains r b' where "absent_insert now v st er = Inr (r, b')" "bucket_at l i b'"
proof -
  have er: "er = \<lparr>er_bucket = b, er_key = key\<rparr>" and nk: "key_bytes key \<notin> set (bucket_keys b)"
    using assms(2) by (cases rule: entry_new_cases [of b key]; simp)+
  let ?n = "\<lparr>node_key = key, node_value = v\<rparr>"
  have "kbucket_ok b" using assms(1) by (simp add: bucket_at_def)
  then obtain r b' where b': "kbucket_insert now b ?n st = Inr (r, b')" "kbucket_ok b'"
    "mset (bucket_keys b') \<subseteq># add_mset (node_kb ?n) (mset (bucket_keys b))"
    by (rule kbucket_insert_keys)
  have "node_kb ?n = key_bytes key" by (simp add: node_kb_def)
  with b'(3) have "bucket_at l i b'"
    using bucket_at_add [OF assms(1) b'(2), of "key_bytes key"] nk assms(3,4) by simp
  with b'(1) that show thesis by (simp add: absent_insert_def er)
qed

lemma present_ops_at:
  assumes at: "bucket_at l i b" and e: "entry_new b key = Present er st0"
  obtains (ops) er1 er2 v b3 where
    "present_update now st er = Inr er1" "bucket_at l i (er_bucket er1)"
    "present_value_mut f er = Inr er2" "bucket_at l i (er_bucket er2)"
    "present_remove er = Inr (v, b3)" "bucket_at l i b3"
proof -
  have ok: "kbucket_ok b" using at by (simp add: bucket_at_def)
  obtain j where er: "er = \<lparr>er_bucket = b, er_key = key\<rparr>" and j: "kbucket_position b key = Some j"
    using e by (cases rule: entry_new_cases [of b key]) auto
  obtain b1 where b1: "kbucket_update now b key st = Inr b1" "kbucket_ok b1"
    "mset (bucket_keys b1) \<subseteq># mset (bucket_keys b)" using ok by (rule kbucket_update_keys)
  obtain b2 where b2: "kbucket_get_mut b key f = Some b2" "kbucket_ok b2" "bucket_keys b2 = bucket_keys b"
    using ok j by (rule kbucket_get_mut_keys)
  obtain n st1 b3 where b3: "kbucket_remove b key = Inr (Some (n, st1, j), b3)" "kbucket_ok b3"
    "mset (bucket_keys b) = add_mset (key_bytes key) (mset (bucket_keys b3))"
    using ok j by (rule kbucket_remove_keys)
  have "bucket_at l i b1" by (rule bucket_at_mono [OF at b1(2,3)])
  moreover have "bucket_at l i b2" by (rule bucket_at_mono [OF at b2(2)]) (simp add: b2(3))
  moreover have "bucket_at l i b3" by (rule bucket_at_mono [OF at b3(2)]) (simp add: b3(3))
  ultimately show thesis
    using ops [of "\<lparr>er_bucket = b1, er_key = key\<rparr>" "\<lparr>er_bucket = b2, er_key = key\<rparr>"] b1 b2 b3
    by (simp add: present_update_def present_value_mut_def present_remove_def er)
qed

lemma pending_ops_at:
  assumes at: "bucket_at l i b" and e: "entry_new b key = PendingE er st0"
  obtains (ops) er2 v b3 where
    "bucket_at l i (er_bucket (pending_update st er))"
    "pending_entry_value_mut f er = Inr er2" "bucket_at l i (er_bucket er2)"
    "pending_remove er = Inr (v, b3)" "bucket_at l i b3"
proof -
  obtain p where er: "er = \<lparr>er_bucket = b, er_key = key\<rparr>" and p: "kb_pending b = Some p"
    using e by (cases rule: entry_new_cases [of b key]) auto
  let ?q = "\<lambda>q. b\<lparr>kb_pending := q\<rparr>"
  have ok: "kbucket_ok (?q q)" for q using at by (simp add: bucket_at_def kbucket_ok_def split: option.splits)
  have "bucket_at l i (?q (Some (pending_value_mut f p)))"
    by (rule bucket_at_mono [OF at ok]) (simp add: bucket_keys_def p pending_value_mut_def node_kb_def)
  moreover have "bucket_at l i (?q None)"
    by (rule bucket_at_mono [OF at ok]) (simp add: bucket_keys_def)
  moreover have "bucket_at l i (kbucket_update_pending b st)"
    unfolding kbucket_update_pending_def
    by (rule bucket_at_mono [OF at ok]) (simp add: bucket_keys_def p)
  ultimately show thesis
    using ops [of "\<lparr>er_bucket = ?q (Some (pending_value_mut f p)), er_key = key\<rparr>"
        "\<lparr>ev_node = pn_node p, ev_status = pn_status p\<rparr>" "?q None"] p
    by (simp add: pending_update_def pending_entry_value_mut_def pending_remove_def
        kbucket_remove_pending_def er)
qed

lemma table_step_bucket:
  assumes "table_ok t'" and "local_key t' = local_key t" and "table_index t key = Some i"
    and "bucket_at (key_bytes (local_key t)) i b'"
  shows "table_ok (table_commit key b' t')"
  using assms table_commit_ok [of t' key i b'] by (simp add: table_index_def)

lemma table_step_safe:
  assumes ok: "table_ok t" and adm: "op_admissible op"
  shows "\<exists>out t'. table_step op t = Inr (out, t') \<and> table_ok t'"
proof (cases "op_key op")
  case None
  then show ?thesis
  proof (cases op)
    case (TIter clock)
    with table_iter_ok [OF ok, of clock] show ?thesis by auto
  next
    case TTakeApplied
    with ok show ?thesis by (auto simp: table_take_applied_pending_def table_ok_def split: list.splits)
  qed (use None in simp_all)
next
  case (Some key)
  with adm have key: "is_key (key_bytes key)" by (simp add: op_admissible_def)
  define now where "now = (case op of TInsert n _ _ _ _ \<Rightarrow> n | TUpdate n _ _ _ \<Rightarrow> n
    | TModify n _ _ \<Rightarrow> n | TRemove n _ \<Rightarrow> n | _ \<Rightarrow> 0)"
  from ok key show ?thesis
  proof (cases rule: table_entry_cases [of t key now])
    case Self
    then show ?thesis using Some ok by (cases op) (auto simp: now_def)
  next
    case (Bucket i b t')
    note commit = table_step_bucket [OF Bucket(4,5,1)]
    have idx: "bucket_index_new (keybytes_distance (key_bytes (local_key t)) (key_bytes key)) = Some i"
      using Bucket(1) by (simp add: table_index_def)
    show ?thesis
    proof (cases "entry_new b key")
      case (Present er st0)
      from Bucket(7) Present show ?thesis
      proof (cases rule: present_ops_at [where now = "case op of TUpdate _ n _ _ \<Rightarrow> n | _ \<Rightarrow> 0"
            and st = "case op of TUpdate _ _ _ st \<Rightarrow> st | _ \<Rightarrow> Connected"
            and f = "case op of TModify _ _ f \<Rightarrow> f | _ \<Rightarrow> id"])
        case (ops er1 er2 v b3)
        then show ?thesis using Some Bucket(3,4) Present commit
          by (cases op) (auto simp: now_def)
      qed
    next
      case (PendingE er st0)
      from Bucket(7) PendingE show ?thesis
      proof (cases rule: pending_ops_at [where st = "case op of TUpdate _ _ _ st \<Rightarrow> st | _ \<Rightarrow> Connected"
            and f = "case op of TModify _ _ f \<Rightarrow> f | _ \<Rightarrow> id"])
        case (ops er2 v b3)
        then show ?thesis using Some Bucket(3,4) PendingE commit
          by (cases op) (auto simp: now_def)
      qed
    next
      case (Absent er)
      obtain r b' where "absent_insert (case op of TInsert _ n _ _ _ \<Rightarrow> n | _ \<Rightarrow> 0)
          (case op of TInsert _ _ _ v _ \<Rightarrow> v | _ \<Rightarrow> undefined)
          (case op of TInsert _ _ _ _ st \<Rightarrow> st | _ \<Rightarrow> Connected) er = Inr (r, b')"
        "bucket_at (key_bytes (local_key t)) i b'"
        using absent_insert_at [OF Bucket(7) Absent key idx] by metis
      then show ?thesis using Some Bucket(3,4) Absent commit
        by (cases op) (auto simp: now_def)
    next
      case SelfEntry
      then show ?thesis by (cases rule: entry_new_cases [of b key]) auto
    qed
  qed
qed

interpretation routing: safe_steps table_step table_ok op_admissible
  by unfold_locales (use table_step_safe in blast)

section \<open>Keys of the whole table\<close>

definition table_keys :: "('t, 'v) kbuckets_table \<Rightarrow> keybytes list" where
  "table_keys t = concat (map bucket_keys (tb_buckets t))"

lemma table_ok_keys:
  assumes "table_ok t"
  shows "distinct (table_keys t)" and "key_bytes (local_key t) \<notin> set (table_keys t)"
proof -
  let ?l = "key_bytes (local_key t)"
  have at: "bucket_at ?l i (tb_buckets t ! i)" if "i < length (tb_buckets t)" for i
    using assms that by (simp add: table_ok_def)
  show "distinct (table_keys t)"
    unfolding table_keys_def
  proof (rule distinct_concat_nth)
    show "distinct (map bucket_keys (tb_buckets t) ! i)"
      if "i < length (map bucket_keys (tb_buckets t))" for i
      using that at [of i] by (simp add: bucket_at_def)
    show "set (map bucket_keys (tb_buckets t) ! i) \<inter> set (map bucket_keys (tb_buckets t) ! j) = {}"
      if "i < j" "j < length (map bucket_keys (tb_buckets t))" for i j
      using that at [of i] at [of j] by (auto simp: bucket_at_def)
  qed
  show "?l \<notin> set (table_keys t)"
  proof
    assume "?l \<in> set (table_keys t)"
    then obtain i where "i < length (tb_buckets t)" "?l \<in> set (bucket_keys (tb_buckets t ! i))"
      by (auto simp: table_keys_def) (metis in_set_conv_nth)
    with at [of i] have "bucket_index_new (keybytes_distance ?l ?l) = Some i"
      by (auto simp: bucket_at_def)
    moreover have "keybytes_distance ?l ?l = Distance 0" by (simp add: keybytes_distance_def)
    ultimately show False using bucket_index_None [of "Distance 0"] by simp
  qed
qed

section \<open>Random distances\<close>

lemma rand_bytes:
  fixes gen :: "nat \<Rightarrow> u8"
  assumes "q \<le> 32"
  shows "fold (\<lambda>i bytes. bytes[31 - i := gen i]) [0..<q] (replicate 32 0) =
    replicate (32 - q) 0 @ map gen (rev [0..<q])"
  using assms
proof (induction q)
  case (Suc q)
  then have "32 - q = Suc (31 - q)" by simp
  then have "replicate (32 - q) (0 :: u8) = replicate (31 - q) 0 @ [0]"
    by (simp only: replicate_Suc replicate_append_same)
  with Suc have "fold (\<lambda>i bytes. bytes[31 - i := gen i]) [0..<q] (replicate 32 0) =
      (replicate (31 - q) 0 @ [0]) @ map gen (rev [0..<q])" by simp
  with Suc.prems show ?case by (simp add: list_update_append)
qed simp

lemma rand_distance_value:
  assumes "i < NUM_BUCKETS" and range: "\<And>a b. a < b \<Longrightarrow> a \<le> gen_range a b \<and> gen_range a b < b"
  obtains d r m where "rand_distance gen gen_range i = Inr d" "r < 256 ^ (i div 8)"
    "2 ^ (i mod 8) \<le> m" "m < 2 ^ (i mod 8 + 1)" "unat (dist_u256 d) = m * 256 ^ (i div 8) + r"
proof -
  let ?q = "i div 8"
  have q: "?q \<le> 31" using assms(1) by (simp add: NUM_BUCKETS_def)
  define m where "m = gen_range (2 ^ (i mod 8)) (2 ^ (i mod 8 + 1))"
  have m: "2 ^ (i mod 8) \<le> m" "m < 2 ^ (i mod 8 + 1)" using range by (simp_all add: m_def)
  have "(2 :: nat) ^ (i mod 8 + 1) \<le> 2 ^ 8" by (intro power_increasing) auto
  with m(2) have m256: "m < 256" by simp
  define bs where "bs = replicate (31 - ?q) 0 @ [word_of_nat m] @ map gen (rev [0..<?q])"
  have "32 - ?q = Suc (31 - ?q)" using q by simp
  then have "(replicate (32 - ?q) 0 @ map gen (rev [0..<?q]))[31 - ?q := word_of_nat m] = bs"
    by (simp add: bs_def replicate_append_same [symmetric] list_update_append)
  then have rd: "rand_distance gen gen_range i = Inr (Distance (u256_from_be bs))"
    using q rand_bytes [of ?q gen] by (simp add: rand_distance_def m_def Let_def)
  have len: "length bs = 32" using q by (simp add: bs_def)
  have "be_nat bs = m * 256 ^ ?q + be_nat (map gen (rev [0..<?q]))"
    unfolding bs_def be_nat_append using m256 by (simp add: unat_of_nat)
  then have "unat (u256_from_be bs) = m * 256 ^ ?q + be_nat (map gen (rev [0..<?q]))"
    using len by (simp add: unat_u256_from_be)
  moreover have "be_nat (map gen (rev [0..<?q])) < 256 ^ ?q"
    using be_nat_bound [of "map gen (rev [0..<?q])"] by simp
  ultimately show thesis using that rd m by auto
qed

section \<open>Properties\<close>

text \<open>C12. Any sequence of the operations through which the program uses a routing table, on
  32-byte keys and starting with a new table, runs without a panic.  In the table it leads to,
  no key occurs twice in all buckets and pending slots together, the local key does not occur,
  no bucket has more than 20 nodes, and every node and pending node of bucket \<open>i\<close> has its
  distance from the local key in the range \<open>2 ^ i \<le> d < 2 ^ (i + 1)\<close>.\<close>

theorem table_run_safe:
  fixes ops :: "('t, 'v) table_op list"
  assumes "is_key (key_bytes k)" and "\<forall>op \<in> set ops. op_admissible op"
  shows "\<exists>outs t. run_ops table_step ops (table_new k timeout) = Inr (outs, t) \<and>
    distinct (table_keys t) \<and> key_bytes (local_key t) \<notin> set (table_keys t) \<and>
    length (tb_buckets t) = 256 \<and>
    (\<forall>i < 256. length (kb_nodes (tb_buckets t ! i)) \<le> 20 \<and>
       (\<forall>kb \<in> set (bucket_keys (tb_buckets t ! i)).
          2 ^ i \<le> unat (dist_u256 (keybytes_distance (key_bytes (local_key t)) kb)) \<and>
          unat (dist_u256 (keybytes_distance (key_bytes (local_key t)) kb)) < 2 ^ (i + 1)))"
proof -
  from routing.run_safe [OF table_new_ok [OF assms(1)] assms(2), of timeout]
  obtain outs t where t: "run_ops table_step ops (table_new k timeout) = Inr (outs, t)" "table_ok t"
    by auto
  have "bucket_at (key_bytes (local_key t)) i (tb_buckets t ! i)" if "i < 256" for i
    using t(2) that by (simp add: table_ok_def NUM_BUCKETS_def)
  then have "\<forall>i < 256. length (kb_nodes (tb_buckets t ! i)) \<le> 20 \<and>
      (\<forall>kb \<in> set (bucket_keys (tb_buckets t ! i)).
         2 ^ i \<le> unat (dist_u256 (keybytes_distance (key_bytes (local_key t)) kb)) \<and>
         unat (dist_u256 (keybytes_distance (key_bytes (local_key t)) kb)) < 2 ^ (i + 1))"
    by (simp add: bucket_at_def kbucket_ok_def K_VALUE_def bucket_index_range)
  with t table_ok_keys [OF t(2)] show ?thesis by (auto simp: table_ok_def NUM_BUCKETS_def)
qed

definition key_of_byte :: "u8 \<Rightarrow> unit key" where
  "key_of_byte b = \<lparr>preimage = (), key_bytes = replicate 31 0 @ [b]\<rparr>"

theorem table_run_safe_witness:
  "\<exists>outs t. run_ops table_step [TInsert 1 2 (key_of_byte 5) () Connected, TRemove 3 (key_of_byte 5)]
      (table_new (key_of_byte 0) 60) = Inr (outs, t) \<and> distinct (table_keys t)"
  using table_run_safe [of "key_of_byte 0" "[TInsert 1 2 (key_of_byte 5) () Connected, TRemove 3 (key_of_byte 5)]" 60]
  by (auto simp: key_of_byte_def op_admissible_def)

text \<open>C17. Insert and look up.  When the entry of a key is absent and its insertion succeeds, the
  entry of that key in the resulting bucket is present with the inserted status and value, and
  the table with the bucket written back satisfies the invariant; removing the entry then gives
  the inserted node and status back and makes the entry absent again.\<close>

theorem entry_insert_lookup_remove:
  assumes ok: "table_ok t" and key: "is_key (key_bytes key)"
    and ent: "table_entry now t key = Inr (Absent er, t')"
    and ins: "absent_insert now' v st er = Inr (Inserted, b)"
  shows "entry_new b key = Present \<lparr>er_bucket = b, er_key = key\<rparr> st \<and>
    present_value \<lparr>er_bucket = b, er_key = key\<rparr> = Inr v \<and>
    table_ok (table_commit key b t') \<and>
    (\<exists>b'. present_remove \<lparr>er_bucket = b, er_key = key\<rparr> =
        Inr (\<lparr>ev_node = \<lparr>node_key = key, node_value = v\<rparr>, ev_status = st\<rparr>, b') \<and>
      entry_new b' key = Absent \<lparr>er_bucket = b', er_key = key\<rparr> \<and> table_ok (table_commit key b' t'))"
  using ok key
proof (cases rule: table_entry_cases [of t key now])
  case (Bucket i b0 t1)
  let ?n = "\<lparr>node_key = key, node_value = v\<rparr>" and ?l = "key_bytes (local_key t)"
  have [simp]: "t1 = t'" and abs: "entry_new b0 key = Absent er" using Bucket(3) ent by auto
  then have er: "er = \<lparr>er_bucket = b0, er_key = key\<rparr>" and nk: "key_bytes key \<notin> set (bucket_keys b0)"
    by (cases rule: entry_new_cases [of b0 key]; simp)+
  have idx: "bucket_index_new (keybytes_distance ?l (key_bytes key)) = Some i"
    using Bucket(1) by (simp add: table_index_def)
  have at: "bucket_at ?l i b"
    by (rule absent_insert_at [OF Bucket(7) abs key idx, where now = now' and v = v and st = st]) (simp add: ins)
  have ok0: "kbucket_ok b0" and okb: "kbucket_ok b" using Bucket(7) at by (simp_all add: bucket_at_def)
  have it: "mset (kbucket_iter b) = add_mset (?n, st) (mset (kbucket_iter b0))"
    using kbucket_insert_inserted [OF ok0] ins by (simp add: absent_insert_def er)
  then have "(?n, st) \<in> set (kbucket_iter b)" by (metis set_mset_mset union_single_eq_member)
  then obtain j where j: "j < length (kb_nodes b)" "kb_nodes b ! j = ?n" "kbucket_status b j = st"
    by (auto simp: in_set_conv_nth nth_kbucket_iter)
  have dist: "distinct (map node_kb (kb_nodes b))" using at by (auto simp: bucket_at_def bucket_keys_def)
  have pos: "kbucket_position b key = Some j"
  proof (cases "kbucket_position b key")
    case None
    with nth_mem [OF j(1)] j(2) show ?thesis
      by (auto simp: kbucket_position_def position_of_None same_key_def)
  next
    case (Some m)
    then have m: "m < length (kb_nodes b)" "node_kb (kb_nodes b ! m) = node_kb (kb_nodes b ! j)"
      using j(2) by (auto simp: kbucket_position_def same_key_def node_kb_def dest!: position_of_SomeD)
    then have "m = j" using nth_eq_iff_index_eq [OF dist, of m j] j(1) by simp
    with Some show ?thesis by simp
  qed
  obtain n st1 b3 where b3: "kbucket_remove b key = Inr (Some (n, st1, j), b3)" "n = kb_nodes b ! j"
    "st1 = kbucket_status b j" "kbucket_ok b3"
    "mset (bucket_keys b) = add_mset (key_bytes key) (mset (bucket_keys b3))"
    using kbucket_remove_keys [OF okb pos] by metis
  have at3: "bucket_at ?l i b3" by (rule bucket_at_mono [OF at b3(4)]) (simp add: b3(5))
  have "count (mset (bucket_keys b)) (key_bytes key) \<le> 1"
    using at by (simp add: bucket_at_def distinct_count_atmost_1)
  then have nk3: "key_bytes key \<notin> set (bucket_keys b3)" unfolding b3(5) by (simp add: count_eq_zero_iff)
  have "entry_new b3 key = Absent \<lparr>er_bucket = b3, er_key = key\<rparr>"
  proof (cases rule: entry_new_cases [of b3 key])
    case (Present m)
    with nk3 show ?thesis by (auto simp: bucket_keys_def) (metis image_eqI nth_mem)
  next
    case (Pending p)
    with nk3 show ?thesis by (auto simp: bucket_keys_def)
  qed
  moreover note table_step_bucket [OF Bucket(4,5,1) at] table_step_bucket [OF Bucket(4,5,1) at3]
  ultimately show ?thesis
    using pos j b3 by (simp add: entry_new_def present_value_def kbucket_get_def present_remove_def)
qed (use ent in simp)

theorem entry_insert_lookup_remove_witness:
  "\<exists>er t' b. table_entry 1 (table_new (key_of_byte 0) 60) (key_of_byte 5) = Inr (Absent er, t') \<and>
     absent_insert 2 (7 :: nat) Connected er = Inr (Inserted, b) \<and>
     entry_new b (key_of_byte 5) = Present \<lparr>er_bucket = b, er_key = key_of_byte 5\<rparr> Connected"
proof -
  let ?t = "table_new (key_of_byte 0) 60 :: (unit, nat) kbuckets_table"
  have ok: "table_ok ?t" and k: "is_key (key_bytes (key_of_byte 5))"
    by (auto intro: table_new_ok simp: key_of_byte_def)
  have d: "bucket_index_new (keybytes_distance (key_bytes (key_of_byte 0)) (key_bytes (key_of_byte 5))) = Some 2"
    by code_simp
  let ?er = "\<lparr>er_bucket = kbucket_new 60, er_key = key_of_byte 5\<rparr>"
  have "table_index ?t (key_of_byte 5) = Some 2"
    using d by (simp add: table_index_def table_new_def)
  then obtain t' where e1: "table_entry 1 ?t (key_of_byte 5) = Inr (Absent ?er, t')"
    by (simp add: table_entry_def table_visit_def table_new_def NUM_BUCKETS_def kbucket_apply_pending_def
        kbucket_new_def entry_new_def kbucket_position_def kbucket_as_pending_def)
  obtain b where e2: "absent_insert 2 (7 :: nat) Connected ?er = Inr (Inserted, b)"
    by (simp add: absent_insert_def kbucket_insert_def kbucket_is_full_def kbucket_new_def K_VALUE_def Let_def)
  from e1 e2 entry_insert_lookup_remove [OF ok k e1 e2] show ?thesis by blast
qed

text \<open>C20. A random distance drawn for a bucket falls into that bucket, whatever bytes the
  generator yields, if its range function yields a number of the half-open range: the
  computation does not panic for any of the 256 indices and the index of the result is the
  bucket's.\<close>

theorem rand_distance_in_bucket:
  assumes "i < NUM_BUCKETS" and "\<And>a b. a < b \<Longrightarrow> a \<le> gen_range a b \<and> gen_range a b < b"
  shows "\<exists>d. rand_distance gen gen_range i = Inr d \<and> bucket_index_new d = Some i"
proof -
  obtain d r m where d: "rand_distance gen gen_range i = Inr d" and r: "r < 256 ^ (i div 8)"
    and m: "2 ^ (i mod 8) \<le> m" "m < 2 ^ (i mod 8 + 1)" and v: "unat (dist_u256 d) = m * 256 ^ (i div 8) + r"
    using rand_distance_value [OF assms] by metis
  have p: "(256 :: nat) ^ (i div 8) = 2 ^ (8 * (i div 8))" by (simp add: power_mult)
  have split: "2 ^ (i mod 8) * (256 :: nat) ^ (i div 8) = 2 ^ i"
    unfolding p by (simp flip: power_add)
  have lo: "2 ^ i \<le> unat (dist_u256 d)"
    unfolding v split [symmetric] using m(1) by (simp add: trans_le_add1)
  have "(m + 1) * 256 ^ (i div 8) \<le> 2 ^ (i mod 8 + 1) * 256 ^ (i div 8)"
    using m(2) by (intro mult_le_mono1) simp
  also have "\<dots> = 2 ^ (i + 1)" using split by simp
  finally have "unat (dist_u256 d) < 2 ^ (i + 1)" unfolding v using r by simp
  with d lo assms(1) show ?thesis by (simp add: bucket_index_range NUM_BUCKETS_def)
qed

theorem rand_distance_in_bucket_witness:
  "\<exists>d. rand_distance (\<lambda>i. word_of_nat (17 * i)) (\<lambda>a b. a) 100 = Inr d \<and> bucket_index_new d = Some 100"
  by (rule rand_distance_in_bucket) (simp_all add: NUM_BUCKETS_def)

end
