(* ===== verification/Kad_Closest.thy ===== *)
theory Kad_Closest
  imports Kad_Table
begin

text \<open>
  Model of the traversal by distance of \<^verbatim>\<open>src/kbucket/mod.rs\<close>: the state machine
  \<^verbatim>\<open>ClosestBucketsIter\<close> over the bucket indices, the lazy iterator \<^verbatim>\<open>ClosestIter\<close> with its
  loop, \<^verbatim>\<open>closest\<close>, \<^verbatim>\<open>closest_keys\<close> and \<^verbatim>\<open>count_nodes_between\<close>.

  The order of the buckets is computed in closed form, and the loop is shown to keep an
  invariant from which follow the order of the yielded entries, that none closer is left out,
  and that nothing but entries of the table is yielded.
\<close>

section \<open>The order of the buckets\<close>

datatype buckets_iter_state =
    Start nat
  | ZoomIn nat
  | ZoomOut nat
  | Done

record closest_buckets_iter =
  cb_distance :: distance
  cb_state :: buckets_iter_state

definition buckets_iter_new :: "distance \<Rightarrow> closest_buckets_iter" where
  "buckets_iter_new d =
     \<lparr>cb_distance = d,
      cb_state = (case bucket_index_new d of Some i \<Rightarrow> Start i | None \<Rightarrow> Start 0)\<rparr>"

definition next_in :: "closest_buckets_iter \<Rightarrow> nat \<Rightarrow> nat option" where
  "next_in it i = List.find (\<lambda>i. bit (dist_u256 (cb_distance it)) i) (rev [0..<i])"

definition next_out :: "closest_buckets_iter \<Rightarrow> nat \<Rightarrow> nat option" where
  "next_out it i = List.find (\<lambda>i. \<not> bit (dist_u256 (cb_distance it)) i) [i + 1..<NUM_BUCKETS]"

definition buckets_iter_next :: "closest_buckets_iter \<Rightarrow> nat option \<times> closest_buckets_iter" where
  "buckets_iter_next it =
     (case cb_state it of
        Start i \<Rightarrow> (Some i, it\<lparr>cb_state := ZoomIn i\<rparr>)
      | ZoomIn i \<Rightarrow>
          (case next_in it i of
             Some j \<Rightarrow> (Some j, it\<lparr>cb_state := ZoomIn j\<rparr>)
           | None \<Rightarrow> (Some 0, it\<lparr>cb_state := ZoomOut 0\<rparr>))
      | ZoomOut i \<Rightarrow>
          (case next_out it i of
             Some j \<Rightarrow> (Some j, it\<lparr>cb_state := ZoomOut j\<rparr>)
           | None \<Rightarrow> (None, it\<lparr>cb_state := Done\<rparr>))
      | Done \<Rightarrow> (None, it))"

text \<open>The measure under which the state machine descends; \<^verbatim>\<open>ZoomIn\<close> goes to smaller indices,
  \<^verbatim>\<open>ZoomOut\<close> to greater ones up to 255.\<close>

fun state_rank :: "buckets_iter_state \<Rightarrow> nat" where
  "state_rank (Start i) = NUM_BUCKETS + 3 + i"
| "state_rank (ZoomIn i) = NUM_BUCKETS + 2 + i"
| "state_rank (ZoomOut i) = 1 + (NUM_BUCKETS - i)"
| "state_rank Done = 0"

lemma next_in_Some: "next_in it i = Some j \<Longrightarrow> j < i \<and> bit (dist_u256 (cb_distance it)) j"
  by (auto simp: next_in_def find_Some_iff) (metis nth_mem set_rev set_upt atLeastLessThan_iff length_rev length_upt diff_zero)

lemma next_out_Some:
  "next_out it i = Some j \<Longrightarrow> i < j \<and> j < NUM_BUCKETS \<and> \<not> bit (dist_u256 (cb_distance it)) j"
  by (auto simp: next_out_def find_Some_iff)

lemma buckets_iter_next_rank:
  "buckets_iter_next it = (Some i, it') \<Longrightarrow> state_rank (cb_state it') < state_rank (cb_state it)"
  by (auto simp: buckets_iter_next_def NUM_BUCKETS_def dest!: next_in_Some next_out_Some
      split: buckets_iter_state.splits option.splits)

text \<open>The indices the iterator yields until it returns \<^verbatim>\<open>None\<close>.\<close>

function buckets_iter_collect :: "closest_buckets_iter \<Rightarrow> nat list" where
  "buckets_iter_collect it =
     (case buckets_iter_next it of
        (None, _) \<Rightarrow> []
      | (Some i, it') \<Rightarrow> i # buckets_iter_collect it')"
  by pat_completeness auto
termination
  by (relation "measure (\<lambda>it. state_rank (cb_state it))") (auto dest: buckets_iter_next_rank [OF sym])

declare buckets_iter_collect.simps [simp del]

section \<open>Traversal of the table\<close>

record ('t, 'v, 'o) closest_iter =
  ci_table :: "('t, 'v) kbuckets_table"
  ci_buckets_iter :: closest_buckets_iter
  ci_iter :: "'o list option"

text \<open>\<^verbatim>\<open>collect\<close> into an \<^verbatim>\<open>ArrayVec\<close>.\<close>

definition array_collect :: "nat \<Rightarrow> 'a list \<Rightarrow> 'a list res" where
  "array_collect cap xs = (if length xs \<le> cap then Inr xs else Inl CapacityExceeded)"

text \<open>
  One call of \<^verbatim>\<open>next\<close>.  The arguments are the projection \<open>fmap\<close>, the key bytes \<open>as_ref\<close> of a
  projected entry, the clock, read in the round that starts in the given state of the bucket
  iterator, and the key bytes of the target.
\<close>

function closest_next ::
  "(('t, 'v) kbucket \<Rightarrow> 'o list res) \<Rightarrow> ('o \<Rightarrow> keybytes) \<Rightarrow> (buckets_iter_state \<Rightarrow> instant) \<Rightarrow> keybytes
     \<Rightarrow> ('t, 'v, 'o) closest_iter \<Rightarrow> ('o option \<times> ('t, 'v, 'o) closest_iter) res" where
  "closest_next fmap as_ref clock target ci =
     (case ci_iter ci of
        Some (k # ks) \<Rightarrow> Inr (Some k, ci\<lparr>ci_iter := Some ks\<rparr>)
      | Some [] \<Rightarrow> closest_next fmap as_ref clock target (ci\<lparr>ci_iter := None\<rparr>)
      | None \<Rightarrow>
          (case buckets_iter_next (ci_buckets_iter ci) of
             (Some i, it') \<Rightarrow>
               res_bind (table_visit (clock (cb_state (ci_buckets_iter ci))) i (ci_table ci)) (\<lambda>(b, t').
               res_bind (fmap b) (\<lambda>v.
                 closest_next fmap as_ref clock target
                   \<lparr>ci_table = t', ci_buckets_iter = it',
                    ci_iter = Some (sort_key (\<lambda>a. keybytes_distance target (as_ref a)) v)\<rparr>))
           | (None, it') \<Rightarrow> Inr (None, ci\<lparr>ci_buckets_iter := it'\<rparr>)))"
  by pat_completeness auto
termination
  by (relation "measure (\<lambda>(_, _, _, _, ci). 2 * state_rank (cb_state (ci_buckets_iter ci)) +
        (if ci_iter ci = None then 0 else 1))")
    (auto dest!: buckets_iter_next_rank [OF sym])

declare closest_next.simps [simp del]

definition closest_keys_fmap :: "('t, 'v) kbucket \<Rightarrow> 't key list res" where
  "closest_keys_fmap b = array_collect K_VALUE (map (\<lambda>(n, _). node_key n) (kbucket_iter b))"

definition closest_fmap :: "('t, 'v) kbucket \<Rightarrow> ('t, 'v) entry_view list res" where
  "closest_fmap b =
     array_collect K_VALUE (map (\<lambda>(n, status). \<lparr>ev_node = n, ev_status = status\<rparr>) (kbucket_iter b))"

definition closest_start :: "('t, 'v) kbuckets_table \<Rightarrow> keybytes \<Rightarrow> ('t, 'v, 'o) closest_iter" where
  "closest_start t target =
     \<lparr>ci_table = t,
      ci_buckets_iter = buckets_iter_new (keybytes_distance (key_bytes (local_key t)) target),
      ci_iter = None\<rparr>"

text \<open>\<^verbatim>\<open>take(n)\<close> collected, as the callers use the two iterators.\<close>

fun closest_take ::
  "(('t, 'v) kbucket \<Rightarrow> 'o list res) \<Rightarrow> ('o \<Rightarrow> keybytes) \<Rightarrow> (buckets_iter_state \<Rightarrow> instant) \<Rightarrow> keybytes
     \<Rightarrow> nat \<Rightarrow> ('t, 'v, 'o) closest_iter \<Rightarrow> ('o list \<times> ('t, 'v, 'o) closest_iter) res" where
  "closest_take fmap as_ref clock target 0 ci = Inr ([], ci)"
| "closest_take fmap as_ref clock target (Suc n) ci =
     res_bind (closest_next fmap as_ref clock target ci) (\<lambda>(r, ci').
       case r of
         None \<Rightarrow> Inr ([], ci')
       | Some x \<Rightarrow>
           res_bind (closest_take fmap as_ref clock target n ci') (\<lambda>(xs, ci''). Inr (x # xs, ci'')))"

definition closest_keys ::
  "(buckets_iter_state \<Rightarrow> instant) \<Rightarrow> ('t, 'v) kbuckets_table \<Rightarrow> keybytes \<Rightarrow> nat
     \<Rightarrow> ('t key list \<times> ('t, 'v) kbuckets_table) res" where
  "closest_keys clock t target n =
     res_bind (closest_take closest_keys_fmap key_bytes clock target n (closest_start t target))
       (\<lambda>(xs, ci). Inr (xs, ci_table ci))"

definition closest ::
  "(buckets_iter_state \<Rightarrow> instant) \<Rightarrow> ('t, 'v) kbuckets_table \<Rightarrow> keybytes \<Rightarrow> nat
     \<Rightarrow> (('t, 'v) entry_view list \<times> ('t, 'v) kbuckets_table) res" where
  "closest clock t target n =
     res_bind (closest_take closest_fmap (\<lambda>e. node_kb (ev_node e)) clock target n (closest_start t target))
       (\<lambda>(xs, ci). Inr (xs, ci_table ci))"

definition count_nodes_between :: "('t, 'v) kbuckets_table \<Rightarrow> keybytes \<Rightarrow> nat res" where
  "count_nodes_between t target =
     (let local_kb = key_bytes (local_key t);
          d = keybytes_distance target local_kb
      in case takeWhile (\<lambda>i. i \<noteq> 0) (buckets_iter_collect (buckets_iter_new d)) of
           [] \<Rightarrow> Inr 0
         | i # is \<Rightarrow>
             res_bind (vec_index (tb_buckets t) i) (\<lambda>b.
               if \<forall>j \<in> set is. j < length (tb_buckets t)
               then Inr (length (filter (\<lambda>(n, _). keybytes_distance (node_kb n) local_kb \<le> d) (kbucket_iter b))
                      + sum_list (map (\<lambda>j. kbucket_num_entries (tb_buckets t ! j)) is))
               else Inl IndexOutOfBounds))"

section \<open>The order of the buckets in closed form\<close>

lemma filter_upt_find:
  "List.find P [a..<b] = Some j \<Longrightarrow> filter P [a..<b] = j # filter P [Suc j..<b]"
proof (induction "b - a" arbitrary: a)
  case (Suc m)
  then have "[a..<b] = a # [Suc a..<b]" by (simp add: upt_conv_Cons)
  with Suc show ?case by (auto split: if_splits)
qed simp

lemma filter_rev_find:
  "List.find P (rev [0..<i]) = Some j \<Longrightarrow> filter P (rev [0..<i]) = j # filter P (rev [0..<j])"
  by (induction i) (auto split: if_splits)

lemma collect_done [simp]: "buckets_iter_collect \<lparr>cb_distance = d, cb_state = Done\<rparr> = []"
  by (simp add: buckets_iter_collect.simps buckets_iter_next_def)

lemma collect_zoom_out [simp]:
  "buckets_iter_collect \<lparr>cb_distance = d, cb_state = ZoomOut i\<rparr> =
     filter (\<lambda>j. \<not> bit (dist_u256 d) j) [Suc i..<NUM_BUCKETS]"
proof (induction "NUM_BUCKETS - i" arbitrary: i rule: less_induct)
  case less
  let ?it = "\<lparr>cb_distance = d, cb_state = ZoomOut i\<rparr>"
  show ?case
  proof (cases "next_out ?it i")
    case None
    then have "filter (\<lambda>j. \<not> bit (dist_u256 d) j) [Suc i..<NUM_BUCKETS] = []"
      by (auto simp: next_out_def find_None_iff filter_empty_conv)
    with None show ?thesis by (subst buckets_iter_collect.simps) (simp add: buckets_iter_next_def)
  next
    case (Some j)
    have "NUM_BUCKETS - j < NUM_BUCKETS - i" using next_out_Some [OF Some] by auto
    moreover have "filter (\<lambda>j. \<not> bit (dist_u256 d) j) [Suc i..<NUM_BUCKETS] =
        j # filter (\<lambda>j. \<not> bit (dist_u256 d) j) [Suc j..<NUM_BUCKETS]"
      using Some by (intro filter_upt_find) (simp add: next_out_def)
    ultimately show ?thesis using Some less
      by (subst buckets_iter_collect.simps) (simp add: buckets_iter_next_def)
  qed
qed

lemma collect_zoom_in [simp]:
  "buckets_iter_collect \<lparr>cb_distance = d, cb_state = ZoomIn i\<rparr> =
     filter (bit (dist_u256 d)) (rev [0..<i]) @ 0 # filter (\<lambda>j. \<not> bit (dist_u256 d) j) [1..<NUM_BUCKETS]"
proof (induction i rule: less_induct)
  case (less i)
  let ?it = "\<lparr>cb_distance = d, cb_state = ZoomIn i\<rparr>"
  show ?case
  proof (cases "next_in ?it i")
    case None
    then have "filter (bit (dist_u256 d)) (rev [0..<i]) = []"
      by (auto simp: next_in_def find_None_iff filter_empty_conv)
    with None show ?thesis by (subst buckets_iter_collect.simps) (simp add: buckets_iter_next_def)
  next
    case (Some j)
    have "filter (bit (dist_u256 d)) (rev [0..<i]) = j # filter (bit (dist_u256 d)) (rev [0..<j])"
      using Some by (intro filter_rev_find) (simp add: next_in_def)
    with Some next_in_Some [OF Some] less show ?thesis
      by (subst buckets_iter_collect.simps) (simp add: buckets_iter_next_def)
  qed
qed

lemma buckets_order_zero:
  "buckets_iter_collect (buckets_iter_new (Distance 0)) = 0 # [0..<NUM_BUCKETS]"
proof -
  have "bucket_index_new (Distance 0) = None" by (simp add: bucket_index_None)
  moreover have "[0..<NUM_BUCKETS] = 0 # [1..<NUM_BUCKETS]" by (simp add: upt_conv_Cons NUM_BUCKETS_def)
  ultimately show ?thesis
    by (subst buckets_iter_collect.simps) (simp add: buckets_iter_new_def buckets_iter_next_def)
qed

lemma filter_rev_top:
  assumes "i < n" "P i" "\<And>j. i < j \<Longrightarrow> \<not> P j"
  shows "filter P (rev [0..<n]) = i # filter P (rev [0..<i])"
proof -
  have "[0..<n] = [0..<i] @ i # [Suc i..<n]"
    using assms(1) upt_add_eq_append [of 0 i "n - i"] by (simp add: upt_conv_Cons)
  moreover have "filter P (rev [Suc i..<n]) = []" using assms(3) by (auto simp: filter_empty_conv)
  ultimately show ?thesis using assms(2) by simp
qed

lemma buckets_order_nonzero:
  assumes "d \<noteq> Distance 0"
  shows "buckets_iter_collect (buckets_iter_new d) =
    filter (bit (dist_u256 d)) (rev [0..<NUM_BUCKETS]) @ 0 # filter (\<lambda>j. \<not> bit (dist_u256 d) j) [1..<NUM_BUCKETS]"
proof -
  obtain i where i: "bucket_index_new d = Some i" using assms bucket_index_None [of d] by auto
  then have "filter (bit (dist_u256 d)) (rev [0..<NUM_BUCKETS]) = i # filter (bit (dist_u256 d)) (rev [0..<i])"
    using bucket_index_Some [of d i] bucket_index_less [OF i] by (intro filter_rev_top) auto
  with i show ?thesis
    by (subst buckets_iter_collect.simps) (simp add: buckets_iter_new_def buckets_iter_next_def)
qed

lemma set_buckets_order: "set (buckets_iter_collect (buckets_iter_new d)) = {0..<NUM_BUCKETS}"
proof (cases "d = Distance 0")
  case True
  then show ?thesis by (auto simp: buckets_order_zero NUM_BUCKETS_def)
next
  case False
  then show ?thesis by (auto simp: buckets_order_nonzero NUM_BUCKETS_def)
qed


lemma nonzero_buckets_once: "distinct (filter (\<lambda>i. i \<noteq> 0) (buckets_iter_collect (buckets_iter_new d)))"
proof (cases "d = Distance 0")
  case True
  then show ?thesis by (simp add: buckets_order_zero)
next
  case False
  then show ?thesis by (auto simp: buckets_order_nonzero)
qed

lemma revisited_bucket:
  assumes "vs @ j # js = buckets_iter_collect (buckets_iter_new d)" and "j \<in> set vs"
  shows "j = 0"
proof (rule ccontr)
  assume "j \<noteq> 0"
  with assms(2) have "\<not> distinct (filter (\<lambda>i. i \<noteq> 0) (vs @ j # js))" by auto
  with assms(1) nonzero_buckets_once [of d] show False by simp
qed

text \<open>The order of the indices, by the bits of the distance of the target from the local key:
  the set bits from the highest to the lowest, then the others from the lowest to the highest.\<close>

definition visited_before :: "u256 \<Rightarrow> nat \<Rightarrow> nat \<Rightarrow> bool" where
  "visited_before d i j \<longleftrightarrow> (if bit d i then bit d j \<longrightarrow> j \<le> i else \<not> bit d j \<and> i \<le> j)"

lemma sorted_wrt_rev_upt: "sorted_wrt (\<lambda>i j. j \<le> i) (rev [0..<n])"
  by (induction n) auto

lemma sorted_wrt_filterI:
  "sorted_wrt R xs \<Longrightarrow> (\<And>x y. P x \<Longrightarrow> P y \<Longrightarrow> R x y \<Longrightarrow> S x y) \<Longrightarrow> sorted_wrt S (filter P xs)"
  by (induction xs) auto

lemma buckets_order_sorted:
  "sorted_wrt (visited_before (dist_u256 d)) (buckets_iter_collect (buckets_iter_new d))"
proof (cases "d = Distance 0")
  case True
  have "sorted_wrt (visited_before 0) [0..<NUM_BUCKETS]"
    using sorted_wrt_filterI [of "(\<le>)" "[0..<NUM_BUCKETS]" "\<lambda>_. True" "visited_before 0"]
    by (simp add: visited_before_def)
  then show ?thesis using True by (auto simp: buckets_order_zero visited_before_def)
next
  case False
  let ?d = "dist_u256 d"
  have "sorted_wrt (visited_before ?d) (filter (bit ?d) (rev [0..<NUM_BUCKETS]))"
    by (rule sorted_wrt_filterI [OF sorted_wrt_rev_upt]) (simp add: visited_before_def)
  moreover have "sorted_wrt (visited_before ?d) (filter (\<lambda>j. \<not> bit ?d j) [1..<NUM_BUCKETS])"
    by (rule sorted_wrt_filterI [of "(\<le>)"]) (simp_all add: visited_before_def)
  ultimately show ?thesis
    using False by (auto simp: buckets_order_nonzero sorted_wrt_append visited_before_def)
qed

lemma visited_before_distance:
  assumes "visited_before (dist_u256 (keybytes_distance l target)) i j"
    and a: "bucket_index_new (keybytes_distance l a) = Some i"
    and b: "bucket_index_new (keybytes_distance l b) = Some j"
    and "i \<noteq> j"
  shows "keybytes_distance target a < keybytes_distance target b"
proof -
  let ?l = "u256_from_be l" and ?t = "u256_from_be target" and ?a = "u256_from_be a" and ?b = "u256_from_be b"
  have bits: "bit ?a i \<noteq> bit ?l i" "\<And>k. i < k \<Longrightarrow> bit ?a k = bit ?l k"
    "bit ?b j \<noteq> bit ?l j" "\<And>k. j < k \<Longrightarrow> bit ?b k = bit ?l k" "i < 256" "j < 256"
    using a b by (auto simp: bucket_index_Some keybytes_distance_def bit_xor_iff)
  have "?t XOR ?a < ?t XOR ?b"
  proof (cases "bit (?l XOR ?t) i \<and> j < i")
    case True
    then show ?thesis using bits by (intro word_less_by_bit [of i]) (auto simp: bit_xor_iff)
  next
    case False
    then have "i < j" "\<not> bit (?l XOR ?t) j"
      using assms(1,4) by (auto simp: visited_before_def keybytes_distance_def split: if_splits)
    then show ?thesis using bits by (intro word_less_by_bit [of j]) (auto simp: bit_xor_iff)
  qed
  then show ?thesis by (simp add: keybytes_distance_def)
qed

section \<open>Visits of a bucket\<close>

lemma bucket_0_single:
  assumes "bucket_at l 0 b" and "x \<in> set (bucket_keys b)" and "y \<in> set (bucket_keys b)"
  shows "x = y"
proof -
  have one: "keybytes_distance l z = Distance 1" if "z \<in> set (bucket_keys b)" for z
  proof -
    have "bucket_index_new (keybytes_distance l z) = Some 0"
      using assms(1) that by (auto simp: bucket_at_def)
    then have "unat (dist_u256 (keybytes_distance l z)) = 1" by (simp add: bucket_index_range)
    then have "dist_u256 (keybytes_distance l z) = 1" by (simp add: word_unat_eq_iff)
    then show ?thesis by (cases "keybytes_distance l z") simp
  qed
  then show ?thesis using assms kad.dist_inj [of x y l] by (auto simp: bucket_at_def)
qed

lemma bucket_0_not_full:
  assumes "bucket_at l 0 b"
  shows "\<not> kbucket_is_full b"
proof
  assume "kbucket_is_full b"
  then have "Suc (Suc 0) \<le> length (kb_nodes b)" by (simp add: kbucket_is_full_def K_VALUE_def)
  then obtain m n ns where ns: "kb_nodes b = m # n # ns" by (cases "kb_nodes b" rule: remdups_adj.cases) auto
  then have "node_kb m = node_kb n" using bucket_0_single [OF assms, of "node_kb m" "node_kb n"] by (simp add: bucket_keys_def)
  with ns assms show False by (simp add: bucket_at_def bucket_keys_def)
qed

lemma apply_pending_not_full:
  assumes "kbucket_ok b" and "\<not> kbucket_is_full b" and "kbucket_apply_pending now b = Inr (a, b')"
  shows "set (kbucket_iter b) \<subseteq> set (kbucket_iter b')"
proof -
  from assms(1) obtain s where s: "b = bucket_rep (pending_timeout b) s" "spec_size s \<le> K_VALUE"
    by (rule kbucket_okE)
  define t where "t = pending_timeout b"
  have b: "b = bucket_rep t s" using s(1) by (simp add: t_def)
  have it: "set (kbucket_iter (bucket_rep t (spec_append n st r))) = insert (n, st) (set (kbucket_iter (bucket_rep t r)))" for n st r
    using mset_iter_append [of t n st r] by (metis set_mset_add_mset_insert set_mset_mset)
  show ?thesis
    using assms(2,3) s(2)
    by (auto simp: b kbucket_apply_pending_rep spec_apply_pending_def spec_insert_def it split: option.splits if_splits)
qed


lemma table_visit_0:
  assumes "table_ok t" and "table_visit now 0 t = Inr (b, t')"
  shows "set (kbucket_iter (tb_buckets t ! 0)) \<subseteq> set (kbucket_iter b)"
proof -
  have at: "bucket_at (key_bytes (local_key t)) 0 (tb_buckets t ! 0)" and "0 < length (tb_buckets t)"
    using assms(1) by (auto simp: table_ok_def NUM_BUCKETS_def)
  then obtain a where "kbucket_apply_pending now (tb_buckets t ! 0) = Inr (a, b)"
    using assms(2) by (auto simp: table_visit_def res_bind_Inr_iff)
  with at bucket_0_not_full [OF at] show ?thesis
    by (intro apply_pending_not_full) (simp_all add: bucket_at_def)
qed

lemma collect_next_Some:
  "buckets_iter_next it = (Some i, it') \<Longrightarrow> buckets_iter_collect it = i # buckets_iter_collect it'"
  by (simp add: buckets_iter_collect.simps)

lemma collect_next_None:
  "buckets_iter_next it = (None, it') \<Longrightarrow> buckets_iter_collect it = [] \<and> buckets_iter_collect it' = []"
  by (subst (1 2) buckets_iter_collect.simps)
    (auto simp: buckets_iter_next_def split: buckets_iter_state.splits option.splits)

lemma entry_node_key: "e \<in> set (kbucket_iter b) \<Longrightarrow> node_kb (fst e) \<in> set (bucket_keys b)"
proof -
  assume "e \<in> set (kbucket_iter b)"
  then have "fst e \<in> set (map fst (kbucket_iter b))" unfolding set_map by (rule imageI)
  then show ?thesis by (simp add: bucket_keys_def)
qed

section \<open>The invariant of the traversal\<close>

text \<open>\<open>xs\<close> are the entries yielded so far, \<open>vs\<close> the indices of the buckets visited so far; \<open>g\<close>
  is the projection of one entry.\<close>

definition closest_items :: "'o list \<Rightarrow> ('t, 'v, 'o) closest_iter \<Rightarrow> 'o list" where
  "closest_items xs ci = xs @ (case ci_iter ci of None \<Rightarrow> [] | Some ks \<Rightarrow> ks)"

definition table_entries_at :: "('t, 'v) kbuckets_table \<Rightarrow> nat \<Rightarrow> (('t, 'v) node \<times> node_status) set" where
  "table_entries_at t i = set (kbucket_iter (tb_buckets t ! i))"

definition closest_inv ::
  "(('t, 'v) node \<times> node_status \<Rightarrow> 'o) \<Rightarrow> ('o \<Rightarrow> keybytes) \<Rightarrow> keybytes \<Rightarrow> 'o list \<Rightarrow> nat list
     \<Rightarrow> ('t, 'v, 'o) closest_iter \<Rightarrow> bool" where
  "closest_inv g as_ref target xs vs ci \<longleftrightarrow>
     table_ok (ci_table ci) \<and>
     vs @ buckets_iter_collect (ci_buckets_iter ci) =
       buckets_iter_collect (buckets_iter_new (keybytes_distance (key_bytes (local_key (ci_table ci))) target)) \<and>
     sorted (map (\<lambda>a. keybytes_distance target (as_ref a)) (closest_items xs ci)) \<and>
     set (closest_items xs ci) = (\<Union>i \<in> set vs. g ` table_entries_at (ci_table ci) i)"

text \<open>What \<^verbatim>\<open>ClosestIter\<close> relies on: the projection of an entry carries the key of its node.\<close>

locale entry_projection =
  fixes g :: "('t, 'v) node \<times> node_status \<Rightarrow> 'o"
    and as_ref :: "'o \<Rightarrow> keybytes"
  assumes as_ref_g: "as_ref (g (n, st)) = node_kb n"
begin

lemma entry_index:
  assumes "table_ok t" and "i < NUM_BUCKETS" and "e \<in> table_entries_at t i"
  shows "bucket_index_new (keybytes_distance (key_bytes (local_key t)) (as_ref (g e))) = Some i"
proof -
  have "node_kb (fst e) \<in> set (bucket_keys (tb_buckets t ! i))"
    using assms(3) by (simp add: table_entries_at_def entry_node_key)
  with assms(1,2) show ?thesis by (cases e) (simp add: table_ok_def bucket_at_def as_ref_g)
qed

text \<open>Entries of buckets in the order of the visits are in the order of their distances.\<close>

lemma entries_ordered:
  assumes "table_ok t" and "visited_before (dist_u256 (keybytes_distance (key_bytes (local_key t)) target)) i j"
    and "i = j \<Longrightarrow> j = 0" and "i < NUM_BUCKETS" "j < NUM_BUCKETS"
    and "e \<in> table_entries_at t i" "e' \<in> table_entries_at t j"
  shows "keybytes_distance target (as_ref (g e)) \<le> keybytes_distance target (as_ref (g e'))"
proof (cases "i = j")
  case False
  with assms show ?thesis
    using visited_before_distance [OF assms(2) entry_index [OF assms(1,4,6)] entry_index [OF assms(1,5,7)]]
    by simp
next
  case True
  have at: "bucket_at (key_bytes (local_key t)) 0 (tb_buckets t ! 0)"
    using assms(1) by (simp add: table_ok_def NUM_BUCKETS_def)
  have "as_ref (g d) \<in> set (bucket_keys (tb_buckets t ! 0))" if "d \<in> table_entries_at t 0" for d
    using that entry_node_key [of d "tb_buckets t ! 0"] by (cases d) (simp add: table_entries_at_def as_ref_g)
  with bucket_0_single [OF at, of "as_ref (g e)" "as_ref (g e')"] True assms(3,6,7) show ?thesis by simp
qed

end

context entry_projection
begin

lemma inv_visit:
  assumes inv: "closest_inv g as_ref target xs vs ci" and none: "ci_iter ci = None"
    and nxt: "buckets_iter_next (ci_buckets_iter ci) = (Some i, it')"
  obtains b t' v where "table_visit now i (ci_table ci) = Inr (b, t')"
    "array_collect K_VALUE (map g (kbucket_iter b)) = Inr v"
    "closest_inv g as_ref target xs (vs @ [i]) \<lparr>ci_table = t', ci_buckets_iter = it',
       ci_iter = Some (sort_key (\<lambda>a. keybytes_distance target (as_ref a)) v)\<rparr>"
proof -
  let ?t = "ci_table ci" and ?dist = "\<lambda>a. keybytes_distance target (as_ref a)"
  let ?d = "keybytes_distance (key_bytes (local_key ?t)) target"
  have ok: "table_ok ?t" and ord: "vs @ i # buckets_iter_collect it' = buckets_iter_collect (buckets_iter_new ?d)"
    and srt: "sorted (map ?dist xs)" and items: "set xs = (\<Union>i \<in> set vs. g ` table_entries_at ?t i)"
    using inv none collect_next_Some [OF nxt] by (simp_all add: closest_inv_def closest_items_def)
  have "set (vs @ i # buckets_iter_collect it') = {0..<NUM_BUCKETS}" unfolding ord by (rule set_buckets_order)
  then have bounds: "\<forall>j \<in> set vs. j < NUM_BUCKETS" "i < NUM_BUCKETS" by auto
  obtain b t' where v: "table_visit now i ?t = Inr (b, t')" "table_ok t'" "local_key t' = local_key ?t"
    "tb_buckets t' ! i = b" "bucket_at (key_bytes (local_key ?t)) i b"
    "\<And>j. j \<noteq> i \<Longrightarrow> tb_buckets t' ! j = tb_buckets ?t ! j"
    using table_visit_ok [OF ok bounds(2), of now] by metis
  have cap: "array_collect K_VALUE (map g (kbucket_iter b)) = Inr (map g (kbucket_iter b))"
    using v(5) by (simp add: array_collect_def bucket_at_def kbucket_ok_def)
  have again: "i = 0" if "i \<in> set vs" using revisited_bucket [OF ord that] .
  have same: "table_entries_at t' j = table_entries_at ?t j" if "j \<noteq> i" for j
    using that by (simp add: table_entries_at_def v(6))
  have here: "table_entries_at t' i = set (kbucket_iter b)" by (simp add: table_entries_at_def v(4))
  have grow: "table_entries_at ?t j \<subseteq> table_entries_at t' j" if "j \<in> set vs" for j
  proof (cases "j = i")
    case True
    with that again have "i = 0" by simp
    with v(1) table_visit_0 [OF ok, of now b t'] True here show ?thesis by (simp add: table_entries_at_def)
  qed (simp add: same)
  have sub: "set xs \<subseteq> (\<Union>j \<in> set vs. g ` table_entries_at t' j)"
    unfolding items using grow by (intro UN_mono image_mono) auto
  have sets: "set xs \<union> g ` set (kbucket_iter b) = (\<Union>j \<in> insert i (set vs). g ` table_entries_at t' j)"
  proof (rule equalityI)
    show "(\<Union>j \<in> insert i (set vs). g ` table_entries_at t' j) \<subseteq> set xs \<union> g ` set (kbucket_iter b)"
      using same items here by (auto, metis imageI)
  qed (use sub here in auto)
  have before: "visited_before (dist_u256 ?d) j i" if "j \<in> set vs" for j
    using buckets_order_sorted [of ?d] that unfolding ord [symmetric] by (simp add: sorted_wrt_append)
  have le: "?dist x \<le> ?dist (g e)" if x: "x \<in> set xs" and e: "e \<in> set (kbucket_iter b)" for x e
  proof -
    from sub x obtain j e' where j: "j \<in> set vs" "e' \<in> table_entries_at t' j" "x = g e'" by auto
    have "j = i \<Longrightarrow> i = 0" using j(1) again by blast
    from entries_ordered [OF v(2) _ this, where target = target and e = e' and e' = e] j before [OF j(1)] bounds e here
    show ?thesis by (simp add: v(3))
  qed
  show thesis
    by (rule that [OF v(1) cap])
      (use v(2,3) ord srt sets le in \<open>auto simp: closest_inv_def closest_items_def sorted_append\<close>)
qed

lemma closest_next_inv:
  assumes "closest_inv g as_ref target xs vs ci"
  shows "\<exists>r ci' ws. closest_next (\<lambda>b. array_collect K_VALUE (map g (kbucket_iter b))) as_ref clock target ci
      = Inr (r, ci') \<and>
    (case r of Some x \<Rightarrow> closest_inv g as_ref target (xs @ [x]) ws ci'
     | None \<Rightarrow> closest_inv g as_ref target xs ws ci' \<and> ci_iter ci' = None \<and>
         buckets_iter_collect (ci_buckets_iter ci') = [])"
  using assms
proof (induction "2 * state_rank (cb_state (ci_buckets_iter ci)) + (if ci_iter ci = None then 0 else 1)"
    arbitrary: vs ci rule: less_induct)
  case less
  show ?case
  proof (cases "ci_iter ci")
    case None
    show ?thesis
    proof (cases "buckets_iter_next (ci_buckets_iter ci)")
      case (Pair r it')
      show ?thesis
      proof (cases r)
        case (Some i)
        then have nxt: "buckets_iter_next (ci_buckets_iter ci) = (Some i, it')" using Pair by simp
        obtain b t' v where v: "table_visit (clock (cb_state (ci_buckets_iter ci))) i (ci_table ci) = Inr (b, t')"
          "array_collect K_VALUE (map g (kbucket_iter b)) = Inr v"
          "closest_inv g as_ref target xs (vs @ [i]) \<lparr>ci_table = t', ci_buckets_iter = it',
             ci_iter = Some (sort_key (\<lambda>a. keybytes_distance target (as_ref a)) v)\<rparr>"
          using inv_visit [OF less.prems None nxt] by metis
        have "2 * state_rank (cb_state it') + 1 < 2 * state_rank (cb_state (ci_buckets_iter ci))"
          using buckets_iter_next_rank [OF nxt] by simp
        with less.hyps [OF _ v(3)] None nxt v(1,2) show ?thesis
          by (subst closest_next.simps) simp
      next
        case r: None
        with Pair None less.prems collect_next_None [of "ci_buckets_iter ci" it'] show ?thesis
          by (subst closest_next.simps) (auto simp: closest_inv_def closest_items_def)
      qed
    qed
  next
    case (Some ks)
    show ?thesis
    proof (cases ks)
      case Nil
      then have "closest_inv g as_ref target xs vs (ci\<lparr>ci_iter := None\<rparr>)"
        using less.prems Some by (simp add: closest_inv_def closest_items_def)
      from less.hyps [OF _ this] Some Nil show ?thesis by (subst closest_next.simps) simp
    next
      case (Cons k ks')
      then have "closest_inv g as_ref target (xs @ [k]) vs (ci\<lparr>ci_iter := Some ks'\<rparr>)"
        using less.prems Some by (simp add: closest_inv_def closest_items_def)
      with Some Cons show ?thesis by (subst closest_next.simps) auto
    qed
  qed
qed

end

context entry_projection
begin

lemma closest_take_inv:
  assumes "closest_inv g as_ref target xs vs ci"
  shows "\<exists>ys ci' ws. closest_take (\<lambda>b. array_collect K_VALUE (map g (kbucket_iter b))) as_ref clock target n ci
      = Inr (ys, ci') \<and> closest_inv g as_ref target (xs @ ys) ws ci' \<and> length ys \<le> n \<and>
    (length ys < n \<longrightarrow> ci_iter ci' = None \<and> buckets_iter_collect (ci_buckets_iter ci') = [])"
  using assms
proof (induction n arbitrary: xs vs ci)
  case (Suc n)
  obtain r ci1 ws where r: "closest_next (\<lambda>b. array_collect K_VALUE (map g (kbucket_iter b))) as_ref clock target ci
      = Inr (r, ci1)"
    "case r of Some x \<Rightarrow> closest_inv g as_ref target (xs @ [x]) ws ci1
     | None \<Rightarrow> closest_inv g as_ref target xs ws ci1 \<and> ci_iter ci1 = None \<and>
         buckets_iter_collect (ci_buckets_iter ci1) = []"
    using closest_next_inv [OF Suc.prems, of clock] by metis
  show ?case
  proof (cases r)
    case None
    with r show ?thesis by auto
  next
    case (Some x)
    with r(2) have "closest_inv g as_ref target (xs @ [x]) ws ci1" by simp
    from Suc.IH [OF this] Some r(1) show ?thesis by auto
  qed
qed auto

text \<open>What is left in the iterator or in buckets not yet visited is at least as far away as what
  was yielded.\<close>

lemma inv_remaining_far:
  assumes inv: "closest_inv g as_ref target xs vs ci" and "i < NUM_BUCKETS"
    and e: "e \<in> table_entries_at (ci_table ci) i" and new: "g e \<notin> set xs" and x: "x \<in> set xs"
  shows "keybytes_distance target (as_ref x) \<le> keybytes_distance target (as_ref (g e))"
proof -
  let ?t = "ci_table ci" and ?R = "buckets_iter_collect (ci_buckets_iter ci)"
  let ?d = "keybytes_distance (key_bytes (local_key ?t)) target"
  have ok: "table_ok ?t" and ord: "vs @ ?R = buckets_iter_collect (buckets_iter_new ?d)"
    and srt: "sorted (map (\<lambda>a. keybytes_distance target (as_ref a)) (closest_items xs ci))"
    and items: "set (closest_items xs ci) = (\<Union>i \<in> set vs. g ` table_entries_at ?t i)"
    using inv by (simp_all add: closest_inv_def)
  have "set (vs @ ?R) = {0..<NUM_BUCKETS}" unfolding ord by (rule set_buckets_order)
  then have R: "i \<in> set vs \<or> i \<in> set ?R" "\<forall>j \<in> set vs. j < NUM_BUCKETS" using assms(2) by auto
  show ?thesis
  proof (cases "i \<in> set vs")
    case True
    then have "g e \<in> set (closest_items xs ci)" using e items by auto
    with new x srt show ?thesis by (auto simp: closest_items_def sorted_append)
  next
    case False
    have "x \<in> set (closest_items xs ci)" using x by (simp add: closest_items_def)
    then obtain j e' where j: "j \<in> set vs" "e' \<in> table_entries_at ?t j" "x = g e'" using items by auto
    have "visited_before (dist_u256 ?d) j i"
      using buckets_order_sorted [of ?d] R(1) False j(1) unfolding ord [symmetric] by (simp add: sorted_wrt_append)
    moreover have "j \<noteq> i" using False j(1) by auto
    ultimately show ?thesis using entries_ordered [OF ok, of target j i e' e] j R(2) e assms(2) by simp
  qed
qed

lemma closest_take_spec:
  assumes "table_ok t"
  shows "\<exists>xs ci'. closest_take (\<lambda>b. array_collect K_VALUE (map g (kbucket_iter b))) as_ref clock target n
        (closest_start t target) = Inr (xs, ci') \<and> table_ok (ci_table ci') \<and> length xs \<le> n \<and>
    sorted (map (\<lambda>a. keybytes_distance target (as_ref a)) xs) \<and>
    (\<forall>x \<in> set xs. \<exists>i < NUM_BUCKETS. \<exists>e \<in> table_entries_at (ci_table ci') i. x = g e) \<and>
    (\<forall>i < NUM_BUCKETS. \<forall>e \<in> table_entries_at (ci_table ci') i. g e \<notin> set xs \<longrightarrow>
       length xs = n \<and> (\<forall>x \<in> set xs. keybytes_distance target (as_ref x) \<le> keybytes_distance target (as_ref (g e))))"
proof -
  have start: "closest_inv g as_ref target [] [] (closest_start t target)"
    using assms by (simp add: closest_inv_def closest_items_def closest_start_def)
  obtain ys ci' ws where ys: "closest_take (\<lambda>b. array_collect K_VALUE (map g (kbucket_iter b))) as_ref clock target n
      (closest_start t target) = Inr (ys, ci')" and inv: "closest_inv g as_ref target ys ws ci'"
    and len: "length ys \<le> n" "length ys < n \<longrightarrow> ci_iter ci' = None \<and> buckets_iter_collect (ci_buckets_iter ci') = []"
    using closest_take_inv [OF start, of clock n] by auto
  let ?t = "ci_table ci'"
  let ?d = "keybytes_distance (key_bytes (local_key ?t)) target"
  have ok: "table_ok ?t" and ord: "ws @ buckets_iter_collect (ci_buckets_iter ci') = buckets_iter_collect (buckets_iter_new ?d)"
    and srt: "sorted (map (\<lambda>a. keybytes_distance target (as_ref a)) (closest_items ys ci'))"
    and items: "set (closest_items ys ci') = (\<Union>i \<in> set ws. g ` table_entries_at ?t i)"
    using inv by (simp_all add: closest_inv_def)
  have all: "set (ws @ buckets_iter_collect (ci_buckets_iter ci')) = {0..<NUM_BUCKETS}"
    unfolding ord by (rule set_buckets_order)
  then have "\<forall>j \<in> set ws. j < NUM_BUCKETS" by auto
  moreover have "set ys \<subseteq> set (closest_items ys ci')" by (simp add: closest_items_def)
  ultimately have "\<forall>x \<in> set ys. \<exists>i < NUM_BUCKETS. \<exists>e \<in> table_entries_at ?t i. x = g e"
    unfolding items by blast
  moreover have "length ys = n" if "i < NUM_BUCKETS" "e \<in> table_entries_at ?t i" "g e \<notin> set ys" for i e
  proof (rule ccontr)
    assume "length ys \<noteq> n"
    with len have "set ys = set (closest_items ys ci')" "set ws = {0..<NUM_BUCKETS}"
      using all by (auto simp: closest_items_def)
    with items that show False by auto
  qed
  moreover have "sorted (map (\<lambda>a. keybytes_distance target (as_ref a)) ys)"
    using srt by (simp add: closest_items_def sorted_append)
  moreover note inv_remaining_far [OF inv]
  ultimately show ?thesis using ys ok len(1) by blast
qed

end

interpretation closest_key: entry_projection "\<lambda>(n, st). node_key n" key_bytes
  by unfold_locales (simp add: node_kb_def)

interpretation closest_view: entry_projection "\<lambda>(n, st). \<lparr>ev_node = n, ev_status = st\<rparr>" "\<lambda>e. node_kb (ev_node e)"
  by unfold_locales simp

lemma closest_keys_nearest:
  assumes "table_ok t"
  shows "\<exists>xs t'. closest_keys clock t target n = Inr (xs, t') \<and> table_ok t' \<and> length xs \<le> n \<and>
    sorted (map (\<lambda>k. keybytes_distance target (key_bytes k)) xs) \<and>
    (\<forall>k \<in> set xs. \<exists>i < NUM_BUCKETS. \<exists>(m, st) \<in> table_entries_at t' i. k = node_key m) \<and>
    (\<forall>i < NUM_BUCKETS. \<forall>(m, st) \<in> table_entries_at t' i. node_key m \<notin> set xs \<longrightarrow>
       length xs = n \<and> (\<forall>k \<in> set xs. keybytes_distance target (key_bytes k) \<le> keybytes_distance target (node_kb m)))"
  using closest_key.closest_take_spec [OF assms, of clock target n]
  by (fastforce simp: closest_keys_def closest_keys_fmap_def [abs_def] node_kb_def split_beta)

section \<open>Properties\<close>



text \<open>C18. The order of the buckets.  The iterator over the buckets ends, visits every one of the
  256 buckets and visits each bucket once, with one exception: bucket 0 is visited twice when
  the target is the local key or its distance from the local key is odd.\<close>

theorem closest_buckets_visits:
  "set (buckets_iter_collect (buckets_iter_new d)) = {0..<256} \<and>
   (\<forall>i. 0 < i \<and> i < 256 \<longrightarrow> count (mset (buckets_iter_collect (buckets_iter_new d))) i = 1) \<and>
   count (mset (buckets_iter_collect (buckets_iter_new d))) 0 =
     (if d = Distance 0 \<or> bit (dist_u256 d) 0 then 2 else 1)"
proof (intro conjI allI impI)
  let ?xs = "buckets_iter_collect (buckets_iter_new d)"
  show set: "set ?xs = {0..<256}" by (simp add: set_buckets_order NUM_BUCKETS_def)
  show "count (mset ?xs) i = 1" if "0 < i \<and> i < 256" for i
  proof -
    have "count (mset (filter (\<lambda>i. i \<noteq> 0) ?xs)) i = (if i \<in> set (filter (\<lambda>i. i \<noteq> 0) ?xs) then 1 else 0)"
      using nonzero_buckets_once [of d] by (simp only: distinct_count_atmost_1)
    then show ?thesis using that set by simp
  qed
  have once: "count (mset [0..<NUM_BUCKETS]) 0 = 1" "count (mset [1..<NUM_BUCKETS]) 0 = 0"
    using distinct_upt [of 0 NUM_BUCKETS]
    by (simp only: distinct_count_atmost_1) (simp_all add: NUM_BUCKETS_def count_eq_zero_iff)
  show "count (mset ?xs) 0 = (if d = Distance 0 \<or> bit (dist_u256 d) 0 then 2 else 1)"
  proof (cases "d = Distance 0")
    case True
    then show ?thesis using once by (simp only: buckets_order_zero mset.simps) simp
  next
    case False
    then show ?thesis using once unfolding buckets_order_nonzero [OF False] mset.simps mset_append mset_filter mset_rev
      by (simp add: NUM_BUCKETS_def)
  qed
qed

theorem closest_buckets_visits_witness:
  "count (mset (buckets_iter_collect (buckets_iter_new (Distance 6)))) 2 = 1"
  using closest_buckets_visits [of "Distance 6"] by simp


end
