(* ===== verification/Kad_Nodes.thy ===== *)
theory Kad_Nodes
  imports Kad_Closest
begin

text \<open>
  Which keys a routing table holds, with their preimages: no operation on buckets, entries and
  tables brings in a key other than the one it was called with.  The clients of the table use
  this to know that every node of the table has a 32-byte id that hashes to its key.  The lazy
  iteration of \<^verbatim>\<open>KBucketsTable::iter\<close> with \<^verbatim>\<open>filter_map\<close> and \<^verbatim>\<open>take\<close>, as \<^verbatim>\<open>rpc/mod.rs\<close> uses it, is
  here as well: buckets after the last one needed are not visited.
\<close>

definition bucket_node_keys :: "('t, 'v) kbucket \<Rightarrow> 't key set" where
  "bucket_node_keys b = node_key ` set (kb_nodes b) \<union> (case kb_pending b of None \<Rightarrow> {} | Some p \<Rightarrow> {node_key (pn_node p)})"

definition table_node_keys :: "('t, 'v) kbuckets_table \<Rightarrow> 't key set" where
  "table_node_keys t = (\<Union>b \<in> set (tb_buckets t). bucket_node_keys b)"

fun table_iter_take ::
  "(nat \<Rightarrow> instant) \<Rightarrow> (('t, 'v) node \<Rightarrow> 'a option) \<Rightarrow> nat \<Rightarrow> nat list \<Rightarrow> ('t, 'v) kbuckets_table
     \<Rightarrow> ('a list \<times> ('t, 'v) kbuckets_table) res" where
  "table_iter_take clock f n [] t = Inr ([], t)"
| "table_iter_take clock f n (i # is) t =
     (if n = 0 then Inr ([], t)
      else res_bind (table_visit (clock i) i t) (\<lambda>(b, t').
        let xs = List.map_filter (\<lambda>(nd, _). f nd) (kbucket_iter b)
        in if length xs < n
           then res_bind (table_iter_take clock f (n - length xs) is t') (\<lambda>(ys, t''). Inr (xs @ ys, t''))
           else Inr (take n xs, t')))"

section \<open>Buckets\<close>

lemma array_push_set: "array_push cap x xs = Inr ys \<Longrightarrow> set ys = insert x (set xs)"
  by (auto simp: array_push_def split: if_splits)

lemma array_insert_set: "array_insert cap i x xs = Inr ys \<Longrightarrow> set ys = insert x (set xs)"
  by (auto simp: array_insert_def split: if_splits)

lemma vec_remove_set: "vec_remove i xs = Inr (y, ys) \<Longrightarrow> set ys \<subseteq> set xs \<and> y \<in> set xs"
  using set_remove_at_subset [of i xs] by (auto simp: vec_remove_def split: if_splits)

lemma kbucket_insert_node_keys:
  assumes "kbucket_insert now b n st = Inr (r, b')"
  shows "bucket_node_keys b' \<subseteq> insert (node_key n) (bucket_node_keys b)"
  using assms
  by (cases st) (auto simp: kbucket_insert_def bucket_node_keys_def res_bind_Inr_iff Let_def
      dest!: array_push_set array_insert_set split: if_splits option.splits)

lemma kbucket_remove_node_keys:
  assumes "kbucket_remove b key = Inr (r, b')"
  shows "bucket_node_keys b' \<subseteq> bucket_node_keys b" and "r = Some (n, st, pos) \<Longrightarrow> node_key n \<in> bucket_node_keys b"
  using assms
  by (auto simp: kbucket_remove_def bucket_node_keys_def res_bind_Inr_iff Let_def
      dest!: vec_remove_set split: if_splits option.splits node_status.splits)

lemma kbucket_update_node_keys:
  assumes "kbucket_update now b key st = Inr b'"
  shows "bucket_node_keys b' \<subseteq> bucket_node_keys b"
proof -
  obtain r b1 where r: "kbucket_remove b key = Inr (r, b1)" using assms by (auto simp: kbucket_update_def res_bind_Inr_iff)
  show ?thesis
  proof (cases r)
    case None
    then show ?thesis using assms r kbucket_remove_node_keys(1) [OF r] by (simp add: kbucket_update_def)
  next
    case (Some x)
    obtain n st0 pos where x: "x = (n, st0, pos)" by (metis prod_cases3)
    let ?b = "if pos = 0 \<and> st = Connected then b1\<lparr>kb_pending := None\<rparr> else b1"
    obtain r2 where i: "kbucket_insert now ?b n st = Inr (r2, b')"
      using assms r Some x by (auto simp: kbucket_update_def res_bind_Inr_iff Let_def split: if_splits)
    have "bucket_node_keys ?b \<subseteq> bucket_node_keys b1" by (auto simp: bucket_node_keys_def)
    then show ?thesis using kbucket_insert_node_keys [OF i] kbucket_remove_node_keys [OF r] Some x by blast
  qed
qed

lemma kbucket_apply_node_keys:
  assumes "kbucket_apply_pending now b = Inr (a, b')"
  shows "bucket_node_keys b' \<subseteq> bucket_node_keys b"
proof (cases "kb_pending b")
  case None
  then show ?thesis using assms by (simp add: kbucket_apply_pending_def)
next
  case (Some p)
  let ?b = "b\<lparr>kb_pending := None\<rparr>"
  have key: "node_key (pn_node p) \<in> bucket_node_keys b" and sub: "bucket_node_keys ?b \<subseteq> bucket_node_keys b"
    using Some by (auto simp: bucket_node_keys_def)
  have ins: "bucket_node_keys b' \<subseteq> bucket_node_keys b"
    if "kbucket_insert now ?b (pn_node p) (pn_status p) = Inr (r, b')" for r
    using kbucket_insert_node_keys [OF that] key sub by blast
  show ?thesis
  proof (cases "pn_replace p \<le> now \<and> \<not> kbucket_is_full ?b")
    case True
    then show ?thesis using assms Some ins
      by (auto simp: kbucket_apply_pending_def Let_def res_bind_Inr_iff split: if_splits)
  next
    case False
    then show ?thesis using assms Some
      by (auto simp: kbucket_apply_pending_def Let_def res_bind_Inr_iff bucket_node_keys_def
          dest!: vec_remove_set array_push_set array_insert_set split: if_splits option.splits) blast+
  qed
qed

section \<open>Entries and tables\<close>

lemma present_value_mut_node_keys:
  assumes "present_value_mut f er = Inr er'"
  shows "bucket_node_keys (er_bucket er') \<subseteq> bucket_node_keys (er_bucket er)"
proof -
  obtain p where p: "kbucket_position (er_bucket er) (er_key er) = Some p"
    "er' = er\<lparr>er_bucket := (er_bucket er)\<lparr>kb_nodes := (kb_nodes (er_bucket er))
       [p := (kb_nodes (er_bucket er) ! p)\<lparr>node_value := f (node_value (kb_nodes (er_bucket er) ! p))\<rparr>]\<rparr>\<rparr>"
    using assms by (auto simp: present_value_mut_def kbucket_get_mut_def res_bind_Inr_iff expect_def split: option.splits)
  then have "p < length (kb_nodes (er_bucket er))" by (auto simp: kbucket_position_def dest: position_of_SomeD)
  then have "map node_key (kb_nodes (er_bucket er')) = map node_key (kb_nodes (er_bucket er))"
    using p(2) by (simp add: map_update list_update_same_conv)
  then have "node_key ` set (kb_nodes (er_bucket er')) = node_key ` set (kb_nodes (er_bucket er))" by (metis list.set_map)
  then show ?thesis using p(2) by (simp add: bucket_node_keys_def)
qed

lemma pending_value_mut_node_keys:
  assumes "pending_entry_value_mut f er = Inr er'"
  shows "bucket_node_keys (er_bucket er') \<subseteq> bucket_node_keys (er_bucket er)"
  using assms by (auto simp: pending_entry_value_mut_def res_bind_Inr_iff expect_def bucket_node_keys_def
      pending_value_mut_def split: option.splits)

lemma present_remove_node_keys:
  "present_remove er = Inr (v, b') \<Longrightarrow> bucket_node_keys b' \<subseteq> bucket_node_keys (er_bucket er)"
  by (auto simp: present_remove_def res_bind_Inr_iff dest!: kbucket_remove_node_keys(1))

lemma pending_remove_node_keys:
  "pending_remove er = Inr (v, b') \<Longrightarrow> bucket_node_keys b' \<subseteq> bucket_node_keys (er_bucket er)"
  by (auto simp: pending_remove_def kbucket_remove_pending_def res_bind_Inr_iff bucket_node_keys_def)

lemma table_put_node_keys:
  assumes "bucket_node_keys b \<subseteq> insert k (table_node_keys t)"
  shows "table_node_keys (t\<lparr>tb_buckets := (tb_buckets t)[i := b], tb_applied := as\<rparr>) \<subseteq> insert k (table_node_keys t)"
proof -
  have "set ((tb_buckets t)[i := b]) \<subseteq> insert b (set (tb_buckets t))" by (rule set_update_subset_insert)
  then show ?thesis using assms by (auto simp: table_node_keys_def)
qed

lemma table_visit_node_keys:
  assumes "table_visit now i t = Inr (b, t')"
  shows "table_node_keys t' \<subseteq> table_node_keys t" and "bucket_node_keys b \<subseteq> table_node_keys t"
    and "b \<in> set (tb_buckets t')"
proof -
  obtain b0 a where b0: "i < length (tb_buckets t)" "b0 = tb_buckets t ! i" "kbucket_apply_pending now b0 = Inr (a, b)"
    "t' = t\<lparr>tb_buckets := (tb_buckets t)[i := b], tb_applied := push_applied a (tb_applied t)\<rparr>"
    using assms by (auto simp: table_visit_def res_bind_Inr_iff vec_index_def split: if_splits)
  then have "b0 \<in> set (tb_buckets t)" by simp
  then have "bucket_node_keys b0 \<subseteq> table_node_keys t" by (auto simp: table_node_keys_def)
  then show sub: "bucket_node_keys b \<subseteq> table_node_keys t" using kbucket_apply_node_keys [OF b0(3)] by blast
  have "set ((tb_buckets t)[i := b]) \<subseteq> insert b (set (tb_buckets t))" by (rule set_update_subset_insert)
  with sub b0(4) show "table_node_keys t' \<subseteq> table_node_keys t" by (auto simp: table_node_keys_def)
  show "b \<in> set (tb_buckets t')" using b0 by (simp add: set_update_memI)
qed

lemma table_iter_take_ok:
  assumes "table_ok t" and "\<forall>i \<in> set is. i < NUM_BUCKETS"
  shows "\<exists>xs t'. table_iter_take clock f n is t = Inr (xs, t') \<and> table_ok t' \<and> local_key t' = local_key t \<and>
    table_node_keys t' \<subseteq> table_node_keys t \<and> length xs \<le> n \<and>
    (\<forall>x \<in> set xs. \<exists>nd. node_key nd \<in> table_node_keys t \<and> f nd = Some x)"
  using assms
proof (induction "is" arbitrary: t n)
  case (Cons i js)
  show ?case
  proof (cases "n = 0")
    case False
    obtain b t1 where v: "table_visit (clock i) i t = Inr (b, t1)" "table_ok t1" "local_key t1 = local_key t"
      using table_visit_ok [OF Cons.prems(1), of i "clock i"] Cons.prems(2) by (metis list.set_intros(1))
    note vk = table_visit_node_keys [OF v(1)]
    let ?xs = "List.map_filter (\<lambda>(nd, _). f nd) (kbucket_iter b)"
    have "nd \<in> set (kb_nodes b)" if "(nd, st) \<in> set (kbucket_iter b)" for nd st
      using that map_fst_kbucket_iter [of b] by (metis fst_conv image_eqI list.set_map)
    then have xs: "\<forall>x \<in> set ?xs. \<exists>nd. node_key nd \<in> table_node_keys t \<and> f nd = Some x"
      using vk(2) by (fastforce simp: List.map_filter_def bucket_node_keys_def)
    show ?thesis
    proof (cases "length ?xs < n")
      case True
      from Cons.IH [OF v(2), of "n - length ?xs"] Cons.prems(2) obtain ys t2 where
        "table_iter_take clock f (n - length ?xs) js t1 = Inr (ys, t2)" "table_ok t2" "local_key t2 = local_key t1"
        "table_node_keys t2 \<subseteq> table_node_keys t1" "length ys \<le> n - length ?xs"
        "\<forall>x \<in> set ys. \<exists>nd. node_key nd \<in> table_node_keys t1 \<and> f nd = Some x" by auto
      then show ?thesis using True False v vk(1) xs
        by (intro exI [of _ "?xs @ ys"] exI [of _ t2]) (auto simp: Let_def, blast)
    next
      case f: False
      then show ?thesis using False v vk(1) xs
        by (intro exI [of _ "take n ?xs"] exI [of _ t1]) (auto simp: Let_def dest: in_set_takeD)
    qed
  qed (use Cons.prems in simp)
qed simp

section \<open>The nearest nodes\<close>

lemma table_visit_local: "table_visit now i t = Inr (b, t') \<Longrightarrow> local_key t' = local_key t"
  by (auto simp: table_visit_def res_bind_Inr_iff)

lemma closest_next_node_keys:
  assumes "closest_next fmap as_ref clock target ci = Inr (r, ci')"
  shows "table_node_keys (ci_table ci') \<subseteq> table_node_keys (ci_table ci) \<and> local_key (ci_table ci') = local_key (ci_table ci)"
  using assms
proof (induction fmap as_ref clock target ci rule: closest_next.induct)
  case (1 fmap as_ref clock target ci)
  show ?case
  proof (cases "ci_iter ci")
    case None
    obtain o' it' where n: "buckets_iter_next (ci_buckets_iter ci) = (o', it')" by fastforce
    show ?thesis
    proof (cases o')
      case (Some i)
      let ?now = "clock (cb_state (ci_buckets_iter ci))"
      obtain b t' v where v: "table_visit ?now i (ci_table ci) = Inr (b, t')" "fmap b = Inr v"
        "closest_next fmap as_ref clock target \<lparr>ci_table = t', ci_buckets_iter = it',
           ci_iter = Some (sort_key (\<lambda>a. keybytes_distance target (as_ref a)) v)\<rparr> = Inr (r, ci')"
        using "1.prems" None n Some by (subst (asm) closest_next.simps) (auto simp: res_bind_Inr_iff)
      from "1.IH"(1) [OF None n [symmetric] Some] v
      have "table_node_keys (ci_table ci') \<subseteq> table_node_keys t' \<and> local_key (ci_table ci') = local_key t'" by fastforce
      then show ?thesis using table_visit_node_keys(1) [OF v(1)] table_visit_local [OF v(1)] by auto
    qed (use "1.prems" None n in \<open>subst (asm) closest_next.simps, auto\<close>)
  next
    case (Some ks)
    then show ?thesis using "1.prems" "1.IH"(2) [OF Some] by (cases ks; subst (asm) (2) closest_next.simps) auto
  qed
qed

lemma closest_take_node_keys:
  assumes "closest_take fmap as_ref clock target n ci = Inr (xs, ci')"
  shows "table_node_keys (ci_table ci') \<subseteq> table_node_keys (ci_table ci) \<and> local_key (ci_table ci') = local_key (ci_table ci)"
  using assms
  by (induction n arbitrary: xs ci)
    (fastforce simp: res_bind_Inr_iff dest!: closest_next_node_keys split: option.splits)+

lemma closest_ok:
  assumes "table_ok t"
  shows "\<exists>xs t'. closest clock t target n = Inr (xs, t') \<and> table_ok t' \<and> local_key t' = local_key t \<and>
    table_node_keys t' \<subseteq> table_node_keys t \<and> (\<forall>e \<in> set xs. node_key (ev_node e) \<in> table_node_keys t) \<and> length xs \<le> n \<and>
    sorted (map (\<lambda>e. keybytes_distance target (node_kb (ev_node e))) xs) \<and>
    (\<forall>i < NUM_BUCKETS. \<forall>(m, st) \<in> table_entries_at t' i. \<lparr>ev_node = m, ev_status = st\<rparr> \<notin> set xs \<longrightarrow>
       length xs = n \<and>
       (\<forall>e \<in> set xs. keybytes_distance target (node_kb (ev_node e)) \<le> keybytes_distance target (node_kb m)))"
proof -
  obtain xs ci' where c: "closest_take closest_fmap (\<lambda>e. node_kb (ev_node e)) clock target n (closest_start t target) = Inr (xs, ci')"
    and ok: "table_ok (ci_table ci')" "length xs \<le> n" "sorted (map (\<lambda>e. keybytes_distance target (node_kb (ev_node e))) xs)"
    and mem: "\<forall>x \<in> set xs. \<exists>i < NUM_BUCKETS. \<exists>e \<in> table_entries_at (ci_table ci') i. x = (case e of (n, st) \<Rightarrow> \<lparr>ev_node = n, ev_status = st\<rparr>)"
    and far: "\<forall>i < NUM_BUCKETS. \<forall>e \<in> table_entries_at (ci_table ci') i. (case e of (n, st) \<Rightarrow> \<lparr>ev_node = n, ev_status = st\<rparr>) \<notin> set xs \<longrightarrow>
       length xs = n \<and> (\<forall>x \<in> set xs. keybytes_distance target (node_kb (ev_node x)) \<le>
         keybytes_distance target (node_kb (ev_node (case e of (n, st) \<Rightarrow> \<lparr>ev_node = n, ev_status = st\<rparr>))))"
    using closest_view.closest_take_spec [OF assms, of clock target n] by (auto simp: closest_fmap_def [abs_def])
  have keys: "table_node_keys (ci_table ci') \<subseteq> table_node_keys t" "local_key (ci_table ci') = local_key t"
    using closest_take_node_keys [OF c] by (simp_all add: closest_start_def)
  have "node_key nd \<in> table_node_keys (ci_table ci')" if "i < NUM_BUCKETS" "(nd, st) \<in> table_entries_at (ci_table ci') i" for i nd st
  proof -
    have "nd \<in> set (kb_nodes (tb_buckets (ci_table ci') ! i))"
      using that(2) map_fst_kbucket_iter [of "tb_buckets (ci_table ci') ! i"]
      by (metis fst_conv image_eqI list.set_map table_entries_at_def)
    moreover have "tb_buckets (ci_table ci') ! i \<in> set (tb_buckets (ci_table ci'))" using that(1) ok(1) by (simp add: table_ok_def)
    ultimately show ?thesis by (auto simp: table_node_keys_def bucket_node_keys_def)
  qed
  then have "\<forall>e \<in> set xs. node_key (ev_node e) \<in> table_node_keys t" using mem keys(1) by fastforce
  then show ?thesis using c ok keys far by (fastforce simp: closest_def)
qed

end
