(* ===== verification/Peers_Codec.thy ===== *)
theory Peers_Codec
  imports Kad_Entry
begin

text \<open>
  Model of \<^verbatim>\<open>src/peers.rs\<close>, the byte encoding of socket addresses, peers and routing-table
  entries, with the types of \<^verbatim>\<open>src/rpc/mod.rs\<close> that it encodes.  An IPv4 address takes four
  octets and two port bytes in network order; an IPv6 address is left out by every encoder.
  The lemmas give the round trips in both directions and the exact behaviour of
  \<^verbatim>\<open>decode_local_peers\<close>.
\<close>

section \<open>Addresses, peers and nodes\<close>

text \<open>\<^verbatim>\<open>std::net::SocketAddr\<close>; an IPv6 address has flow information and scope besides the
  port.\<close>

datatype socket_addr =
    SockV4 (v4_ip: "u8 \<times> u8 \<times> u8 \<times> u8") (v4_port: u16)
  | SockV6 (v6_ip: "128 word") (v6_port: u16) (v6_flowinfo: u32) (v6_scope: u32)

type_synonym id_bytes = bytes

record peer =
  peer_addr :: socket_addr
  peer_referrer :: "socket_addr option"

record peer_id =
  pid_addr :: socket_addr
  pid_id :: id_bytes

text \<open>The value stored in the routing table for a node.\<close>

record dht_node =
  dn_addr :: socket_addr
  dn_roundtrip_token :: "bytes option"
  dn_to :: "socket_addr option"
  dn_next_ping :: instant
  dn_referrers :: "socket_addr list"

definition id_bytes_try_from :: "bytes \<Rightarrow> id_bytes option" where
  "id_bytes_try_from buf = (if length buf = 32 then Some buf else None)"

definition peer_from :: "socket_addr \<Rightarrow> peer" where
  "peer_from s = \<lparr>peer_addr = s, peer_referrer = None\<rparr>"

section \<open>Encoding\<close>

definition u16_to_be :: "u16 \<Rightarrow> bytes" where
  "u16_to_be p = nat_be 2 (unat p)"

definition u16_from_be :: "bytes \<Rightarrow> u16" where
  "u16_from_be bs = word_of_nat (be_nat bs)"

fun encode_addr :: "socket_addr \<Rightarrow> bytes" where
  "encode_addr (SockV4 (a, b, c, d) port) = [a, b, c, d] @ u16_to_be port"
| "encode_addr (SockV6 _ _ _ _) = []"

definition encode_peer :: "peer \<Rightarrow> bytes" where
  "encode_peer p = encode_addr (peer_addr p)"

definition encode_peers :: "peer list \<Rightarrow> bytes" where
  "encode_peers ps =
     fold (\<lambda>p buf.
        case peer_addr p of
          SockV4 (a, b, c, d) port \<Rightarrow> buf @ [a, b, c, d] @ u16_to_be port
        | SockV6 _ _ _ _ \<Rightarrow> buf) ps []"

definition encode_entries :: "(id_bytes, dht_node) entry_view list \<Rightarrow> bytes" where
  "encode_entries es =
     fold (\<lambda>e buf.
        case dn_addr (node_value (ev_node e)) of
          SockV4 (a, b, c, d) port \<Rightarrow>
            buf @ preimage (node_key (ev_node e)) @ [a, b, c, d] @ u16_to_be port
        | SockV6 _ _ _ _ \<Rightarrow> buf) es []"

section \<open>Decoding\<close>

definition decode_addr :: "bytes \<Rightarrow> socket_addr option" where
  "decode_addr bs =
     (case bs of
        [a, b, c, d, p, q] \<Rightarrow> Some (SockV4 (a, b, c, d) (u16_from_be [p, q]))
      | _ \<Rightarrow> None)"

definition peer_id_try_from :: "bytes \<Rightarrow> peer_id option res" where
  "peer_id_try_from buf =
     (if length buf \<noteq> 38 then Inr None
      else res_bind (expect (id_bytes_try_from (take 32 buf))) (\<lambda>i.
           res_bind (expect (decode_addr (drop 32 buf))) (\<lambda>a.
             Inr (Some \<lparr>pid_addr = a, pid_id = i\<rparr>))))"

fun decode_peer_ids_loop :: "bytes list \<Rightarrow> peer_id list \<Rightarrow> peer_id list res" where
  "decode_peer_ids_loop [] peers = Inr peers"
| "decode_peer_ids_loop (chunk # rest) peers =
     res_bind (peer_id_try_from chunk) (\<lambda>r.
       case r of
         Some p \<Rightarrow> decode_peer_ids_loop rest (peers @ [p])
       | None \<Rightarrow> decode_peer_ids_loop rest peers)"

definition decode_peer_ids :: "bytes \<Rightarrow> peer_id list res" where
  "decode_peer_ids buf = decode_peer_ids_loop (chunks 38 buf) []"

definition decode_peers :: "bytes \<Rightarrow> socket_addr list" where
  "decode_peers buf =
     fold (\<lambda>p peers. case decode_addr p of Some a \<Rightarrow> peers @ [a] | None \<Rightarrow> peers) (chunks 6 buf) []"

text \<open>\<^verbatim>\<open>usize::trailing_zeros\<close> on 64 bits; it is 64 for zero.\<close>

definition trailing_zeros :: "nat \<Rightarrow> nat" where
  "trailing_zeros n = length (takeWhile (\<lambda>i. \<not> odd (n div 2 ^ i)) [0..<64])"

fun decode_local_loop ::
  "u8 \<Rightarrow> u8 \<Rightarrow> bytes \<Rightarrow> nat list \<Rightarrow> socket_addr list \<Rightarrow> socket_addr list res" where
  "decode_local_loop o0 o1 buf [] peers = Inr peers"
| "decode_local_loop o0 o1 buf (i # is) peers =
     res_bind (slice_range buf (i + 2) (i + 4)) (\<lambda>port.
       if length port = 2
       then res_bind (vec_index buf i) (\<lambda>b0.
            res_bind (vec_index buf (i + 1)) (\<lambda>b1.
              decode_local_loop o0 o1 buf is (peers @ [SockV4 (o0, o1, b0, b1) (u16_from_be port)])))
       else Inr [])"

definition decode_local_peers :: "u8 \<times> u8 \<times> u8 \<times> u8 \<Rightarrow> bytes \<Rightarrow> socket_addr list res" where
  "decode_local_peers local_ip buf =
     (if 2 \<le> trailing_zeros (length buf) then Inr []
      else case local_ip of (o0, o1, _, _) \<Rightarrow>
        decode_local_loop o0 o1 buf (map (\<lambda>k. 4 * k) [0..<(length buf + 3) div 4]) [])"

section \<open>Lemmas\<close>

definition is_v4 :: "socket_addr \<Rightarrow> bool" where
  "is_v4 a \<longleftrightarrow> (case a of SockV4 _ _ \<Rightarrow> True | SockV6 _ _ _ _ \<Rightarrow> False)"

lemma is_v4_simps [simp]: "is_v4 (SockV4 i p)" "\<not> is_v4 (SockV6 i' p f s)"
  by (simp_all add: is_v4_def)

lemma length_u16_to_be [simp]: "length (u16_to_be p) = 2"
  by (simp add: u16_to_be_def)

lemma u16_from_to_be [simp]: "u16_from_be (u16_to_be p) = p"
proof -
  have "unat p < 256 ^ 2" using unsigned_less [of p, where ?'a = nat] by simp
  then show ?thesis by (simp add: u16_from_be_def u16_to_be_def be_nat_nat_be)
qed

lemma u16_to_from_be [simp]: "length bs = 2 \<Longrightarrow> u16_to_be (u16_from_be bs) = bs"
proof -
  assume len: "length bs = 2"
  then have "be_nat bs < 2 ^ 16" using be_nat_bound [of bs] by simp
  then have "unat (u16_from_be bs) = be_nat bs" by (simp add: u16_from_be_def unat_of_nat)
  then show ?thesis using nat_be_be_nat [of bs] len by (simp add: u16_to_be_def)
qed

lemma length_encode_v4 [simp]: "is_v4 a \<Longrightarrow> length (encode_addr a) = 6"
  by (cases a rule: encode_addr.cases) auto

lemma encode_not_v4 [simp]: "\<not> is_v4 a \<Longrightarrow> encode_addr a = []"
  by (cases a rule: encode_addr.cases) auto

lemma decode_encode_addr [simp]: "is_v4 a \<Longrightarrow> decode_addr (encode_addr a) = Some a"
proof (cases a rule: encode_addr.cases)
  case (1 b c d e port)
  obtain p q where pq: "u16_to_be port = [p, q]"
    by (simp add: u16_to_be_def numeral_2_eq_2)
  then have "u16_from_be [p, q] = port" by (metis u16_from_to_be)
  with 1 pq show ?thesis by (simp add: decode_addr_def)
qed auto

lemma decode_addr_Some: "length bs = 6 \<Longrightarrow> \<exists>a. decode_addr bs = Some a \<and> is_v4 a \<and> encode_addr a = bs"
proof -
  assume "length bs = 6"
  then obtain a b c d p q where "bs = [a, b, c, d, p, q]"
    by (auto simp: numeral_eq_Suc length_Suc_conv)
  then show ?thesis by (simp add: decode_addr_def)
qed

lemma decode_addr_None: "length bs \<noteq> 6 \<Longrightarrow> decode_addr bs = None"
  by (auto simp: decode_addr_def split: list.splits)

lemma encode_peers_concat: "encode_peers ps = concat (map (\<lambda>p. encode_addr (peer_addr p)) ps)"
proof -
  have "fold (\<lambda>p buf. case peer_addr p of
          SockV4 (a, b, c, d) port \<Rightarrow> buf @ [a, b, c, d] @ u16_to_be port
        | SockV6 _ _ _ _ \<Rightarrow> buf) ps buf = buf @ concat (map (\<lambda>p. encode_addr (peer_addr p)) ps)" for buf
    by (induction ps arbitrary: buf) (auto split: socket_addr.splits)
  then show ?thesis by (simp add: encode_peers_def)
qed

definition encode_entry :: "(id_bytes, dht_node) entry_view \<Rightarrow> bytes" where
  "encode_entry e =
     (let a = dn_addr (node_value (ev_node e))
      in if is_v4 a then preimage (node_key (ev_node e)) @ encode_addr a else [])"

lemma encode_entries_concat: "encode_entries es = concat (map encode_entry es)"
proof -
  have "fold (\<lambda>e buf. case dn_addr (node_value (ev_node e)) of
          SockV4 (a, b, c, d) port \<Rightarrow>
            buf @ preimage (node_key (ev_node e)) @ [a, b, c, d] @ u16_to_be port
        | SockV6 _ _ _ _ \<Rightarrow> buf) es buf = buf @ concat (map encode_entry es)" for buf
    by (induction es arbitrary: buf) (auto simp: encode_entry_def split: socket_addr.splits)
  then show ?thesis by (simp add: encode_entries_def)
qed

lemma decode_peers_filter: "decode_peers buf = List.map_filter decode_addr (chunks 6 buf)"
proof -
  have "fold (\<lambda>p peers. case decode_addr p of Some a \<Rightarrow> peers @ [a] | None \<Rightarrow> peers) cs acc =
      acc @ List.map_filter decode_addr cs" for cs acc
    by (induction cs arbitrary: acc) (auto simp: map_filter_simps split: option.splits)
  then show ?thesis by (simp add: decode_peers_def)
qed

lemma chunks_concat_nonempty:
  assumes "0 < n" and "\<forall>ys \<in> set yss. ys = [] \<or> length ys = n"
  shows "chunks n (concat yss) = filter (\<lambda>ys. ys \<noteq> []) yss"
  using assms by (induction yss) (auto simp: chunks_append_full)

lemma decode_peers_rec:
  "decode_peers buf =
     (if 6 \<le> length buf then the (decode_addr (take 6 buf)) # decode_peers (drop 6 buf) else [])"
proof (cases "6 \<le> length buf")
  case True
  then have "chunks 6 buf = take 6 buf # chunks 6 (drop 6 buf)" by (subst chunks.simps) auto
  moreover obtain a where "decode_addr (take 6 buf) = Some a" using decode_addr_Some [of "take 6 buf"] True by auto
  ultimately show ?thesis using True by (simp add: decode_peers_filter map_filter_simps)
next
  case False
  then have "chunks 6 buf = (if buf = [] then [] else [buf])" by (subst chunks.simps) simp
  with False show ?thesis by (simp add: decode_peers_filter map_filter_simps decode_addr_None)
qed

lemma peer_id_roundtrip:
  assumes "length i = 32" and "is_v4 a"
  shows "peer_id_try_from (i @ encode_addr a) = Inr (Some \<lparr>pid_addr = a, pid_id = i\<rparr>)"
  using assms by (simp add: peer_id_try_from_def id_bytes_try_from_def)

lemma peer_id_try_from_total: "\<exists>r. peer_id_try_from buf = Inr r \<and> (r = None \<longleftrightarrow> length buf \<noteq> 38)"
  using decode_addr_Some [of "drop 32 buf"]
  by (auto simp: peer_id_try_from_def id_bytes_try_from_def)

lemma decode_peer_ids_loop_all:
  assumes "\<forall>c \<in> set cs. peer_id_try_from c = Inr (Some (f c))"
  shows "decode_peer_ids_loop cs acc = Inr (acc @ map f cs)"
  using assms by (induction cs arbitrary: acc) auto

lemma decode_peer_ids_loop_total: "\<exists>r. decode_peer_ids_loop cs acc = Inr r \<and>
    length r = length acc + length (filter (\<lambda>c. length c = 38) cs)"
proof (induction cs arbitrary: acc)
  case (Cons c cs)
  obtain r where "peer_id_try_from c = Inr r" "r = None \<longleftrightarrow> length c \<noteq> 38"
    using peer_id_try_from_total by metis
  then show ?case using Cons.IH [of acc] Cons.IH [of "acc @ [the r]"] by (cases r) auto
qed simp

lemma trailing_zeros_2: "2 \<le> trailing_zeros n \<longleftrightarrow> 4 dvd n"
proof -
  have u: "[0..<64] = 0 # 1 # [2..<64]" by (simp add: upt_conv_Cons)
  have "4 dvd n \<longleftrightarrow> even n \<and> even (n div 2)" by presburger
  then show ?thesis by (simp add: trailing_zeros_def u)
qed

lemma decode_local_loop_panics:
  assumes "\<exists>i \<in> set is. length buf < i + 4"
  shows "decode_local_loop o0 o1 buf is peers = Inl IndexOutOfBounds"
  using assms
proof (induction "is" arbitrary: peers)
  case (Cons i js)
  show ?case
  proof (cases "length buf < i + 4")
    case False
    with Cons have "decode_local_loop o0 o1 buf js ps = Inl IndexOutOfBounds" for ps by auto
    with False show ?thesis by (simp add: slice_range_def)
  qed (simp add: slice_range_def)
qed simp

section \<open>Round trips\<close>

text \<open>Decoding an encoded list of peers gives their addresses back in order, without the
  IPv6 ones, which the encoding leaves out.\<close>

lemma decode_encode_peers:
  "decode_peers (encode_peers ps) = filter is_v4 (map peer_addr ps)"
proof -
  have "\<forall>ys \<in> set (map (\<lambda>p. encode_addr (peer_addr p)) ps). ys = [] \<or> length ys = 6"
    using length_encode_v4 encode_not_v4 by (metis (no_types, lifting) imageE list.set_map)
  then have c: "chunks 6 (encode_peers ps) = filter (\<lambda>ys. ys \<noteq> []) (map (\<lambda>p. encode_addr (peer_addr p)) ps)"
    unfolding encode_peers_concat by (intro chunks_concat_nonempty) auto
  have "encode_addr a \<noteq> [] \<longleftrightarrow> is_v4 a" for a
    using length_encode_v4 [of a] encode_not_v4 [of a] by (cases "is_v4 a") fastforce+
  then show ?thesis unfolding decode_peers_filter c by (induction ps) (auto simp: map_filter_simps)
qed

lemma decode_encode_addrs: "decode_peers (concat (map encode_addr as)) = filter is_v4 as"
  using decode_encode_peers [of "map peer_from as"] by (simp add: encode_peers_concat comp_def peer_from_def)

text \<open>Any buffer can be decoded to peers: there is one IPv4 address for each full group of
  six bytes, and encoding them again gives the buffer without an incomplete last group.\<close>

lemma peers_decode_encode:
  "length (decode_peers buf) = length buf div 6 \<and> list_all is_v4 (decode_peers buf) \<and>
   encode_peers (map peer_from (decode_peers buf)) = take (6 * (length buf div 6)) buf"
proof (induction "length buf" arbitrary: buf rule: less_induct)
  case less
  show ?case
  proof (cases "6 \<le> length buf")
    case True
    obtain a where a: "decode_addr (take 6 buf) = Some a" "is_v4 a" "encode_addr a = take 6 buf"
      using decode_addr_Some [of "take 6 buf"] True by auto
    have "length buf div 6 = Suc (length (drop 6 buf) div 6)" using True by (simp add: le_div_geq)
    moreover have "take (6 + n) buf = take 6 buf @ take n (drop 6 buf)" for n by (rule take_add)
    ultimately show ?thesis using True a less [of "drop 6 buf"]
      by (subst (1 2 3) decode_peers_rec) (simp add: encode_peers_concat peer_from_def)
  qed (simp add: decode_peers_rec [of buf] encode_peers_concat)
qed

text \<open>The nodes of a \<^verbatim>\<open>FIND_NODE\<close> answer: entries whose ids are 32 bytes, encoded and
  decoded, give the id and address of each entry with an IPv4 address, in order.\<close>

lemma decode_encode_entries:
  assumes "\<forall>e \<in> set es. length (preimage (node_key (ev_node e))) = 32"
  shows "decode_peer_ids (encode_entries es) =
    Inr (map (\<lambda>e. \<lparr>pid_addr = dn_addr (node_value (ev_node e)), pid_id = preimage (node_key (ev_node e))\<rparr>)
      (filter (\<lambda>e. is_v4 (dn_addr (node_value (ev_node e)))) es))"
proof -
  let ?a = "\<lambda>e. dn_addr (node_value (ev_node e))" and ?i = "\<lambda>e. preimage (node_key (ev_node e))"
  let ?es = "filter (\<lambda>e. is_v4 (?a e)) es"
  have "\<forall>ys \<in> set (map encode_entry es). ys = [] \<or> length ys = 38"
    using assms by (auto simp: encode_entry_def Let_def)
  then have "chunks 38 (encode_entries es) = filter (\<lambda>ys. ys \<noteq> []) (map encode_entry es)"
    unfolding encode_entries_concat by (intro chunks_concat_nonempty) auto
  also have "\<dots> = map (\<lambda>e. ?i e @ encode_addr (?a e)) ?es"
    using assms by (induction es) (auto simp: encode_entry_def Let_def)
  finally have c: "chunks 38 (encode_entries es) = map (\<lambda>e. ?i e @ encode_addr (?a e)) ?es" .
  have "decode_peer_ids_loop (map (\<lambda>e. ?i e @ encode_addr (?a e)) xs) acc =
      Inr (acc @ map (\<lambda>e. \<lparr>pid_addr = ?a e, pid_id = ?i e\<rparr>) xs)" if "set xs \<subseteq> set ?es" for xs acc
    using that assms by (induction xs arbitrary: acc) (auto simp: peer_id_roundtrip)
  from this [of ?es "[]"] c show ?thesis by (simp add: decode_peer_ids_def)
qed

text \<open>\<^verbatim>\<open>decode_local_peers\<close> never returns a peer: for a buffer of whole four-byte groups its
  guard returns the empty list, and for every other buffer it panics when it slices the last,
  incomplete group.\<close>

lemma decode_local_peers_outcome:
  "decode_local_peers local_ip buf = (if 4 dvd length buf then Inr [] else Inl IndexOutOfBounds)"
proof (cases "4 dvd length buf")
  case False
  let ?n = "(length buf + 3) div 4"
  have "0 < ?n" "length buf < 4 * (?n - 1) + 4" using False by presburger+
  then have "\<exists>i \<in> set (map (\<lambda>k. 4 * k) [0..<?n]). length buf < i + 4"
    by (intro bexI [of _ "4 * (?n - 1)"]) auto
  with False show ?thesis
    by (cases local_ip) (simp only: decode_local_peers_def trailing_zeros_2 decode_local_loop_panics, simp)
qed (simp add: decode_local_peers_def trailing_zeros_2)

end
