(* ===== verification/Query_Fixed.thy ===== *)
theory Query_Fixed
  imports Peers_Codec
begin

text \<open>
  Model of \<^verbatim>\<open>src/rpc/query/fixed.rs\<close> and \<^verbatim>\<open>src/rpc/query/peers.rs\<close>: the iterator that hands out
  the peers a query contacts, with a bound on the number of outstanding requests.  The lemmas
  follow the iterator through any sequence of calls: the peers are handed out in order and once, the counter of
  outstanding requests is exact and bounded, and the iterator finishes by itself exactly when
  every peer was handed out and has reported.
\<close>

section \<open>Data\<close>

datatype peers_iter_state =
    IterWaiting "peer option"
  | IterAtCapacity
  | IterFinished

datatype fixed_state = FWaiting nat | FFinished

datatype fixed_peer_state = PWaiting | PFailed | PSucceeded

record fixed_peers_iter =
  fp_parallelism :: nat
  fp_peers :: "(peer, fixed_peer_state) hmap"
  fp_iter :: "peer list"
  fp_state :: fixed_state

section \<open>Operations\<close>

definition fixed_new :: "peer list \<Rightarrow> nat \<Rightarrow> fixed_peers_iter" where
  "fixed_new peers parallelism =
     \<lparr>fp_parallelism = parallelism, fp_peers = [], fp_iter = peers, fp_state = FWaiting 0\<rparr>"

definition fixed_on_success :: "peer \<Rightarrow> fixed_peers_iter \<Rightarrow> (bool \<times> fixed_peers_iter) res" where
  "fixed_on_success p it =
     (case fp_state it of
        FWaiting num_waiting \<Rightarrow>
          if hm_get (fp_peers it) p = Some PWaiting
          then res_bind (usize_sub num_waiting 1) (\<lambda>n.
                 Inr (True, it\<lparr>fp_peers := hm_insert p PSucceeded (fp_peers it), fp_state := FWaiting n\<rparr>))
          else Inr (False, it)
      | FFinished \<Rightarrow> Inr (False, it))"

definition fixed_on_failure :: "peer \<Rightarrow> fixed_peers_iter \<Rightarrow> (bool \<times> fixed_peers_iter) res" where
  "fixed_on_failure p it =
     (case fp_state it of
        FWaiting num_waiting \<Rightarrow>
          if hm_get (fp_peers it) p = Some PWaiting
          then res_bind (usize_sub num_waiting 1) (\<lambda>n.
                 Inr (True, it\<lparr>fp_peers := hm_insert p PFailed (fp_peers it), fp_state := FWaiting n\<rparr>))
          else Inr (False, it)
      | FFinished \<Rightarrow> Inr (False, it))"

definition fixed_finish :: "fixed_peers_iter \<Rightarrow> fixed_peers_iter" where
  "fixed_finish it = (case fp_state it of FWaiting _ \<Rightarrow> it\<lparr>fp_state := FFinished\<rparr> | FFinished \<Rightarrow> it)"

definition fixed_is_finished :: "fixed_peers_iter \<Rightarrow> bool" where
  "fixed_is_finished it \<longleftrightarrow> fp_state it = FFinished"

text \<open>The loop of \<^verbatim>\<open>next\<close> on the backlog.\<close>

fun fixed_next_loop :: "nat \<Rightarrow> peer list \<Rightarrow> fixed_peers_iter \<Rightarrow> peers_iter_state \<times> fixed_peers_iter" where
  "fixed_next_loop num_waiting [] it =
     (if num_waiting = 0 then (IterFinished, it\<lparr>fp_iter := [], fp_state := FFinished\<rparr>)
      else (IterWaiting None, it\<lparr>fp_iter := []\<rparr>))"
| "fixed_next_loop num_waiting (p # ps) it =
     (case hm_get (fp_peers it) p of
        Some _ \<Rightarrow> fixed_next_loop num_waiting ps it
      | None \<Rightarrow>
          (IterWaiting (Some p),
           it\<lparr>fp_iter := ps, fp_peers := hm_insert p PWaiting (fp_peers it), fp_state := FWaiting (num_waiting + 1)\<rparr>))"

definition fixed_next :: "fixed_peers_iter \<Rightarrow> peers_iter_state \<times> fixed_peers_iter" where
  "fixed_next it =
     (case fp_state it of
        FFinished \<Rightarrow> (IterFinished, it)
      | FWaiting num_waiting \<Rightarrow>
          if fp_parallelism it \<le> num_waiting then (IterAtCapacity, it)
          else fixed_next_loop num_waiting (fp_iter it) it)"

text \<open>The order in which \<^verbatim>\<open>into_result\<close> yields the peers is that of the hash map.\<close>

definition fixed_into_result :: "fixed_peers_iter \<Rightarrow> peer list" where
  "fixed_into_result it = map fst (filter (\<lambda>(p, s). s = PSucceeded) (fp_peers it))"

section \<open>Sequences of calls\<close>

datatype fixed_op = FNext | FSuccess peer | FFailure peer | FFinish

datatype fixed_out = FState peers_iter_state | FBool bool | FUnit

fun fixed_step :: "fixed_op \<Rightarrow> fixed_peers_iter \<Rightarrow> (fixed_out \<times> fixed_peers_iter) res" where
  "fixed_step FNext it = (let (s, it') = fixed_next it in Inr (FState s, it'))"
| "fixed_step (FSuccess p) it = res_bind (fixed_on_success p it) (\<lambda>(b, it'). Inr (FBool b, it'))"
| "fixed_step (FFailure p) it = res_bind (fixed_on_failure p it) (\<lambda>(b, it'). Inr (FBool b, it'))"
| "fixed_step FFinish it = Inr (FUnit, fixed_finish it)"

text \<open>The peers handed out, in order.\<close>

fun emitted_of :: "fixed_out \<Rightarrow> peer list" where
  "emitted_of (FState (IterWaiting (Some p))) = [p]"
| "emitted_of _ = []"

definition emitted :: "fixed_out list \<Rightarrow> peer list" where
  "emitted outs = concat (map emitted_of outs)"

text \<open>A list of peers without the repetitions, each peer at its first place.\<close>

fun firsts :: "'a list \<Rightarrow> 'a list" where
  "firsts [] = []"
| "firsts (x # xs) = x # filter (\<lambda>y. y \<noteq> x) (firsts xs)"

lemma set_firsts [simp]: "set (firsts xs) = set xs"
  by (induction xs) auto

text \<open>The peers in a backlog that are not in \<open>em\<close>, in the order in which they come.\<close>

definition left_over :: "peer list \<Rightarrow> peer list \<Rightarrow> peer list" where
  "left_over em ps = filter (\<lambda>p. p \<notin> set em) (firsts ps)"

lemma left_over_simps [simp]:
  "left_over em [] = []" "left_over [] ps = firsts ps"
  "p \<in> set em \<Longrightarrow> left_over em (p # ps) = left_over em ps"
  "p \<notin> set em \<Longrightarrow> left_over em (p # ps) = p # left_over (em @ [p]) ps"
  by (simp_all add: left_over_def) (rule filter_cong, auto)+

lemma left_over_set: "firsts initial = em @ left_over em ps \<Longrightarrow> set initial = set em \<union> set ps"
proof -
  assume "firsts initial = em @ left_over em ps"
  then have "set (firsts initial) = set em \<union> (set ps - set em)" by (auto simp: left_over_def)
  then show ?thesis by simp
qed

definition num_outstanding :: "fixed_peers_iter \<Rightarrow> nat" where
  "num_outstanding it = hm_sum (\<lambda>s. if s = PWaiting then 1 else 0) (fp_peers it)"

definition fixed_inv :: "peer list \<Rightarrow> fixed_out list \<Rightarrow> fixed_peers_iter \<Rightarrow> bool" where
  "fixed_inv initial outs it \<longleftrightarrow>
     synced (fp_peers it) (emitted outs) \<and> firsts initial = emitted outs @ left_over (emitted outs) (fp_iter it) \<and>
     (case fp_state it of
        FWaiting n \<Rightarrow> n = num_outstanding it \<and> n \<le> fp_parallelism it
      | FFinished \<Rightarrow> FUnit \<notin> set outs \<longrightarrow> fp_iter it = [] \<and> num_outstanding it = 0)"

lemma emitted_snoc [simp]: "emitted (outs @ [r]) = emitted outs @ emitted_of r"
  by (simp add: emitted_def)

lemma num_outstanding_insert:
  assumes "hm_ok (fp_peers it)"
  shows "hm_get (fp_peers it) p = Some PWaiting \<Longrightarrow> s \<noteq> PWaiting \<Longrightarrow>
      num_outstanding (it\<lparr>fp_peers := hm_insert p s (fp_peers it), fp_state := st\<rparr>) + 1 = num_outstanding it"
    and "hm_get (fp_peers it) p = None \<Longrightarrow>
      num_outstanding (it\<lparr>fp_iter := ps, fp_peers := hm_insert p PWaiting (fp_peers it), fp_state := st\<rparr>) =
        num_outstanding it + 1"
  using hm_sum_insert [OF assms, of "\<lambda>s. if s = PWaiting then 1 else 0" p s]
    hm_sum_insert [OF assms, of "\<lambda>s. if s = PWaiting then 1 else 0" p PWaiting]
  by (simp_all add: num_outstanding_def)

lemma num_outstanding_iter [simp]:
  "num_outstanding (it\<lparr>fp_iter := ps\<rparr>) = num_outstanding it"
  "num_outstanding (it\<lparr>fp_iter := ps, fp_state := st\<rparr>) = num_outstanding it"
  "num_outstanding (it\<lparr>fp_state := st\<rparr>) = num_outstanding it"
  by (simp_all add: num_outstanding_def)

lemma fixed_next_loop_inv:
  assumes "synced (fp_peers it) (emitted outs)" and "firsts initial = emitted outs @ left_over (emitted outs) ps"
    and "fp_state it = FWaiting (num_outstanding it)" and "num_outstanding it < fp_parallelism it"
    and "fixed_next_loop (num_outstanding it) ps it = (s, it')"
  shows "fixed_inv initial (outs @ [FState s]) it' \<and> fp_parallelism it' = fp_parallelism it \<and>
    (s = IterFinished \<longleftrightarrow> fp_state it' = FFinished) \<and> s \<noteq> IterAtCapacity \<and>
    (s = IterWaiting None \<longrightarrow> num_outstanding it \<noteq> 0)"
  using assms
proof (induction ps)
  case Nil
  then have "(s, it') = (if num_outstanding it = 0 then (IterFinished, it\<lparr>fp_iter := [], fp_state := FFinished\<rparr>)
      else (IterWaiting None, it\<lparr>fp_iter := []\<rparr>))" by simp
  with Nil.prems(1-4) show ?case by (cases "num_outstanding it = 0") (simp_all add: fixed_inv_def)
next
  case (Cons p ps)
  show ?case
  proof (cases "hm_get (fp_peers it) p")
    case None
    have "hm_ok (fp_peers it)" using Cons.prems(1) by (simp add: synced_def)
    note n = num_outstanding_insert(2) [OF this None, where ps = ps and st = "FWaiting (num_outstanding it + 1)"]
    have it': "s = IterWaiting (Some p)" "it' = it\<lparr>fp_iter := ps, fp_peers := hm_insert p PWaiting (fp_peers it),
        fp_state := FWaiting (num_outstanding it + 1)\<rparr>"
      using Cons.prems(5) None by auto
    have "num_outstanding it' = num_outstanding it + 1" unfolding it'(2) by (rule n)
    moreover have "p \<notin> set (emitted outs)" using Cons.prems(1) None by (auto simp: synced_def hm_keys_def hm_get_def map_of_eq_None_iff)
    ultimately show ?thesis using it' Cons.prems(2,4) synced_insert_new [OF Cons.prems(1) None, of PWaiting]
      by (simp add: fixed_inv_def)
  next
    case (Some x)
    then have "p \<in> set (emitted outs)" using Cons.prems(1) by (auto simp: synced_def dest: hm_get_keysD)
    with Cons.IH Cons.prems Some show ?thesis by auto
  qed
qed

lemma fixed_next_inv:
  assumes "fixed_inv initial outs it" and "fixed_next it = (s, it')"
  shows "fixed_inv initial (outs @ [FState s]) it' \<and> fp_parallelism it' = fp_parallelism it"
proof (cases "fp_state it")
  case (FWaiting n)
  show ?thesis
  proof (cases "fp_parallelism it \<le> n")
    case True
    with FWaiting assms show ?thesis by (auto simp: fixed_next_def fixed_inv_def)
  next
    case False
    with FWaiting assms have n: "n = num_outstanding it" and "fixed_next_loop n (fp_iter it) it = (s, it')"
      by (auto simp: fixed_next_def fixed_inv_def)
    with fixed_next_loop_inv [of it outs initial "fp_iter it" s it'] assms FWaiting False show ?thesis
      by (simp add: fixed_inv_def)
  qed
next
  case FFinished
  with assms show ?thesis by (auto simp: fixed_next_def fixed_inv_def)
qed

lemma fixed_report_inv:
  assumes "fixed_inv initial outs it" and "hm_get (fp_peers it) p = Some PWaiting" "fp_state it = FWaiting n" "s \<noteq> PWaiting"
  shows "1 \<le> n \<and> fixed_inv initial (outs @ [FBool b])
    (it\<lparr>fp_peers := hm_insert p s (fp_peers it), fp_state := FWaiting (n - 1)\<rparr>)"
proof -
  have "hm_ok (fp_peers it)" using assms(1) by (simp add: fixed_inv_def synced_def)
  from num_outstanding_insert(1) [OF this assms(2,4), of "FWaiting (n - 1)"] assms show ?thesis
    by (auto simp: fixed_inv_def synced_update)
qed

interpretation fixed_iter: traced_steps fixed_step "\<lambda>outs it. fixed_inv initial outs it" "\<lambda>_. True"
proof
  fix outs it op
  assume inv: "fixed_inv initial outs it"
  show "\<exists>r it'. fixed_step op it = Inr (r, it') \<and> fixed_inv initial (outs @ [r]) it'"
  proof (cases op)
    case FNext
    obtain s it' where "fixed_next it = (s, it')" by fastforce
    with fixed_next_inv [OF inv this] FNext show ?thesis by simp
  next
    case (FSuccess p)
    with inv fixed_report_inv [OF inv, of p _ PSucceeded True] show ?thesis
      by (auto simp: fixed_on_success_def fixed_inv_def split: fixed_state.splits)
  next
    case (FFailure p)
    with inv fixed_report_inv [OF inv, of p _ PFailed True] show ?thesis
      by (auto simp: fixed_on_failure_def fixed_inv_def split: fixed_state.splits)
  next
    case FFinish
    with inv show ?thesis by (auto simp: fixed_finish_def fixed_inv_def split: fixed_state.splits)
  qed
qed

lemma fixed_new_inv: "fixed_inv peers [] (fixed_new peers parallelism)"
  by (simp add: fixed_inv_def fixed_new_def emitted_def num_outstanding_def hm_sum_def)

lemma fixed_next_loop_peers:
  "fixed_next_loop n ps it = (s, it') \<Longrightarrow> (\<forall>p. s \<noteq> IterWaiting (Some p)) \<Longrightarrow> fp_peers it' = fp_peers it"
  by (induction n ps it rule: fixed_next_loop.induct) (auto split: if_splits option.splits)

lemma fixed_next_facts:
  assumes inv: "fixed_inv initial outs it" and nxt: "fixed_next it = (s, it')"
  shows "(s = IterWaiting None \<longrightarrow> 0 < num_outstanding it \<and> num_outstanding it' = num_outstanding it) \<and>
    (s = IterAtCapacity \<longrightarrow> num_outstanding it = fp_parallelism it \<and> it' = it) \<and>
    (\<forall>p. s = IterWaiting (Some p) \<longrightarrow> p \<in> set initial \<and> p \<notin> set (emitted outs)) \<and>
    (s = IterFinished \<longrightarrow> fixed_is_finished it')"
proof -
  have inv': "fixed_inv initial (outs @ [FState s]) it'" using fixed_next_inv [OF inv nxt] by simp
  then have "set initial = set (emitted (outs @ [FState s])) \<union> set (fp_iter it')" unfolding fixed_inv_def by (intro left_over_set) blast
  with inv' have "\<forall>p. s = IterWaiting (Some p) \<longrightarrow> p \<in> set initial \<and> p \<notin> set (emitted outs)"
    by (auto simp: fixed_inv_def synced_def)
  moreover have "(s = IterWaiting None \<longrightarrow> 0 < num_outstanding it \<and> num_outstanding it' = num_outstanding it) \<and>
      (s = IterAtCapacity \<longrightarrow> num_outstanding it = fp_parallelism it \<and> it' = it) \<and>
      (s = IterFinished \<longrightarrow> fixed_is_finished it')"
  proof (cases "fp_state it")
    case (FWaiting n)
    then have n: "n = num_outstanding it" "n \<le> fp_parallelism it" using inv by (auto simp: fixed_inv_def)
    show ?thesis
    proof (cases "n < fp_parallelism it")
      case True
      then have "fixed_next_loop (num_outstanding it) (fp_iter it) it = (s, it')"
        using nxt FWaiting n by (simp add: fixed_next_def)
      with fixed_next_loop_inv [of it outs initial "fp_iter it" s it'] inv FWaiting n True
        fixed_next_loop_peers [of "num_outstanding it" "fp_iter it" it s it'] show ?thesis
        by (auto simp: fixed_inv_def fixed_is_finished_def num_outstanding_def)
    qed (use nxt FWaiting n in \<open>auto simp: fixed_next_def\<close>)
  qed (use nxt in \<open>auto simp: fixed_next_def fixed_is_finished_def\<close>)
  ultimately show ?thesis by blast
qed

text \<open>The peers of the backlog that were not handed out yet, and when there is nothing left to do or to
  wait for.  \<^verbatim>\<open>next\<close> hands out the first such peer, unless the parallelism is used up.\<close>

definition unasked :: "fixed_peers_iter \<Rightarrow> peer list" where
  "unasked it = filter (\<lambda>p. hm_get (fp_peers it) p = None) (fp_iter it)"

definition iter_over :: "fixed_peers_iter \<Rightarrow> bool" where
  "iter_over it \<longleftrightarrow> fixed_is_finished it \<or> 0 < fp_parallelism it \<and> unasked it = [] \<and> num_outstanding it = 0"

lemma fixed_next_loop_answer:
  "fst (fixed_next_loop n ps it) =
     (case filter (\<lambda>p. hm_get (fp_peers it) p = None) ps of
        p # _ \<Rightarrow> IterWaiting (Some p)
      | [] \<Rightarrow> if n = 0 then IterFinished else IterWaiting None)"
  by (induction n ps it rule: fixed_next_loop.induct) (auto split: option.splits)

lemma fixed_next_answer:
  assumes "fixed_inv initial outs it"
  shows "fst (fixed_next it) =
    (if iter_over it then IterFinished
     else if fp_parallelism it \<le> num_outstanding it then IterAtCapacity
     else IterWaiting (case unasked it of p # _ \<Rightarrow> Some p | [] \<Rightarrow> None))"
proof (cases "fp_state it")
  case (FWaiting n)
  then have "n = num_outstanding it" using assms by (simp add: fixed_inv_def)
  then show ?thesis using FWaiting
    by (auto simp: fixed_next_def fixed_next_loop_answer iter_over_def fixed_is_finished_def unasked_def split: list.splits)
qed (simp add: fixed_next_def iter_over_def fixed_is_finished_def)

lemma fixed_next_asks:
  assumes "fixed_next it = (IterWaiting (Some p), it')"
  shows "hm_get (fp_peers it') p = Some PWaiting"
proof -
  have "hm_get (fp_peers (snd (fixed_next_loop n ps i))) p = Some PWaiting"
    if "fst (fixed_next_loop n ps i) = IterWaiting (Some p)" for n ps i
    using that by (induction n ps i rule: fixed_next_loop.induct) (auto split: option.splits if_splits)
  from this [of _ "fp_iter it" it] assms show ?thesis by (auto simp: fixed_next_def split: fixed_state.splits if_splits) (metis fst_conv snd_conv)
qed

section \<open>Properties\<close>

text \<open>C26. Any sequence of calls on a new iterator, with reports for any peers in any order, runs
  without the counter underflowing.  The peers handed out are an initial part of the given list without
  its repetitions, so they come in the given order, and no peer is handed out twice; the number of
  peers handed out that have not reported never exceeds the parallelism and is the counter the
  iterator keeps; and if the iterator is finished without a call of \<^verbatim>\<open>finish\<close>, then all given peers
  were handed out and have reported.\<close>

theorem fixed_iter_run:
  "\<exists>outs it. run_ops fixed_step ops (fixed_new peers parallelism) = Inr (outs, it) \<and>
     emitted outs = take (length (emitted outs)) (firsts peers) \<and> distinct (emitted outs) \<and>
     (\<forall>n. fp_state it = FWaiting n \<longrightarrow> n = num_outstanding it \<and> n \<le> fp_parallelism it) \<and>
     (fixed_is_finished it \<and> FUnit \<notin> set outs \<longrightarrow>
        emitted outs = firsts peers \<and> (\<forall>p \<in> set peers. hm_get (fp_peers it) p \<in> {Some PFailed, Some PSucceeded}))"
proof -
  from fixed_iter.run_traced [OF fixed_new_inv [of peers parallelism], of ops] obtain outs it where
    r: "run_ops fixed_step ops (fixed_new peers parallelism) = Inr (outs, it)" and inv: "fixed_inv peers outs it"
    by auto
  have "hm_get (fp_peers it) p \<in> {Some PFailed, Some PSucceeded}"
    if em: "p \<in> set (emitted outs)" and zero: "num_outstanding it = 0" for p
  proof -
    have "synced (fp_peers it) (emitted outs)" using inv by (simp add: fixed_inv_def)
    then obtain s where s: "hm_get (fp_peers it) p = Some s" using em synced_get by metis
    then have "(p, s) \<in> set (fp_peers it)" by (simp add: hm_get_def map_of_SomeD)
    then have "s \<noteq> PWaiting" using zero by (auto simp: num_outstanding_def hm_sum_def)
    with s show ?thesis by (cases s) auto
  qed
  moreover have "firsts peers = emitted outs @ left_over (emitted outs) (fp_iter it)" using inv by (simp add: fixed_inv_def)
  moreover from this have "set peers = set (emitted outs) \<union> set (fp_iter it)" by (rule left_over_set)
  ultimately show ?thesis using inv r
    by (auto simp: fixed_inv_def fixed_is_finished_def synced_def split: fixed_state.splits)
qed

theorem fixed_iter_run_witness:
  "\<exists>outs it. run_ops fixed_step [FNext, FNext, FSuccess (peer_from (SockV4 (1, 2, 3, 4) 80)), FSuccess (peer_from (SockV4 (1, 2, 3, 4) 90)), FNext]
      (fixed_new [peer_from (SockV4 (1, 2, 3, 4) 80), peer_from (SockV4 (1, 2, 3, 4) 80), peer_from (SockV4 (1, 2, 3, 4) 90)] 3) = Inr (outs, it) \<and>
     fixed_is_finished it \<and> emitted outs = [peer_from (SockV4 (1, 2, 3, 4) 80), peer_from (SockV4 (1, 2, 3, 4) 90)]"
proof -
  let ?p = "peer_from (SockV4 (1, 2, 3, 4) 80)" and ?q = "peer_from (SockV4 (1, 2, 3, 4) 90)"
  let ?ops = "[FNext, FNext, FSuccess ?p, FSuccess ?q, FNext]"
  obtain outs it where run: "run_ops fixed_step ?ops (fixed_new [?p, ?p, ?q] 3) = Inr (outs, it)"
    and fin: "fixed_is_finished it \<and> FUnit \<notin> set outs \<longrightarrow> emitted outs = firsts [?p, ?p, ?q]"
    using fixed_iter_run [of ?ops "[?p, ?p, ?q]" 3] by blast
  have "fixed_is_finished it \<and> FUnit \<notin> set outs"
    using run by (auto simp: fixed_next_def fixed_new_def fixed_on_success_def hm_insert_def hm_get_def peer_from_def fixed_is_finished_def)
  with fin run show ?thesis by (auto simp: peer_from_def)
qed

text \<open>C27. The iterator does not stall: in a state that calls on a new iterator lead to, with
  a positive parallelism, \<^verbatim>\<open>next\<close> answers without a new peer only while some request is
  outstanding, and answers that it is at capacity only while as many requests as the parallelism
  allows are outstanding.\<close>

theorem fixed_next_progress:
  assumes "run_ops fixed_step ops (fixed_new peers parallelism) = Inr (outs, it)"
    and "fixed_next it = (s, it')" and "0 < fp_parallelism it"
  shows "(s = IterWaiting None \<longrightarrow> 0 < num_outstanding it) \<and>
    (s = IterAtCapacity \<longrightarrow> num_outstanding it = fp_parallelism it) \<and>
    (\<forall>p. s = IterWaiting (Some p) \<longrightarrow> p \<in> set peers \<and> p \<notin> set (emitted outs)) \<and>
    (s = IterFinished \<longrightarrow> fixed_is_finished it')"
proof -
  have "fixed_inv peers outs it"
    using fixed_iter.run_traced [OF fixed_new_inv [of peers parallelism], of ops] assms(1) by auto
  from fixed_next_facts [OF this assms(2)] show ?thesis by auto
qed

theorem fixed_next_progress_witness:
  "\<exists>outs it s it'. run_ops fixed_step [FNext] (fixed_new [peer_from (SockV4 (1, 2, 3, 4) 80)] 1) = Inr (outs, it) \<and>
     fixed_next it = (s, it') \<and> s = IterAtCapacity \<and> num_outstanding it = fp_parallelism it"
proof -
  let ?p = "peer_from (SockV4 (1, 2, 3, 4) 80)"
  let ?it = "\<lparr>fp_parallelism = 1, fp_peers = [(?p, PWaiting)], fp_iter = [], fp_state = FWaiting 1\<rparr>"
  have r: "run_ops fixed_step [FNext] (fixed_new [?p] 1) = Inr ([FState (IterWaiting (Some ?p))], ?it)"
    by (simp add: fixed_next_def fixed_new_def hm_insert_def)
  have n: "fixed_next ?it = (IterAtCapacity, ?it)" by (simp add: fixed_next_def)
  from r n fixed_next_progress [OF r n] show ?thesis by auto
qed

end
