(* ===== verification/Query_Table.thy ===== *)
theory Query_Table
  imports Query_Fixed
begin

text \<open>
  Model of \<^verbatim>\<open>src/rpc/query/table.rs\<close>: the peers a query knows, with the state of each.

  Keys are compared by their bytes only, so the hash map from keys to states is a map from key
  bytes to the stored key and its state; as in \<^verbatim>\<open>HashMap::insert\<close>, an insertion at a key that is
  there replaces the state and keeps the stored key.  Where the code iterates over the map, the
  argument \<open>order\<close> is the order in which it meets the entries; the lemmas assume only that it
  is a permutation.
\<close>

section \<open>Data\<close>

datatype peer_state =
    NotContacted
  | FailedPeer
  | SucceededPeer (ps_token: bytes) (ps_to: "socket_addr option")

type_synonym peer_entry = "peer_id key \<times> peer_state"
type_synonym peer_order = "(keybytes \<times> peer_entry) list \<Rightarrow> (keybytes \<times> peer_entry) list"

record query_table =
  qt_id :: "id_bytes key"
  qt_target :: "id_bytes key"
  qt_peers :: "(keybytes, peer_entry) hmap"

definition ps_is_verified :: "peer_state \<Rightarrow> bool" where
  "ps_is_verified s \<longleftrightarrow> (case s of SucceededPeer _ _ \<Rightarrow> True | _ \<Rightarrow> False)"

definition ps_is_not_contacted :: "peer_state \<Rightarrow> bool" where
  "ps_is_not_contacted s \<longleftrightarrow> s = NotContacted"

definition ps_get_token :: "peer_state \<Rightarrow> bytes option" where
  "ps_get_token s = (case s of SucceededPeer token _ \<Rightarrow> Some token | _ \<Rightarrow> None)"

section \<open>Operations\<close>

text \<open>\<^verbatim>\<open>HashMap::insert\<close> with keys that compare by their bytes.\<close>

definition kmap_insert ::
  "peer_id key \<Rightarrow> peer_state \<Rightarrow> (keybytes, peer_entry) hmap \<Rightarrow> (keybytes, peer_entry) hmap" where
  "kmap_insert k s m =
     hm_insert (key_bytes k)
       (case hm_get m (key_bytes k) of Some (k0, _) \<Rightarrow> (k0, s) | None \<Rightarrow> (k, s)) m"

definition qt_new :: "id_bytes key \<Rightarrow> id_bytes key \<Rightarrow> peer_id key list \<Rightarrow> query_table" where
  "qt_new i target known =
     \<lparr>qt_id = i, qt_target = target, qt_peers = fold (\<lambda>k m. kmap_insert k NotContacted m) known []\<rparr>"

definition entry_addr :: "keybytes \<times> peer_entry \<Rightarrow> socket_addr" where
  "entry_addr e = pid_addr (preimage (fst (snd e)))"

definition qt_get_peer :: "peer_order \<Rightarrow> query_table \<Rightarrow> peer \<Rightarrow> peer option" where
  "qt_get_peer order t p =
     (case filter (\<lambda>e. entry_addr e = peer_addr p) (order (qt_peers t)) of
        e # _ \<Rightarrow> Some (peer_from (entry_addr e))
      | [] \<Rightarrow> None)"

definition qt_get_token :: "peer_order \<Rightarrow> query_table \<Rightarrow> peer \<Rightarrow> bytes option" where
  "qt_get_token order t p =
     (case filter (\<lambda>e. entry_addr e = peer_addr p) (order (qt_peers t)) of
        e # _ \<Rightarrow> ps_get_token (snd (snd e))
      | [] \<Rightarrow> None)"

definition unverified_peers_iter :: "peer_order \<Rightarrow> query_table \<Rightarrow> nat \<Rightarrow> fixed_peers_iter" where
  "unverified_peers_iter order t parallelism =
     fixed_new
       (map (\<lambda>e. peer_from (entry_addr e))
         (filter (\<lambda>e. ps_is_not_contacted (snd (snd e))) (order (qt_peers t))))
       parallelism"

definition closest_peers_iter :: "peer_order \<Rightarrow> query_table \<Rightarrow> nat \<Rightarrow> fixed_peers_iter" where
  "closest_peers_iter order t parallelism =
     (let peers = map (\<lambda>e. fst (snd e)) (filter (\<lambda>e. ps_is_verified (snd (snd e))) (order (qt_peers t)));
          sorted_peers = sort_key (\<lambda>a. key_distance (qt_target t) (key_bytes a)) peers
      in fixed_new (map (\<lambda>k. peer_from (pid_addr (preimage k))) (take K_VALUE sorted_peers)) parallelism)"

definition add_unverified :: "(bytes \<Rightarrow> bytes) \<Rightarrow> peer_id \<Rightarrow> query_table \<Rightarrow> query_table" where
  "add_unverified sha p t =
     (if pid_id p = preimage (qt_id t) then t
      else t\<lparr>qt_peers := kmap_insert (key_new sha pid_id p) NotContacted (qt_peers t)\<rparr>)"

definition add_verified :: "peer_id key \<Rightarrow> bytes \<Rightarrow> socket_addr option \<Rightarrow> query_table \<Rightarrow> query_table" where
  "add_verified k token to t =
     (if key_eq k (qt_id t) then t
      else case hm_get (qt_peers t) (key_bytes k) of
             Some (k0, _) \<Rightarrow>
               t\<lparr>qt_peers := hm_insert (key_bytes k) (k0, SucceededPeer token to) (qt_peers t)\<rparr>
           | None \<Rightarrow>
               t\<lparr>qt_peers := kmap_insert k (SucceededPeer token to) (qt_peers t)\<rparr>)"

definition set_all_not_contacted :: "query_table \<Rightarrow> query_table" where
  "set_all_not_contacted t = t\<lparr>qt_peers := map (\<lambda>(kb, k, s). (kb, k, NotContacted)) (qt_peers t)\<rparr>"

definition qt_into_result :: "peer_order \<Rightarrow> query_table \<Rightarrow> (peer_id \<times> peer_state) list" where
  "qt_into_result order t = map (\<lambda>(kb, k, s). (into_preimage k, s)) (order (qt_peers t))"

section \<open>Invariant\<close>

text \<open>Every entry is stored under the hash of its peer id, no entry is the node itself.\<close>

definition qt_ok :: "(bytes \<Rightarrow> bytes) \<Rightarrow> query_table \<Rightarrow> bool" where
  "qt_ok sha t \<longleftrightarrow>
     hm_ok (qt_peers t) \<and> key_bytes (qt_id t) = sha (preimage (qt_id t)) \<and>
     (\<forall>kb k s. (kb, k, s) \<in> set (qt_peers t) \<longrightarrow>
        kb = key_bytes k \<and> kb = sha (pid_id (preimage k)) \<and> pid_id (preimage k) \<noteq> preimage (qt_id t))"

lemma set_hm_insert:
  assumes "hm_ok m"
  shows "set (hm_insert k v m) = insert (k, v) {e \<in> set m. fst e \<noteq> k}"
proof -
  have "e \<in> set (hm_insert k v m) \<longleftrightarrow> hm_get (hm_insert k v m) (fst e) = Some (snd e)" for e
    using hm_ok_insert [OF assms, of k v] by (cases e) (simp add: hm_get_def hm_ok_def)
  moreover have "e \<in> set m \<longleftrightarrow> hm_get m (fst e) = Some (snd e)" for e
    using assms by (cases e) (simp add: hm_get_def hm_ok_def)
  ultimately show ?thesis by (auto split: if_splits)
qed

lemma qt_ok_put:
  assumes "qt_ok sha t" and "kb = key_bytes k" "kb = sha (pid_id (preimage k))" "pid_id (preimage k) \<noteq> preimage (qt_id t)"
  shows "qt_ok sha (t\<lparr>qt_peers := hm_insert kb (k, s) (qt_peers t)\<rparr>)"
proof -
  have "hm_ok (qt_peers t)" using assms(1) by (simp add: qt_ok_def)
  from set_hm_insert [OF this, of kb "(k, s)"] assms show ?thesis by (auto simp: qt_ok_def)
qed

lemma qt_ok_get:
  assumes "qt_ok sha t" and "hm_get (qt_peers t) kb = Some (k, s)"
  shows "kb = key_bytes k \<and> kb = sha (pid_id (preimage k)) \<and> pid_id (preimage k) \<noteq> preimage (qt_id t)"
  using assms map_of_SomeD [of "qt_peers t" kb "(k, s)"] by (auto simp: qt_ok_def hm_get_def)

lemma qt_ok_update:
  assumes "qt_ok sha t" and "hm_get (qt_peers t) kb = Some (k0, s0)"
  shows "qt_ok sha (t\<lparr>qt_peers := hm_insert kb (k0, s) (qt_peers t)\<rparr>)"
  using qt_ok_get [OF assms] by (intro qt_ok_put [OF assms(1)]) blast+

lemma qt_ok_kmap_insert:
  assumes "qt_ok sha t" and "key_bytes k = sha (pid_id (preimage k))" "pid_id (preimage k) \<noteq> preimage (qt_id t)"
  shows "qt_ok sha (t\<lparr>qt_peers := kmap_insert k s (qt_peers t)\<rparr>)"
proof (cases "hm_get (qt_peers t) (key_bytes k)")
  case None
  with assms show ?thesis by (simp add: kmap_insert_def qt_ok_put)
next
  case (Some e)
  obtain k0 s0 where e: "e = (k0, s0)" by fastforce
  with Some show ?thesis using qt_ok_update [OF assms(1)] by (simp add: kmap_insert_def)
qed

lemma add_unverified_ok: "qt_ok sha t \<Longrightarrow> qt_ok sha (add_unverified sha p t)"
  using qt_ok_kmap_insert [of sha t "key_new sha pid_id p"]
  by (auto simp: add_unverified_def key_new_def keybytes_new_def)

lemma add_verified_ok:
  assumes "qt_ok sha t" and k: "key_bytes k = sha (pid_id (preimage k))"
  shows "qt_ok sha (add_verified k token to t)"
proof (cases "key_eq k (qt_id t)")
  case False
  then have ne: "pid_id (preimage k) \<noteq> preimage (qt_id t)"
    using assms by (auto simp: key_eq_def qt_ok_def)
  show ?thesis
  proof (cases "hm_get (qt_peers t) (key_bytes k)")
    case None
    with False qt_ok_kmap_insert [OF assms ne] show ?thesis by (simp add: add_verified_def)
  next
    case (Some e)
    obtain k0 s0 where e: "e = (k0, s0)" by fastforce
    with False Some show ?thesis using qt_ok_update [OF assms(1)] by (simp add: add_verified_def)
  qed
qed (simp add: add_verified_def assms)

lemma set_all_not_contacted_ok: "qt_ok sha t \<Longrightarrow> qt_ok sha (set_all_not_contacted t)"
proof -
  assume ok: "qt_ok sha t"
  have "map fst (map (\<lambda>(kb, k, s). (kb, k, NotContacted)) m) = map fst m" for m :: "(keybytes, peer_entry) hmap"
    by (induction m) auto
  then have "hm_ok (map (\<lambda>(kb, k, s). (kb, k, NotContacted)) (qt_peers t))"
    using ok by (simp only: qt_ok_def hm_ok_def)
  moreover have "kb = key_bytes k \<and> kb = sha (pid_id (preimage k)) \<and> pid_id (preimage k) \<noteq> preimage (qt_id t)"
    if "(kb, k, s) \<in> (\<lambda>(kb, k, s). (kb, k, NotContacted)) ` set (qt_peers t)" for kb k s
  proof -
    from that obtain s' where "(kb, k, s') \<in> set (qt_peers t)" by auto
    with ok show ?thesis unfolding qt_ok_def by blast
  qed
  ultimately show ?thesis using ok unfolding qt_ok_def set_all_not_contacted_def by simp
qed

lemma qt_new_ok:
  assumes "key_bytes i = sha (preimage i)"
    and "\<forall>k \<in> set known. key_bytes k = sha (pid_id (preimage k)) \<and> pid_id (preimage k) \<noteq> preimage i"
  shows "qt_ok sha (qt_new i target known)"
proof -
  have "qt_ok sha \<lparr>qt_id = i, qt_target = target, qt_peers = fold (\<lambda>k m. kmap_insert k NotContacted m) ks m\<rparr>"
    if "set ks \<subseteq> set known" "qt_ok sha \<lparr>qt_id = i, qt_target = target, qt_peers = m\<rparr>" for ks m
    using that
  proof (induction ks arbitrary: m)
    case (Cons k ks)
    from Cons.prems have "qt_ok sha (\<lparr>qt_id = i, qt_target = target, qt_peers = m\<rparr>
        \<lparr>qt_peers := kmap_insert k NotContacted (qt_peers \<lparr>qt_id = i, qt_target = target, qt_peers = m\<rparr>)\<rparr>)"
      using assms(2) by (intro qt_ok_kmap_insert) auto
    with Cons show ?case by simp
  qed simp
  from this [of known "[]"] show ?thesis using assms(1) by (simp add: qt_new_def) (simp add: qt_ok_def)
qed

section \<open>The closest verified peers\<close>

definition verified_keys :: "(keybytes \<times> peer_entry) list \<Rightarrow> peer_id key list" where
  "verified_keys es = map (\<lambda>e. fst (snd e)) (filter (\<lambda>e. ps_is_verified (snd (snd e))) es)"

lemma verified_keys_distinct:
  assumes "qt_ok sha t" and "mset es = mset (qt_peers t)"
  shows "distinct (map key_bytes (verified_keys es))"
proof -
  have "set es = set (qt_peers t)" using assms(2) by (rule mset_eq_setD)
  then have fst: "fst e = key_bytes (fst (snd e))" if "e \<in> set es" for e
    using assms(1) that unfolding qt_ok_def by (metis prod.collapse)
  have "mset (map fst es) = mset (map fst (qt_peers t))" using assms(2) by simp
  then have "distinct (map fst es)" using assms(1) by (metis mset_eq_imp_distinct_iff qt_ok_def hm_ok_def)
  then have "distinct (map fst (filter (\<lambda>e. ps_is_verified (snd (snd e))) es))" by (rule distinct_map_filter)
  moreover have "map key_bytes (verified_keys es) = map fst (filter (\<lambda>e. ps_is_verified (snd (snd e))) es)"
    using fst by (auto simp: verified_keys_def)
  ultimately show ?thesis by simp
qed

lemma sorted_keys_strict:
  fixes target :: "id_bytes key"
  assumes "qt_ok sha t" and "\<And>x. length (sha x) = 32" and "mset es = mset (qt_peers t)"
  defines "d \<equiv> \<lambda>a. key_distance target (key_bytes a)"
  shows "sorted_wrt (\<lambda>a b. d a < d b) (sort_key d (verified_keys es))"
proof -
  let ?ks = "sort_key d (verified_keys es)"
  have set: "set es = set (qt_peers t)" using assms(3) by (rule mset_eq_setD)
  have "is_key (key_bytes k)" if "k \<in> set (verified_keys es)" for k
  proof -
    from that obtain kb s where "(kb, k, s) \<in> set (qt_peers t)" by (auto simp: verified_keys_def set)
    then show ?thesis using assms(1,2) unfolding qt_ok_def by metis
  qed
  then have "\<forall>b \<in> set (map key_bytes ?ks). is_key b" by auto
  moreover have "distinct (map key_bytes ?ks)"
    using verified_keys_distinct [OF assms(1,3)] by (simp add: distinct_map)
  moreover have "sorted (map (keybytes_distance (key_bytes target)) (map key_bytes ?ks))"
    using sorted_sort_key [of d "verified_keys es"] by (simp add: d_def key_distance_def comp_def)
  ultimately have "sorted_wrt (\<lambda>a b. keybytes_distance (key_bytes target) a < keybytes_distance (key_bytes target) b) (map key_bytes ?ks)"
    by (intro kad.sorted_distinct_strict) auto
  then show ?thesis by (simp add: sorted_wrt_map d_def key_distance_def)
qed

lemma sort_key_order_irrelevant:
  fixes f :: "'a \<Rightarrow> 'b::linorder"
  assumes "sorted_wrt (\<lambda>a b. f a < f b) (sort_key f xs)" and "sorted_wrt (\<lambda>a b. f a < f b) (sort_key f ys)"
    and "set xs = set ys"
  shows "sort_key f xs = sort_key f ys"
proof -
  have strict: "sorted_wrt (<) (map f (sort_key f zs))" if "sorted_wrt (\<lambda>a b. f a < f b) (sort_key f zs)" for zs
    using that by (simp add: sorted_wrt_map)
  have inj: "inj_on f (set xs)"
    using strict [OF assms(1)] by (simp add: strict_sorted_iff distinct_map)
  show ?thesis
    by (rule map_sorted_distinct_set_unique [of f])
      (use inj assms strict in \<open>auto simp: strict_sorted_iff\<close>)
qed

section \<open>Properties\<close>

text \<open>C28. The peers an update is sent to.  The backlog of \<^verbatim>\<open>closest_peers_iter\<close> does not depend on
  the iteration order of the hash map.  It lists the addresses of verified peers in strictly
  increasing distance to the target, as many as there are up to 20, and every verified peer that
  is left out is farther from the target than all that are listed.  The hash is any function
  with 32-byte results.\<close>

theorem closest_peers_selection:
  assumes ok: "qt_ok sha t" and sha: "\<And>x. length (sha x) = 32"
    and order: "mset (order (qt_peers t)) = mset (qt_peers t)"
  shows "closest_peers_iter order t n = closest_peers_iter id t n \<and>
    (\<exists>ks. fp_iter (closest_peers_iter order t n) = map (\<lambda>k. peer_from (pid_addr (preimage k))) ks \<and>
       sorted_wrt (\<lambda>a b. key_distance (qt_target t) (key_bytes a) < key_distance (qt_target t) (key_bytes b)) ks \<and>
       length ks = min 20 (length (verified_keys (qt_peers t))) \<and> set ks \<subseteq> set (verified_keys (qt_peers t)) \<and>
       (\<forall>k \<in> set ks. \<forall>k' \<in> set (verified_keys (qt_peers t)) - set ks.
          key_distance (qt_target t) (key_bytes k) < key_distance (qt_target t) (key_bytes k')))"
proof -
  let ?d = "\<lambda>a. key_distance (qt_target t) (key_bytes a)"
  let ?L = "verified_keys (order (qt_peers t))" and ?M = "verified_keys (qt_peers t)"
  have m: "mset ?L = mset ?M" using order by (simp add: verified_keys_def)
  have strict: "sorted_wrt (\<lambda>a b. ?d a < ?d b) (sort_key ?d ?L)" "sorted_wrt (\<lambda>a b. ?d a < ?d b) (sort_key ?d ?M)"
    using sorted_keys_strict [OF ok sha] order by blast+
  have eq: "sort_key ?d ?L = sort_key ?d ?M"
    using strict mset_eq_setD [OF m] by (intro sort_key_order_irrelevant)
  have it: "closest_peers_iter o' t n = fixed_new (map (\<lambda>k. peer_from (pid_addr (preimage k)))
      (take K_VALUE (sort_key ?d (verified_keys (o' (qt_peers t)))))) n" for o'
    by (simp add: closest_peers_iter_def verified_keys_def Let_def)
  let ?F = "\<lambda>ks. fixed_new (map (\<lambda>k. peer_from (pid_addr (preimage k))) (take K_VALUE ks)) n"
  have it1: "closest_peers_iter order t n = ?F (sort_key ?d ?M)" using it [of order] by (simp only: eq)
  have it0: "closest_peers_iter id t n = ?F (sort_key ?d ?M)" using it [of id] by (simp only: id_apply)
  let ?ks = "take 20 (sort_key ?d ?M)"
  have split: "sort_key ?d ?M = ?ks @ drop 20 (sort_key ?d ?M)" by simp
  have rest: "?d k < ?d k'" if "k \<in> set ?ks" "k' \<in> set ?M - set ?ks" for k k'
  proof -
    have "k' \<in> set (sort_key ?d ?M)" using that(2) by simp
    then have "k' \<in> set (drop 20 (sort_key ?d ?M))" using that(2) split by (metis Diff_iff Un_iff set_append)
    moreover have "sorted_wrt (\<lambda>a b. ?d a < ?d b) (?ks @ drop 20 (sort_key ?d ?M))"
      using strict(2) by (simp only: append_take_drop_id)
    ultimately show ?thesis using that(1) unfolding sorted_wrt_append by blast
  qed
  have "sorted_wrt (\<lambda>a b. ?d a < ?d b) ?ks" using strict(2) by (rule sorted_wrt_take)
  moreover have "set ?ks \<subseteq> set ?M" using set_take_subset [of 20 "sort_key ?d ?M"] by simp
  moreover have "fp_iter (closest_peers_iter order t n) = map (\<lambda>k. peer_from (pid_addr (preimage k))) ?ks"
    unfolding it1 by (simp add: fixed_new_def K_VALUE_def)
  moreover have "length ?ks = min 20 (length ?M)" by (simp add: min.commute)
  moreover have "closest_peers_iter order t n = closest_peers_iter id t n"
    unfolding it1 it0 by (rule refl)
  ultimately show ?thesis using rest by blast
qed

text \<open>What a query learns about its peers.  Reporting a verified peer that is not the node
  itself makes it verified with the given token; mentioning a peer makes it uncontacted, also
  when it was verified before; neither changes any other entry or adds the node itself.\<close>

lemma table_learns_peers:
  assumes "qt_ok sha t" and "p = preimage k" and "k = key_new sha pid_id p"
  shows "(\<not> key_eq k (qt_id t) \<longrightarrow>
      (\<exists>k0. hm_get (qt_peers (add_verified k token to t)) (key_bytes k) = Some (k0, SucceededPeer token to) \<and> key_eq k0 k)) \<and>
    (pid_id p \<noteq> preimage (qt_id t) \<longrightarrow>
      (\<exists>k0. hm_get (qt_peers (add_unverified sha p t)) (key_bytes k) = Some (k0, NotContacted) \<and> key_eq k0 k)) \<and>
    (\<forall>kb. kb \<noteq> key_bytes k \<longrightarrow> hm_get (qt_peers (add_verified k token to t)) kb = hm_get (qt_peers t) kb \<and>
       hm_get (qt_peers (add_unverified sha p t)) kb = hm_get (qt_peers t) kb) \<and>
    qt_ok sha (add_verified k token to t) \<and> qt_ok sha (add_unverified sha p t)"
proof -
  have kb: "key_bytes k = sha (pid_id (preimage k))" using assms(2,3) by (metis key.select_convs(2) key_new_def keybytes_new_def)
  have old: "key_eq k0 k" if "hm_get (qt_peers t) (key_bytes k) = Some (k0, s0)" for k0 s0
    using qt_ok_get [OF assms(1) that] by (simp add: key_eq_def)
  have "key_bytes (key_new sha pid_id p) = key_bytes k" using assms(3) by simp
  then show ?thesis
    using add_verified_ok [OF assms(1) kb, of token to] add_unverified_ok [OF assms(1), of p] old
    by (auto simp: add_verified_def add_unverified_def kmap_insert_def key_eq_def split: option.splits)
qed

definition sample_hash :: "bytes \<Rightarrow> bytes" where
  "sample_hash x = take 32 (x @ replicate 32 0)"

definition sample_table :: query_table where
  "sample_table = qt_new \<lparr>preimage = [2], key_bytes = sample_hash [2]\<rparr> \<lparr>preimage = [3], key_bytes = sample_hash [3]\<rparr> []"

lemma sample_table_ok: "qt_ok sample_hash sample_table"
  unfolding sample_table_def by (rule qt_new_ok) simp_all

lemma table_learns_peers_witness:
  "\<exists>k0. hm_get (qt_peers (add_unverified sample_hash \<lparr>pid_addr = SockV4 (1, 2, 3, 4) 80, pid_id = [1]\<rparr> sample_table))
      (sample_hash [1]) = Some (k0, NotContacted)"
  using table_learns_peers [OF sample_table_ok, of "\<lparr>pid_addr = SockV4 (1, 2, 3, 4) 80, pid_id = [1]\<rparr>"
      "key_new sample_hash pid_id \<lparr>pid_addr = SockV4 (1, 2, 3, 4) 80, pid_id = [1]\<rparr>" "[]" None]
  by (auto simp: key_new_def keybytes_new_def sample_table_def qt_new_def)

text \<open>A table with two verified peers.\<close>

definition sample_peer :: "u8 \<Rightarrow> peer_id key" where
  "sample_peer n = key_new sample_hash pid_id \<lparr>pid_addr = SockV4 (10, 0, 0, n) 80, pid_id = [n]\<rparr>"

definition sample_verified :: query_table where
  "sample_verified = add_verified (sample_peer 7) [9] None (add_verified (sample_peer 1) [8] None
     (sample_table\<lparr>qt_id := \<lparr>preimage = [4], key_bytes = sample_hash [4]\<rparr>\<rparr>))"

lemma sample_peer_bytes: "key_bytes (sample_peer n) = sample_hash (pid_id (preimage (sample_peer n)))"
  by (simp add: sample_peer_def key_new_def keybytes_new_def)

lemma sample_hash_hd: "sample_hash [n] = n # replicate 31 0"
  by (simp add: sample_hash_def numeral_eq_Suc)

lemma sample_verified_peers: "qt_peers sample_verified = [(sample_hash [1], sample_peer 1, SucceededPeer [8] None), (sample_hash [7], sample_peer 7, SucceededPeer [9] None)]"
  by (simp add: sample_verified_def sample_table_def qt_new_def add_verified_def key_eq_def kmap_insert_def hm_insert_def hm_get_def
      sample_peer_def key_new_def keybytes_new_def sample_hash_hd)

lemma sample_verified_ok: "qt_ok sample_hash sample_verified"
proof -
  have "qt_ok sample_hash (sample_table\<lparr>qt_id := \<lparr>preimage = [4], key_bytes = sample_hash [4]\<rparr>\<rparr>)"
    by (simp add: qt_ok_def sample_table_def qt_new_def)
  then show ?thesis unfolding sample_verified_def by (intro add_verified_ok sample_peer_bytes)
qed

theorem closest_peers_selection_witness:
  "\<exists>ks. fp_iter (closest_peers_iter rev sample_verified 3) = map (\<lambda>k. peer_from (pid_addr (preimage k))) ks \<and>
     set ks = {sample_peer 1, sample_peer 7} \<and>
     sorted_wrt (\<lambda>a b. key_distance (qt_target sample_verified) (key_bytes a) < key_distance (qt_target sample_verified) (key_bytes b)) ks"
proof -
  have sha: "length (sample_hash x) = 32" for x by (simp add: sample_hash_def)
  have v: "verified_keys (qt_peers sample_verified) = [sample_peer 1, sample_peer 7]"
    by (simp add: sample_verified_peers verified_keys_def ps_is_verified_def)
  obtain ks where ks: "fp_iter (closest_peers_iter rev sample_verified 3) = map (\<lambda>k. peer_from (pid_addr (preimage k))) ks"
    "sorted_wrt (\<lambda>a b. key_distance (qt_target sample_verified) (key_bytes a) < key_distance (qt_target sample_verified) (key_bytes b)) ks"
    "length ks = 2" "set ks \<subseteq> {sample_peer 1, sample_peer 7}"
    using closest_peers_selection [OF sample_verified_ok sha, of rev 3] unfolding v by auto
  then obtain a b where "ks = [a, b]" by (auto simp: numeral_2_eq_2 length_Suc_conv)
  then show ?thesis using ks by (intro exI [of _ ks]) auto
qed

end
