(* ===== verification/Rpc_Message.thy ===== *)
theory Rpc_Message
  imports Peers_Codec
begin

text \<open>
  Model of \<^verbatim>\<open>src/rpc/message.rs\<close>: the messages of the protocol with their accessors, the message
  types, the commands and the holepunch payload.  The wire format is that of the \<^verbatim>\<open>prost\<close>
  library; its encoder and decoder of a payload type are arguments where the code calls them.
\<close>

section \<open>Types and commands\<close>

datatype msg_type = TQuery | TUpdate | TResponse

fun type_id :: "msg_type \<Rightarrow> int" where
  "type_id TQuery = 1"
| "type_id TUpdate = 2"
| "type_id TResponse = 3"

datatype command = Ping | FindNode | HolepunchCmd | UnknownCmd string

definition command_is_ping :: "command \<Rightarrow> bool" where
  "command_is_ping c \<longleftrightarrow> c = Ping"

definition command_is_find_node :: "command \<Rightarrow> bool" where
  "command_is_find_node c \<longleftrightarrow> c = FindNode"

definition command_is_holepunch :: "command \<Rightarrow> bool" where
  "command_is_holepunch c \<longleftrightarrow> c = HolepunchCmd"

fun command_is_custom :: "command \<Rightarrow> string \<Rightarrow> bool" where
  "command_is_custom (UnknownCmd cmd) s = (cmd = s)"
| "command_is_custom _ s = False"

definition command_from :: "string \<Rightarrow> command" where
  "command_from s =
     (if s = ''_holepunch'' then HolepunchCmd
      else if s = ''_find_node'' then FindNode
      else if s = ''_ping'' then Ping
      else UnknownCmd s)"

fun command_display :: "command \<Rightarrow> string" where
  "command_display Ping = ''_ping''"
| "command_display FindNode = ''_find_node''"
| "command_display HolepunchCmd = ''_holepunch''"
| "command_display (UnknownCmd s) = s"

section \<open>Holepunch payload\<close>

record holepunch =
  hp_from :: "bytes option"
  hp_to :: "bytes option"

definition holepunch_new :: "bytes \<Rightarrow> bytes \<Rightarrow> holepunch" where
  "holepunch_new f t = \<lparr>hp_from = Some f, hp_to = Some t\<rparr>"

definition holepunch_with_from :: "bytes \<Rightarrow> holepunch" where
  "holepunch_with_from f = \<lparr>hp_from = Some f, hp_to = None\<rparr>"

definition holepunch_with_to :: "bytes \<Rightarrow> holepunch" where
  "holepunch_with_to t = \<lparr>hp_from = None, hp_to = Some t\<rparr>"

text \<open>The first decoded peer of an optional field.\<close>

definition first_peer :: "bytes option \<Rightarrow> socket_addr option" where
  "first_peer field =
     (case field of
        None \<Rightarrow> None
      | Some buf \<Rightarrow> (case decode_peers buf of [] \<Rightarrow> None | a # _ \<Rightarrow> Some a))"

definition holepunch_decode_to_peer :: "holepunch \<Rightarrow> socket_addr option" where
  "holepunch_decode_to_peer h = first_peer (hp_to h)"

definition holepunch_decode_from_peer :: "holepunch \<Rightarrow> socket_addr option" where
  "holepunch_decode_from_peer h = first_peer (hp_from h)"

text \<open>\<^verbatim>\<open>Into<Holepunch>\<close> for a peer and for an address, of \<^verbatim>\<open>src/rpc/mod.rs\<close>.\<close>

definition peer_into_holepunch :: "peer \<Rightarrow> holepunch" where
  "peer_into_holepunch p = holepunch_with_from (encode_peer p)"

definition addr_into_holepunch :: "socket_addr \<Rightarrow> holepunch" where
  "addr_into_holepunch a = peer_into_holepunch (peer_from a)"

section \<open>Messages\<close>

record message =
  msg_version :: "u64 option"
  msg_type :: int
  msg_rid :: u64
  msg_to :: "bytes option"
  msg_id :: "bytes option"
  msg_target :: "bytes option"
  msg_closer_nodes :: "bytes option"
  msg_roundtrip_token :: "bytes option"
  msg_command :: "string option"
  msg_error :: "string option"
  msg_value :: "bytes option"

text \<open>The protocol version of \<^verbatim>\<open>rpc/io.rs\<close>.\<close>

definition VERSION :: u64 where
  "VERSION = 1"

definition msg_is_query :: "message \<Rightarrow> bool" where
  "msg_is_query m \<longleftrightarrow> msg_type m = type_id TQuery"

definition msg_is_response :: "message \<Rightarrow> bool" where
  "msg_is_response m \<longleftrightarrow> msg_type m = type_id TResponse"

definition msg_is_update :: "message \<Rightarrow> bool" where
  "msg_is_update m \<longleftrightarrow> msg_type m = type_id TUpdate"

definition valid_key_bytes :: "bytes option \<Rightarrow> id_bytes option res" where
  "valid_key_bytes key =
     (case key of
        Some i \<Rightarrow>
          if length i = 32 then res_bind (expect (id_bytes_try_from i)) (\<lambda>b. Inr (Some b))
          else Inr None
      | None \<Rightarrow> Inr None)"

definition get_to_addr :: "message \<Rightarrow> socket_addr option" where
  "get_to_addr m = first_peer (msg_to m)"

definition get_type :: "message \<Rightarrow> int + msg_type" where
  "get_type m =
     (if msg_type m = 1 then Inr TQuery
      else if msg_type m = 2 then Inr TUpdate
      else if msg_type m = 3 then Inr TResponse
      else Inl (msg_type m))"

definition get_command :: "message \<Rightarrow> command option" where
  "get_command m = map_option command_from (msg_command m)"

definition cmd_eq :: "message \<Rightarrow> string \<Rightarrow> bool" where
  "cmd_eq m name \<longleftrightarrow> (case msg_command m of Some cmd \<Rightarrow> cmd = name | None \<Rightarrow> False)"

definition msg_is_ping :: "message \<Rightarrow> bool" where
  "msg_is_ping m \<longleftrightarrow> cmd_eq m ''_ping''"

definition msg_is_find_node :: "message \<Rightarrow> bool" where
  "msg_is_find_node m \<longleftrightarrow> cmd_eq m ''_find_node''"

definition msg_is_holepunch :: "message \<Rightarrow> bool" where
  "msg_is_holepunch m \<longleftrightarrow> cmd_eq m ''_holepunch''"

definition msg_is_error :: "message \<Rightarrow> bool" where
  "msg_is_error m \<longleftrightarrow> msg_error m \<noteq> None"

definition valid_id_bytes :: "message \<Rightarrow> id_bytes option res" where
  "valid_id_bytes m = valid_key_bytes (msg_id m)"

definition valid_target_id_bytes :: "message \<Rightarrow> id_bytes option res" where
  "valid_target_id_bytes m = valid_key_bytes (msg_target m)"

text \<open>The key of the sender; a peer id is hashed by its id bytes.\<close>

definition msg_key :: "(bytes \<Rightarrow> bytes) \<Rightarrow> message \<Rightarrow> peer \<Rightarrow> peer_id key option res" where
  "msg_key sha m p =
     res_bind (valid_id_bytes m) (\<lambda>r.
       Inr (map_option (\<lambda>i. key_new sha pid_id \<lparr>pid_addr = peer_addr p, pid_id = i\<rparr>) r))"

definition msg_decode_to_peer :: "message \<Rightarrow> socket_addr option" where
  "msg_decode_to_peer m = first_peer (msg_to m)"

definition msg_decode_closer_nodes :: "message \<Rightarrow> peer_id list res" where
  "msg_decode_closer_nodes m =
     (case msg_closer_nodes m of None \<Rightarrow> Inr [] | Some buf \<Rightarrow> decode_peer_ids buf)"

definition msg_decode_value :: "(bytes \<Rightarrow> 'a option) \<Rightarrow> message \<Rightarrow> 'a option" where
  "msg_decode_value decode m = Option.bind (msg_value m) decode"

definition msg_decode_holepunch :: "(bytes \<Rightarrow> holepunch option) \<Rightarrow> message \<Rightarrow> holepunch option" where
  "msg_decode_holepunch decode m = msg_decode_value decode m"

definition msg_set_holepunch :: "(holepunch \<Rightarrow> bytes) \<Rightarrow> holepunch \<Rightarrow> message \<Rightarrow> message" where
  "msg_set_holepunch encode h m = m\<lparr>msg_value := Some (encode h)\<rparr>"

section \<open>Lemmas\<close>

lemma valid_key_bytes_eq [simp]:
  "valid_key_bytes key = Inr (case key of Some i \<Rightarrow> if length i = 32 then Some i else None | None \<Rightarrow> None)"
  by (auto simp: valid_key_bytes_def id_bytes_try_from_def split: option.splits)

lemma msg_key_eq:
  "msg_key sha m p = Inr (case msg_id m of
      Some i \<Rightarrow> if length i = 32 then Some (key_new sha pid_id \<lparr>pid_addr = peer_addr p, pid_id = i\<rparr>) else None
    | None \<Rightarrow> None)"
  by (auto simp: msg_key_def valid_id_bytes_def split: option.splits)

lemma closer_nodes_total: "\<exists>ps. msg_decode_closer_nodes m = Inr ps"
  using decode_peer_ids_loop_total
  by (auto simp: msg_decode_closer_nodes_def decode_peer_ids_def split: option.splits)

lemma first_peer_encode: "is_v4 a \<Longrightarrow> first_peer (Some (encode_addr a)) = Some a"
proof -
  assume v4: "is_v4 a"
  have "decode_peers (encode_addr a) = [a]"
    using v4 by (subst decode_peers_rec) (simp add: decode_peers_rec [of "[]"])
  then show ?thesis by (simp add: first_peer_def)
qed

section \<open>Properties\<close>

text \<open>Commands and their names.  Writing a parsed name gives the name back, for every string;
  parsing a written command gives the command back, except for an unknown command that carries
  one of the three built-in names, which no parsed command does.\<close>

lemma command_roundtrip:
  "command_display (command_from s) = s \<and>
   (command_from (command_display c) = c \<longleftrightarrow>
      c \<notin> {UnknownCmd ''_ping'', UnknownCmd ''_find_node'', UnknownCmd ''_holepunch''}) \<and>
   command_from s \<notin> {UnknownCmd ''_ping'', UnknownCmd ''_find_node'', UnknownCmd ''_holepunch''}"
  by (cases c) (auto simp: command_from_def)

text \<open>C39. A holepunch message carries the peer it is about: for an address that is an IPv4
  address, setting the holepunch payload made from it and decoding the message again gives that
  address as the origin, if decoding inverts encoding for the payload type.\<close>

theorem holepunch_roundtrip:
  assumes prost: "\<And>h. decode (encode h) = Some h" and "is_v4 a"
  shows "\<exists>h. msg_decode_holepunch decode (msg_set_holepunch encode (addr_into_holepunch a) m) = Some h \<and>
    holepunch_decode_from_peer h = Some a \<and> holepunch_decode_to_peer h = None"
  using assms
  by (simp add: msg_decode_holepunch_def msg_decode_value_def msg_set_holepunch_def addr_into_holepunch_def
      peer_into_holepunch_def holepunch_with_from_def holepunch_decode_from_peer_def holepunch_decode_to_peer_def
      encode_peer_def peer_from_def first_peer_encode) (simp add: first_peer_def)

definition sample_message :: message where
  "sample_message = \<lparr>msg_version = Some 1, msg_type = 1, msg_rid = 7, msg_to = None, msg_id = None, msg_target = None,
     msg_closer_nodes = None, msg_roundtrip_token = None, msg_command = Some ''_holepunch'', msg_error = None,
     msg_value = None\<rparr>"

text \<open>A concrete payload format with a tag byte for each field.\<close>

definition sample_encode :: "holepunch \<Rightarrow> bytes" where
  "sample_encode h =
     (case hp_from h of None \<Rightarrow> [0] | Some f \<Rightarrow> concat (map (\<lambda>b. [1, b]) f) @ [2]) @
     (case hp_to h of None \<Rightarrow> [0] | Some t \<Rightarrow> concat (map (\<lambda>b. [1, b]) t) @ [2])"

fun sample_field :: "bytes \<Rightarrow> (bytes \<times> bytes) option" where
  "sample_field (x # xs) =
     (if x = 2 then Some ([], xs)
      else case xs of b # ys \<Rightarrow> map_option (\<lambda>(f, r). (b # f, r)) (sample_field ys) | [] \<Rightarrow> None)"
| "sample_field [] = None"

definition sample_opt :: "bytes \<Rightarrow> (bytes option \<times> bytes) option" where
  "sample_opt bs =
     (case bs of
        x # xs \<Rightarrow> if x = 0 then Some (None, xs) else map_option (\<lambda>(f, r). (Some f, r)) (sample_field bs)
      | [] \<Rightarrow> None)"

definition sample_decode :: "bytes \<Rightarrow> holepunch option" where
  "sample_decode bs =
     Option.bind (sample_opt bs) (\<lambda>(f, r). Option.bind (sample_opt r) (\<lambda>(t, _). Some \<lparr>hp_from = f, hp_to = t\<rparr>))"

lemma sample_field_encode: "sample_field (concat (map (\<lambda>b. [1, b]) f) @ [2] @ r) = Some (f, r)"
  by (induction f) auto

lemma sample_opt_encode:
  "sample_opt ((case f of None \<Rightarrow> [0] | Some f \<Rightarrow> concat (map (\<lambda>b. [1, b]) f) @ [2]) @ r) = Some (f, r)"
proof (cases f)
  case (Some g)
  have "sample_field ((concat (map (\<lambda>b. [1, b]) g) @ [2]) @ r) = Some (g, r)" using sample_field_encode [of g r] by simp
  with Some show ?thesis by (cases g) (auto simp: sample_opt_def)
qed (simp add: sample_opt_def)

lemma sample_decode_encode: "sample_decode (sample_encode h) = Some h"
  using sample_opt_encode [of "hp_from h"] sample_opt_encode [of "hp_to h" "[]"]
  by (simp add: sample_decode_def sample_encode_def)

theorem holepunch_roundtrip_witness:
  "\<exists>h. msg_decode_holepunch sample_decode
      (msg_set_holepunch sample_encode (addr_into_holepunch (SockV4 (1, 2, 3, 4) 80)) sample_message) = Some h \<and>
    holepunch_decode_from_peer h = Some (SockV4 (1, 2, 3, 4) 80) \<and> holepunch_decode_to_peer h = None"
  by (rule holepunch_roundtrip) (simp_all add: sample_decode_encode)

end
