(* ===== verification/Query_Stream.thy ===== *)
theory Query_Stream
  imports Query_Table Rpc_Message
begin

text \<open>
  Model of \<^verbatim>\<open>src/rpc/query/mod.rs\<close>: a running query with its three phases, the statistics of a
  query and the pool of queries.  A query first asks the bootstrap peers, then the peers it heard
  of, and then, if it is an update, sends the update to the closest peers that answered with a
  token.

  The argument \<open>sha\<close> is the hash of peer ids and \<open>order\<close> the iteration order of the hash map of
  peers (theory \<open>Query_Table\<close>).  The counters of the statistics are 32-bit and checked.
\<close>

section \<open>Statistics\<close>

record query_stats =
  st_requests :: nat
  st_success :: nat
  st_failure :: nat
  st_start :: "instant option"
  st_end :: "instant option"

definition u32_add :: "nat \<Rightarrow> nat \<Rightarrow> nat res" where
  "u32_add a b = (if a + b < 2 ^ 32 then Inr (a + b) else Inl ArithOverflow)"

definition stats_empty :: query_stats where
  "stats_empty = \<lparr>st_requests = 0, st_success = 0, st_failure = 0, st_start = None, st_end = None\<rparr>"

definition stats_num_pending :: "query_stats \<Rightarrow> nat res" where
  "stats_num_pending st =
     res_bind (u32_add (st_success st) (st_failure st)) (\<lambda>n. usize_sub (st_requests st) n)"

definition stats_duration :: "instant \<Rightarrow> query_stats \<Rightarrow> duration option res" where
  "stats_duration now st =
     (case st_start st of
        None \<Rightarrow> Inr None
      | Some s \<Rightarrow> res_bind (usize_sub (case st_end st of Some e \<Rightarrow> e | None \<Rightarrow> now) s) (\<lambda>d. Inr (Some d)))"

definition stats_merge :: "query_stats \<Rightarrow> query_stats \<Rightarrow> query_stats res" where
  "stats_merge a b =
     res_bind (u32_add (st_requests a) (st_requests b)) (\<lambda>r.
     res_bind (u32_add (st_success a) (st_success b)) (\<lambda>s.
     res_bind (u32_add (st_failure a) (st_failure b)) (\<lambda>f.
       Inr \<lparr>st_requests = r, st_success = s, st_failure = f,
            st_start = (case (st_start a, st_start b) of
                          (Some x, Some y) \<Rightarrow> Some (min x y)
                        | (Some x, None) \<Rightarrow> Some x
                        | (None, y) \<Rightarrow> y),
            st_end = (case (st_end a, st_end b) of
                        (Some x, Some y) \<Rightarrow> Some (max x y)
                      | (Some x, None) \<Rightarrow> Some x
                      | (None, y) \<Rightarrow> y)\<rparr>)))"

section \<open>Query streams\<close>

datatype query_type = QTQuery | QTUpdate | QTQueryUpdate

definition qtype_is_query :: "query_type \<Rightarrow> bool" where
  "qtype_is_query t \<longleftrightarrow> t = QTQuery \<or> t = QTQueryUpdate"

definition qtype_is_update :: "query_type \<Rightarrow> bool" where
  "qtype_is_update t \<longleftrightarrow> t = QTUpdate \<or> t = QTQueryUpdate"

datatype query_peer_iter =
    Bootstrap fixed_peers_iter
  | MovingCloser fixed_peers_iter
  | Updating fixed_peers_iter

record query_stream =
  qs_id :: u64
  qs_parallelism :: nat
  qs_peer_iter :: query_peer_iter
  qs_cmd :: command
  qs_stats :: query_stats
  qs_ty :: query_type
  qs_value :: "bytes option"
  qs_inner :: query_table

datatype query_event =
    EvQuery peer command id_bytes "bytes option"
  | EvRemoveNode id_bytes
  | EvMissingRoundtripToken peer
  | EvUpdate peer command id_bytes "bytes option" "bytes option"

record response =
  rs_query :: u64
  rs_ty :: query_type
  rs_cmd :: command
  rs_to :: "socket_addr option"
  rs_peer :: socket_addr
  rs_peer_id :: "id_bytes option"
  rs_value :: "bytes option"

fun iter_on_success :: "peer \<Rightarrow> query_peer_iter \<Rightarrow> (bool \<times> query_peer_iter) res" where
  "iter_on_success p (Bootstrap it) = res_bind (fixed_on_success p it) (\<lambda>(b, it'). Inr (b, Bootstrap it'))"
| "iter_on_success p (MovingCloser it) = res_bind (fixed_on_success p it) (\<lambda>(b, it'). Inr (b, MovingCloser it'))"
| "iter_on_success p (Updating it) = res_bind (fixed_on_success p it) (\<lambda>(b, it'). Inr (b, Updating it'))"

fun iter_on_failure :: "peer \<Rightarrow> query_peer_iter \<Rightarrow> (bool \<times> query_peer_iter) res" where
  "iter_on_failure p (Bootstrap it) = res_bind (fixed_on_failure p it) (\<lambda>(b, it'). Inr (b, Bootstrap it'))"
| "iter_on_failure p (MovingCloser it) = res_bind (fixed_on_failure p it) (\<lambda>(b, it'). Inr (b, MovingCloser it'))"
| "iter_on_failure p (Updating it) = res_bind (fixed_on_failure p it) (\<lambda>(b, it'). Inr (b, Updating it'))"

definition qs_bootstrap ::
  "u64 \<Rightarrow> command \<Rightarrow> nat \<Rightarrow> query_type \<Rightarrow> id_bytes key \<Rightarrow> id_bytes key \<Rightarrow> bytes option
     \<Rightarrow> peer_id key list \<Rightarrow> peer list \<Rightarrow> query_stream" where
  "qs_bootstrap i cmd parallelism ty local_id target val peers bootstrap =
     \<lparr>qs_id = i, qs_parallelism = parallelism,
      qs_peer_iter = Bootstrap (fixed_new bootstrap parallelism),
      qs_cmd = cmd, qs_stats = stats_empty, qs_ty = ty, qs_value = val,
      qs_inner = qt_new local_id target peers\<rparr>"

text \<open>The loop over the peers in \<^verbatim>\<open>on_timeout\<close>: the first entry with the address.\<close>

definition mark_failed_addr :: "peer_order \<Rightarrow> socket_addr \<Rightarrow> query_table \<Rightarrow> query_table" where
  "mark_failed_addr order a t =
     (case filter (\<lambda>e. entry_addr e = a) (order (qt_peers t)) of
        [] \<Rightarrow> t
      | (kb, k, s) # _ \<Rightarrow> t\<lparr>qt_peers := hm_insert kb (k, FailedPeer) (qt_peers t)\<rparr>)"

definition qs_on_timeout :: "peer_order \<Rightarrow> peer \<Rightarrow> query_stream \<Rightarrow> query_stream res" where
  "qs_on_timeout order p q =
     res_bind (u32_add (st_failure (qs_stats q)) 1) (\<lambda>f.
     res_bind (iter_on_failure p (qs_peer_iter q)) (\<lambda>(_, it).
       Inr (q\<lparr>qs_stats := (qs_stats q)\<lparr>st_failure := f\<rparr>,
             qs_inner := mark_failed_addr order (peer_addr p) (qs_inner q),
             qs_peer_iter := it\<rparr>)))"

text \<open>\<^verbatim>\<open>inject_response\<close>; \<open>add_token\<close> is the common step of its two last parts, which stores
  the token of the sender.\<close>

definition add_token :: "peer_id key option \<Rightarrow> message \<Rightarrow> query_table \<Rightarrow> query_table" where
  "add_token remote resp t =
     (case (msg_roundtrip_token resp, remote) of
        (Some token, Some k) \<Rightarrow> add_verified k token (msg_decode_to_peer resp) t
      | _ \<Rightarrow> t)"

definition qs_inject_response ::
  "(bytes \<Rightarrow> bytes) \<Rightarrow> message \<Rightarrow> peer \<Rightarrow> query_stream \<Rightarrow> (response option \<times> query_stream) res" where
  "qs_inject_response sha resp p q =
     res_bind (msg_key sha resp p) (\<lambda>remote.
       if msg_is_error resp then
         res_bind (u32_add (st_failure (qs_stats q)) 1) (\<lambda>f.
         res_bind (iter_on_failure p (qs_peer_iter q)) (\<lambda>(_, it).
           let inner = (case remote of
                          Some k \<Rightarrow>
                            (case hm_get (qt_peers (qs_inner q)) (key_bytes k) of
                               Some (k0, _) \<Rightarrow>
                                 (qs_inner q)\<lparr>qt_peers := hm_insert (key_bytes k) (k0, FailedPeer) (qt_peers (qs_inner q))\<rparr>
                             | None \<Rightarrow> qs_inner q)
                        | None \<Rightarrow> qs_inner q)
           in Inr (None, q\<lparr>qs_stats := (qs_stats q)\<lparr>st_failure := f\<rparr>, qs_peer_iter := it, qs_inner := inner\<rparr>)))
       else
         res_bind (u32_add (st_success (qs_stats q)) 1) (\<lambda>s.
         res_bind (iter_on_success p (qs_peer_iter q)) (\<lambda>(_, it).
         res_bind (case it of Bootstrap _ \<Rightarrow> msg_decode_closer_nodes resp | _ \<Rightarrow> Inr []) (\<lambda>nodes.
         let inner = add_token remote resp (fold (add_unverified sha) nodes (qs_inner q));
             q' = q\<lparr>qs_stats := (qs_stats q)\<lparr>st_success := s\<rparr>, qs_peer_iter := it, qs_inner := inner\<rparr>
         in case it of
              Bootstrap _ \<Rightarrow>
                if \<not> qtype_is_query (qs_ty q) then Inr (None, q')
                else res_bind (valid_id_bytes resp) (\<lambda>i.
                  Inr (Some \<lparr>rs_query = qs_id q, rs_ty = qs_ty q, rs_cmd = qs_cmd q, rs_to = msg_decode_to_peer resp,
                             rs_peer = peer_addr p, rs_peer_id = i, rs_value = msg_value resp\<rparr>, q'))
            | _ \<Rightarrow>
                res_bind (valid_id_bytes resp) (\<lambda>i.
                  Inr (Some \<lparr>rs_query = qs_id q, rs_ty = qs_ty q, rs_cmd = qs_cmd q, rs_to = msg_decode_to_peer resp,
                             rs_peer = peer_addr p, rs_peer_id = i, rs_value = msg_value resp\<rparr>, q'))))))"

definition qs_send :: "peer_order \<Rightarrow> peer \<Rightarrow> bool \<Rightarrow> query_stream \<Rightarrow> (query_event \<times> query_stream) res" where
  "qs_send order p update q =
     (let target = preimage (qt_target (qs_inner q))
      in if update then
           (case qt_get_token order (qs_inner q) p of
              Some token \<Rightarrow> Inr (EvUpdate p (qs_cmd q) target (qs_value q) (Some token), q)
            | None \<Rightarrow>
                res_bind (iter_on_failure p (qs_peer_iter q)) (\<lambda>(_, it).
                  Inr (EvMissingRoundtripToken p, q\<lparr>qs_peer_iter := it\<rparr>)))
         else if qtype_is_query (qs_ty q) then Inr (EvQuery p (qs_cmd q) target (qs_value q), q)
         else Inr (EvQuery p FindNode target None, q))"

text \<open>\<^verbatim>\<open>poll_iter\<close> with \<^verbatim>\<open>next_bootstrap\<close>, \<^verbatim>\<open>next_move_closer\<close> and \<^verbatim>\<open>next_update\<close>; each phase calls
  \<^verbatim>\<open>poll_iter\<close> again only after it has moved the query to a later phase.\<close>

fun phase_rank :: "query_peer_iter \<Rightarrow> nat" where
  "phase_rank (Bootstrap _) = 2"
| "phase_rank (MovingCloser _) = 1"
| "phase_rank (Updating _) = 0"

definition send_ready ::
  "peer_order \<Rightarrow> peer \<Rightarrow> bool \<Rightarrow> query_stream \<Rightarrow> (query_event option poll \<times> query_stream) res" where
  "send_ready order p update q =
     res_bind (qs_send order p update q) (\<lambda>(ev, q'). Inr (Ready (Some ev), q'))"

function qs_poll_iter :: "peer_order \<Rightarrow> query_stream \<Rightarrow> (query_event option poll \<times> query_stream) res" where
  "qs_poll_iter order q =
     (case qs_peer_iter q of
        Bootstrap it \<Rightarrow>
          (case fixed_next it of
             (IterWaiting (Some p), it') \<Rightarrow> send_ready order p False (q\<lparr>qs_peer_iter := Bootstrap it'\<rparr>)
           | (IterWaiting None, it') \<Rightarrow> Inr (Pending, q\<lparr>qs_peer_iter := Bootstrap it'\<rparr>)
           | (IterAtCapacity, it') \<Rightarrow> Inr (Pending, q\<lparr>qs_peer_iter := Bootstrap it'\<rparr>)
           | (IterFinished, it') \<Rightarrow>
               qs_poll_iter order
                 (q\<lparr>qs_peer_iter := MovingCloser (unverified_peers_iter order (qs_inner q) (qs_parallelism q))\<rparr>))
      | MovingCloser it \<Rightarrow>
          (case fixed_next it of
             (IterWaiting (Some p), it') \<Rightarrow> send_ready order p False (q\<lparr>qs_peer_iter := MovingCloser it'\<rparr>)
           | (IterWaiting None, it') \<Rightarrow> Inr (Pending, q\<lparr>qs_peer_iter := MovingCloser it'\<rparr>)
           | (IterAtCapacity, it') \<Rightarrow> Inr (Pending, q\<lparr>qs_peer_iter := MovingCloser it'\<rparr>)
           | (IterFinished, it') \<Rightarrow>
               if qtype_is_update (qs_ty q)
               then qs_poll_iter order
                      (q\<lparr>qs_peer_iter := Updating (closest_peers_iter order (qs_inner q) (qs_parallelism q))\<rparr>)
               else Inr (Ready None, q\<lparr>qs_peer_iter := MovingCloser it'\<rparr>))
      | Updating it \<Rightarrow>
          (case fixed_next it of
             (IterWaiting (Some p), it') \<Rightarrow> send_ready order p True (q\<lparr>qs_peer_iter := Updating it'\<rparr>)
           | (IterWaiting None, it') \<Rightarrow> Inr (Pending, q\<lparr>qs_peer_iter := Updating it'\<rparr>)
           | (IterAtCapacity, it') \<Rightarrow> Inr (Pending, q\<lparr>qs_peer_iter := Updating it'\<rparr>)
           | (IterFinished, it') \<Rightarrow> Inr (Ready None, q\<lparr>qs_peer_iter := Updating it'\<rparr>)))"
  by pat_completeness auto
termination
  by (relation "measure (\<lambda>(_, q). phase_rank (qs_peer_iter q))") auto

declare qs_poll_iter.simps [simp del]

section \<open>The pool of queries\<close>

record query_config =
  qc_timeout :: duration
  qc_replication_factor :: nat
  qc_parallelism :: nat

definition ALPHA_VALUE :: nat where
  "ALPHA_VALUE = 3"

text \<open>Durations are in milliseconds.\<close>

definition query_config_default :: query_config where
  "query_config_default = \<lparr>qc_timeout = 60 * 1000, qc_replication_factor = K_VALUE, qc_parallelism = ALPHA_VALUE\<rparr>"

record query_pool =
  qp_local_id :: "id_bytes key"
  qp_queries :: "(u64, query_stream) hmap"
  qp_config :: query_config
  qp_next_id :: u64

datatype query_pool_state =
    PoolIdle
  | PoolWaiting "(u64 \<times> query_event) option"
  | PoolFinished query_stream
  | PoolTimeout query_stream

definition pool_new :: "id_bytes key \<Rightarrow> query_config \<Rightarrow> query_pool" where
  "pool_new local_id config =
     \<lparr>qp_local_id = local_id, qp_queries = [], qp_config = config, qp_next_id = 0\<rparr>"

definition pool_next_query_id :: "query_pool \<Rightarrow> u64 \<times> query_pool" where
  "pool_next_query_id p = (qp_next_id p, p\<lparr>qp_next_id := qp_next_id p + 1\<rparr>)"

definition pool_add_stream ::
  "command \<Rightarrow> peer_id key list \<Rightarrow> query_type \<Rightarrow> id_bytes key \<Rightarrow> bytes option \<Rightarrow> peer list \<Rightarrow> query_pool
     \<Rightarrow> u64 \<times> query_pool" where
  "pool_add_stream cmd peers ty target val bootstrap p =
     (let (i, p1) = pool_next_query_id p;
          q = qs_bootstrap i cmd (qc_parallelism (qp_config p1)) ty (qp_local_id p1) target val peers bootstrap
      in (i, p1\<lparr>qp_queries := hm_insert i q (qp_queries p1)\<rparr>))"

definition pool_get :: "query_pool \<Rightarrow> u64 \<Rightarrow> query_stream option" where
  "pool_get p i = hm_get (qp_queries p) i"

datatype pool_hit = HitWaiting query_event u64 | HitFinished u64 | HitTimeout u64

text \<open>The loop of \<^verbatim>\<open>poll\<close> over the queries, in the order \<open>ids\<close> of the hash map.\<close>

fun pool_loop ::
  "peer_order \<Rightarrow> instant \<Rightarrow> duration \<Rightarrow> u64 list \<Rightarrow> (u64, query_stream) hmap
     \<Rightarrow> (pool_hit option \<times> (u64, query_stream) hmap) res" where
  "pool_loop order now timeout [] qs = Inr (None, qs)"
| "pool_loop order now timeout (i # is) qs =
     res_bind (expect (hm_get qs i)) (\<lambda>q0.
       let start = (case st_start (qs_stats q0) of Some s \<Rightarrow> s | None \<Rightarrow> now);
           q = q0\<lparr>qs_stats := (qs_stats q0)\<lparr>st_start := Some start\<rparr>\<rparr>
       in res_bind (qs_poll_iter order q) (\<lambda>(r, q').
            let qs' = hm_insert i q' qs
            in case r of
                 Ready (Some ev) \<Rightarrow> Inr (Some (HitWaiting ev i), qs')
               | Ready None \<Rightarrow> Inr (Some (HitFinished i), qs')
               | Pending \<Rightarrow>
                   res_bind (usize_sub now start) (\<lambda>elapsed.
                     if timeout \<le> elapsed then Inr (Some (HitTimeout i), qs')
                     else pool_loop order now timeout is qs')))"

definition pool_take :: "instant \<Rightarrow> u64 \<Rightarrow> query_pool \<Rightarrow> (query_stream \<times> query_pool) res" where
  "pool_take now i p =
     res_bind (expect (hm_get (qp_queries p) i)) (\<lambda>q.
       Inr (q\<lparr>qs_stats := (qs_stats q)\<lparr>st_end := Some now\<rparr>\<rparr>, p\<lparr>qp_queries := hm_remove i (qp_queries p)\<rparr>))"

text \<open>The argument \<open>qorder\<close> is the iteration order of the map of queries.\<close>

definition pool_poll ::
  "peer_order \<Rightarrow> ((u64, query_stream) hmap \<Rightarrow> u64 list) \<Rightarrow> instant \<Rightarrow> query_pool
     \<Rightarrow> (query_pool_state \<times> query_pool) res" where
  "pool_poll order qorder now p =
     res_bind (pool_loop order now (qc_timeout (qp_config p)) (qorder (qp_queries p)) (qp_queries p)) (\<lambda>(hit, qs).
       let p' = p\<lparr>qp_queries := qs\<rparr>
       in case hit of
            Some (HitWaiting ev i) \<Rightarrow>
              res_bind (expect (hm_get (qp_queries p') i)) (\<lambda>_. Inr (PoolWaiting (Some (i, ev)), p'))
          | Some (HitFinished i) \<Rightarrow> res_bind (pool_take now i p') (\<lambda>(q, p''). Inr (PoolFinished q, p''))
          | Some (HitTimeout i) \<Rightarrow> res_bind (pool_take now i p') (\<lambda>(q, p''). Inr (PoolTimeout q, p''))
          | None \<Rightarrow> Inr (if qp_queries p' = [] then PoolIdle else PoolWaiting None, p'))"

section \<open>Commands from other nodes\<close>

record command_query =
  cq_rid :: u64
  cq_ty :: msg_type
  cq_command :: string
  cq_peer :: peer
  cq_target :: id_bytes
  cq_value :: "bytes option"

record command_query_response =
  cr_msg :: message
  cr_peer :: peer
  cr_target :: id_bytes

definition response_from :: "command_query \<Rightarrow> command_query_response" where
  "response_from q =
     \<lparr>cr_msg = \<lparr>msg_version = Some VERSION, msg_type = type_id TResponse, msg_rid = cq_rid q,
                msg_to = Some (encode_peer (cq_peer q)), msg_id = None, msg_target = None, msg_closer_nodes = None,
                msg_roundtrip_token = None, msg_command = None, msg_error = None, msg_value = cq_value q\<rparr>,
      cr_peer = cq_peer q, cr_target = cq_target q\<rparr>"

definition into_response_with_error :: "string \<Rightarrow> command_query \<Rightarrow> command_query_response" where
  "into_response_with_error err q =
     (let resp = response_from q in resp\<lparr>cr_msg := (cr_msg resp)\<lparr>msg_error := Some err\<rparr>\<rparr>)"

record query_result =
  qr_inner :: u64
  qr_peers :: "(peer_id \<times> peer_state) list"
  qr_stats :: query_stats
  qr_cmd :: command

definition qs_into_result :: "peer_order \<Rightarrow> query_stream \<Rightarrow> query_result" where
  "qs_into_result order q =
     \<lparr>qr_inner = qs_id q, qr_peers = qt_into_result order (qs_inner q), qr_stats = qs_stats q, qr_cmd = qs_cmd q\<rparr>"

section \<open>Invariant of a query\<close>

definition iter_ok :: "fixed_peers_iter \<Rightarrow> bool" where
  "iter_ok it \<longleftrightarrow> (\<exists>initial outs. fixed_inv initial outs it)"

fun peer_iter_of :: "query_peer_iter \<Rightarrow> fixed_peers_iter" where
  "peer_iter_of (Bootstrap it) = it"
| "peer_iter_of (MovingCloser it) = it"
| "peer_iter_of (Updating it) = it"

definition qs_ok :: "(bytes \<Rightarrow> bytes) \<Rightarrow> query_stream \<Rightarrow> bool" where
  "qs_ok sha q \<longleftrightarrow>
     iter_ok (peer_iter_of (qs_peer_iter q)) \<and> fp_parallelism (peer_iter_of (qs_peer_iter q)) = qs_parallelism q \<and>
     qt_ok sha (qs_inner q)"

lemma iter_ok_new [simp, inv_intros]: "iter_ok (fixed_new ps n)" "fp_parallelism (fixed_new ps n) = n"
  using fixed_new_inv iter_ok_def by (auto simp: fixed_new_def)

lemma iter_ok_next: "iter_ok it \<Longrightarrow> fixed_next it = (s, it') \<Longrightarrow> iter_ok it' \<and> fp_parallelism it' = fp_parallelism it"
  using fixed_next_inv unfolding iter_ok_def by blast

lemma iter_ok_on_success:
  assumes "iter_ok it"
  shows "\<exists>b it'. fixed_on_success p it = Inr (b, it') \<and> iter_ok it' \<and> fp_parallelism it' = fp_parallelism it"
proof -
  obtain initial outs where inv: "fixed_inv initial outs it" using assms by (auto simp: iter_ok_def)
  from fixed_iter.step_traced [OF inv, of "FSuccess p"] obtain b it' where
    "fixed_on_success p it = Inr (b, it')" "\<exists>r. fixed_inv initial (outs @ [r]) it'"
    by (auto simp: res_bind_Inr_iff)
  moreover from this(1) have "fp_parallelism it' = fp_parallelism it"
    by (auto simp: fixed_on_success_def res_bind_Inr_iff split: fixed_state.splits if_splits)
  ultimately show ?thesis by (auto simp: iter_ok_def)
qed

lemma iter_ok_on_failure:
  assumes "iter_ok it"
  shows "\<exists>b it'. fixed_on_failure p it = Inr (b, it') \<and> iter_ok it' \<and> fp_parallelism it' = fp_parallelism it"
proof -
  obtain initial outs where inv: "fixed_inv initial outs it" using assms by (auto simp: iter_ok_def)
  from fixed_iter.step_traced [OF inv, of "FFailure p"] obtain b it' where
    "fixed_on_failure p it = Inr (b, it')" "\<exists>r. fixed_inv initial (outs @ [r]) it'"
    by (auto simp: res_bind_Inr_iff)
  moreover from this(1) have "fp_parallelism it' = fp_parallelism it"
    by (auto simp: fixed_on_failure_def res_bind_Inr_iff split: fixed_state.splits if_splits)
  ultimately show ?thesis by (auto simp: iter_ok_def)
qed

lemma peer_iter_on_success:
  assumes "iter_ok (peer_iter_of it)"
  obtains b it' where "iter_on_success p it = Inr (b, it')" "iter_ok (peer_iter_of it')"
    "fp_parallelism (peer_iter_of it') = fp_parallelism (peer_iter_of it)" "phase_rank it' = phase_rank it"
  using assms iter_ok_on_success [of "peer_iter_of it" p] by (cases it) fastforce+

lemma peer_iter_on_failure:
  assumes "iter_ok (peer_iter_of it)"
  obtains b it' where "iter_on_failure p it = Inr (b, it')" "iter_ok (peer_iter_of it')"
    "fp_parallelism (peer_iter_of it') = fp_parallelism (peer_iter_of it)" "phase_rank it' = phase_rank it"
  using assms iter_ok_on_failure [of "peer_iter_of it" p] by (cases it) fastforce+

lemma fold_add_unverified_ok: "qt_ok sha t \<Longrightarrow> qt_ok sha (fold (add_unverified sha) ps t)"
  by (induction ps arbitrary: t) (auto simp: add_unverified_ok)

lemma msg_key_hashed: "msg_key sha m p = Inr (Some k) \<Longrightarrow> key_bytes k = sha (pid_id (preimage k))"
  by (auto simp: msg_key_eq key_new_def keybytes_new_def split: option.splits if_splits)

lemma add_token_ok: "qt_ok sha t \<Longrightarrow> msg_key sha m p = Inr remote \<Longrightarrow> qt_ok sha (add_token remote m t)"
  by (auto simp: add_token_def intro: add_verified_ok msg_key_hashed split: option.splits)

lemma mark_failed_ok:
  assumes "qt_ok sha t" and "mset (order (qt_peers t)) = mset (qt_peers t)"
  shows "qt_ok sha (mark_failed_addr order a t)"
proof (cases "filter (\<lambda>e. entry_addr e = a) (order (qt_peers t))")
  case (Cons e es)
  obtain kb k s where e: "e = (kb, k, s)" by (metis prod_cases3)
  have "e \<in> set (qt_peers t)" using Cons mset_eq_setD [OF assms(2)] by (metis filter_is_subset list.set_intros(1) subsetD)
  then have "hm_get (qt_peers t) kb = Some (k, s)"
    using assms(1) e by (simp add: qt_ok_def hm_ok_def hm_get_def)
  with qt_ok_update [OF assms(1)] Cons e show ?thesis by (simp add: mark_failed_addr_def)
qed (simp add: mark_failed_addr_def assms)

section \<open>The operations keep the invariant\<close>

lemma qs_on_timeout_ok:
  assumes "qs_ok sha q" and "\<And>m. mset (order m) = mset m" and "st_failure (qs_stats q) + 1 < 2 ^ 32"
  shows "\<exists>q'. qs_on_timeout order p q = Inr q' \<and> qs_ok sha q' \<and> qs_ty q' = qs_ty q \<and> phase_rank (qs_peer_iter q') = phase_rank (qs_peer_iter q) \<and>
    qs_stats q' = (qs_stats q)\<lparr>st_failure := st_failure (qs_stats q) + 1\<rparr>"
proof -
  have "iter_ok (peer_iter_of (qs_peer_iter q))" using assms(1) by (simp add: qs_ok_def)
  then obtain b it' where "iter_on_failure p (qs_peer_iter q) = Inr (b, it')" "iter_ok (peer_iter_of it')"
    "fp_parallelism (peer_iter_of it') = fp_parallelism (peer_iter_of (qs_peer_iter q))"
    "phase_rank it' = phase_rank (qs_peer_iter q)"
    by (rule peer_iter_on_failure)
  with assms mark_failed_ok [of sha "qs_inner q" order "peer_addr p"] show ?thesis
    by (simp add: qs_on_timeout_def u32_add_def qs_ok_def)
qed

lemma qs_inject_response_ok:
  assumes "qs_ok sha q" and "st_failure (qs_stats q) + 1 < 2 ^ 32" "st_success (qs_stats q) + 1 < 2 ^ 32"
  shows "\<exists>r q'. qs_inject_response sha resp p q = Inr (r, q') \<and> qs_ok sha q' \<and> qs_ty q' = qs_ty q \<and>
    phase_rank (qs_peer_iter q') = phase_rank (qs_peer_iter q) \<and>
    qs_stats q' = (if msg_is_error resp then (qs_stats q)\<lparr>st_failure := st_failure (qs_stats q) + 1\<rparr>
                   else (qs_stats q)\<lparr>st_success := st_success (qs_stats q) + 1\<rparr>)"
proof -
  have ok: "iter_ok (peer_iter_of (qs_peer_iter q))" "qt_ok sha (qs_inner q)" using assms(1) by (simp_all add: qs_ok_def)
  obtain remote where remote: "msg_key sha resp p = Inr remote" by (simp add: msg_key_eq)
  show ?thesis
  proof (cases "msg_is_error resp")
    case True
    obtain b it' where it': "iter_on_failure p (qs_peer_iter q) = Inr (b, it')" "iter_ok (peer_iter_of it')"
      "fp_parallelism (peer_iter_of it') = fp_parallelism (peer_iter_of (qs_peer_iter q))"
      "phase_rank it' = phase_rank (qs_peer_iter q)"
      using peer_iter_on_failure [OF ok(1)] by metis
    have "qt_ok sha ((qs_inner q)\<lparr>qt_peers := hm_insert (key_bytes k) (k0, FailedPeer) (qt_peers (qs_inner q))\<rparr>)"
      if "hm_get (qt_peers (qs_inner q)) (key_bytes k) = Some (k0, s0)" for k k0 :: "peer_id key" and s0
      using qt_ok_update [OF ok(2) that] .
    with True it' remote assms ok(2) show ?thesis
      by (auto simp: qs_inject_response_def u32_add_def qs_ok_def Let_def split: option.splits)
  next
    case False
    obtain b it' where it': "iter_on_success p (qs_peer_iter q) = Inr (b, it')" "iter_ok (peer_iter_of it')"
      "fp_parallelism (peer_iter_of it') = fp_parallelism (peer_iter_of (qs_peer_iter q))"
      "phase_rank it' = phase_rank (qs_peer_iter q)"
      using peer_iter_on_success [OF ok(1)] by metis
    obtain nodes where nodes: "(case it' of Bootstrap _ \<Rightarrow> msg_decode_closer_nodes resp | _ \<Rightarrow> Inr []) = Inr nodes"
      using closer_nodes_total [of resp] by (cases it') auto
    have "qt_ok sha (add_token remote resp (fold (add_unverified sha) nodes (qs_inner q)))"
      by (rule add_token_ok [OF fold_add_unverified_ok [OF ok(2)] remote])
    with False it' remote nodes assms show ?thesis
      by (cases it') (auto simp: qs_inject_response_def u32_add_def qs_ok_def Let_def valid_id_bytes_def)
  qed
qed

text \<open>What a poll may send in the state it leaves the query in.\<close>

fun event_ok :: "peer_order \<Rightarrow> query_stream \<Rightarrow> query_event \<Rightarrow> bool" where
  "event_ok order q (EvQuery p cmd target val) =
     (0 < phase_rank (qs_peer_iter q) \<and> target = preimage (qt_target (qs_inner q)) \<and>
      (if qtype_is_query (qs_ty q) then cmd = qs_cmd q \<and> val = qs_value q else cmd = FindNode \<and> val = None))"
| "event_ok order q (EvUpdate p cmd target val token) =
     (phase_rank (qs_peer_iter q) = 0 \<and> qtype_is_update (qs_ty q) \<and> cmd = qs_cmd q \<and>
      target = preimage (qt_target (qs_inner q)) \<and> val = qs_value q \<and>
      token = qt_get_token order (qs_inner q) p \<and> token \<noteq> None)"
| "event_ok order q (EvMissingRoundtripToken p) =
     (phase_rank (qs_peer_iter q) = 0 \<and> qtype_is_update (qs_ty q) \<and> qt_get_token order (qs_inner q) p = None)"
| "event_ok order q (EvRemoveNode i) = False"

definition poll_result_ok :: "peer_order \<Rightarrow> query_stream \<Rightarrow> query_event option poll \<Rightarrow> query_stream \<Rightarrow> bool" where
  "poll_result_ok order q r q' \<longleftrightarrow>
     phase_rank (qs_peer_iter q') \<le> phase_rank (qs_peer_iter q) \<and>
     qs_id q' = qs_id q \<and> qs_stats q' = qs_stats q \<and> qs_inner q' = qs_inner q \<and> qs_ty q' = qs_ty q \<and> qs_cmd q' = qs_cmd q \<and>
     qs_value q' = qs_value q \<and> qs_parallelism q' = qs_parallelism q \<and>
     (case r of
        Pending \<Rightarrow> 0 < qs_parallelism q \<longrightarrow> 0 < num_outstanding (peer_iter_of (qs_peer_iter q'))
      | Ready None \<Rightarrow> fixed_is_finished (peer_iter_of (qs_peer_iter q')) \<and>
          phase_rank (qs_peer_iter q') = (if qtype_is_update (qs_ty q) then 0 else 1)
      | Ready (Some ev) \<Rightarrow> event_ok order q' ev)"

text \<open>The phase invariant: only updates reach the last phase.\<close>

definition phase_ok :: "query_stream \<Rightarrow> bool" where
  "phase_ok q \<longleftrightarrow> (phase_rank (qs_peer_iter q) = 0 \<longrightarrow> qtype_is_update (qs_ty q))"

lemma iter_ok_next_facts:
  assumes "iter_ok it" and "fixed_next it = (s, it')" and "0 < fp_parallelism it"
  shows "(s = IterWaiting None \<or> s = IterAtCapacity \<longrightarrow> 0 < num_outstanding it')" and "s = IterFinished \<longrightarrow> fixed_is_finished it'"
  using assms fixed_next_facts [of _ _ it s it'] unfolding iter_ok_def by metis+

lemma iter_ok_next_finished:
  assumes "iter_ok it" and "fixed_next it = (IterFinished, it')"
  shows "fixed_is_finished it'"
  using assms fixed_next_facts [of _ _ it IterFinished it'] unfolding iter_ok_def by metis

lemma send_ready_ok:
  assumes "qs_ok sha q" and "update = (phase_rank (qs_peer_iter q) = 0)" and "phase_ok q"
  shows "\<exists>ev q'. send_ready order p update q = Inr (Ready (Some ev), q') \<and> qs_ok sha q' \<and>
    poll_result_ok order q (Ready (Some ev)) q' \<and> phase_rank (qs_peer_iter q') = phase_rank (qs_peer_iter q)"
proof (cases "update \<and> qt_get_token order (qs_inner q) p = None")
  case True
  have "iter_ok (peer_iter_of (qs_peer_iter q))" using assms(1) by (simp add: qs_ok_def)
  then obtain b it' where "iter_on_failure p (qs_peer_iter q) = Inr (b, it')" "iter_ok (peer_iter_of it')"
    "fp_parallelism (peer_iter_of it') = fp_parallelism (peer_iter_of (qs_peer_iter q))"
    "phase_rank it' = phase_rank (qs_peer_iter q)"
    by (rule peer_iter_on_failure)
  with True assms show ?thesis
    by (simp add: send_ready_def qs_send_def qs_ok_def poll_result_ok_def phase_ok_def)
next
  case False
  then show ?thesis using assms
    by (cases update; cases "qtype_is_query (qs_ty q)")
      (auto simp: send_ready_def qs_send_def poll_result_ok_def phase_ok_def Let_def)
qed

text \<open>One phase of a poll, after \<^verbatim>\<open>next\<close> of the current iterator; \<open>c\<close> is the phase with the
  iterator advanced.\<close>

lemma poll_phase:
  assumes ok: "qs_ok sha q" "phase_ok q" and nxt: "fixed_next (peer_iter_of (qs_peer_iter q)) = (s, it')"
    and c: "peer_iter_of c = it'" "phase_rank c = phase_rank (qs_peer_iter q)"
  defines "q1 \<equiv> q\<lparr>qs_peer_iter := c\<rparr>"
  shows "s = IterWaiting None \<or> s = IterAtCapacity \<Longrightarrow> qs_ok sha q1 \<and> phase_ok q1 \<and> poll_result_ok order q Pending q1"
    and "s = IterWaiting (Some p) \<Longrightarrow>
      \<exists>r q'. send_ready order p (phase_rank c = 0) q1 = Inr (r, q') \<and> qs_ok sha q' \<and> phase_ok q' \<and> poll_result_ok order q r q'"
    and "s = IterFinished \<Longrightarrow> phase_rank c = (if qtype_is_update (qs_ty q) then 0 else 1) \<Longrightarrow>
      qs_ok sha q1 \<and> phase_ok q1 \<and> poll_result_ok order q (Ready None) q1"
proof -
  have it: "iter_ok (peer_iter_of (qs_peer_iter q))" "fp_parallelism (peer_iter_of (qs_peer_iter q)) = qs_parallelism q"
    using ok(1) by (simp_all add: qs_ok_def)
  then have q1: "qs_ok sha q1" "phase_ok q1"
    using ok c iter_ok_next [OF it(1) nxt] by (simp_all add: qs_ok_def phase_ok_def q1_def)
  show "qs_ok sha q1 \<and> phase_ok q1 \<and> poll_result_ok order q Pending q1" if "s = IterWaiting None \<or> s = IterAtCapacity"
    using q1 that iter_ok_next_facts(1) [OF it(1) nxt] it(2) c by (simp add: poll_result_ok_def q1_def)
  show "qs_ok sha q1 \<and> phase_ok q1 \<and> poll_result_ok order q (Ready None) q1"
    if "s = IterFinished" "phase_rank c = (if qtype_is_update (qs_ty q) then 0 else 1)"
    using q1 that iter_ok_next_finished [OF it(1)] nxt c by (simp add: poll_result_ok_def q1_def)
  show "\<exists>r q'. send_ready order p (phase_rank c = 0) q1 = Inr (r, q') \<and> qs_ok sha q' \<and> phase_ok q' \<and> poll_result_ok order q r q'"
    if "s = IterWaiting (Some p)"
  proof -
    obtain ev q' where "send_ready order p (phase_rank c = 0) q1 = Inr (Ready (Some ev), q')" "qs_ok sha q'"
      "poll_result_ok order q1 (Ready (Some ev)) q'" "phase_rank (qs_peer_iter q') = phase_rank (qs_peer_iter q1)"
      using send_ready_ok [OF q1(1) _ q1(2), of "phase_rank c = 0" order p] by (auto simp: q1_def)
    then show ?thesis using q1(2) c(2) by (auto simp: poll_result_ok_def q1_def phase_ok_def)
  qed
qed

lemma poll_result_ok_trans:
  assumes "poll_result_ok order q1 r q'" and "q1 = q\<lparr>qs_peer_iter := c\<rparr>" and "phase_rank c \<le> phase_rank (qs_peer_iter q)"
  shows "poll_result_ok order q r q'"
  using assms by (auto simp: poll_result_ok_def split: poll.splits option.splits)

lemma qs_poll_updating:
  assumes ok: "qs_ok sha q" "phase_ok q" and c: "qs_peer_iter q = Updating it"
  shows "\<exists>r q'. qs_poll_iter order q = Inr (r, q') \<and> qs_ok sha q' \<and> phase_ok q' \<and> poll_result_ok order q r q'"
proof -
  obtain s it' where nxt: "fixed_next it = (s, it')" by fastforce
  have up: "qtype_is_update (qs_ty q)" using ok(2) c by (simp add: phase_ok_def)
  note ph = poll_phase [OF ok, of s it' "Updating it'"]
  show ?thesis
  proof (cases s)
    case (IterWaiting x)
    with ph nxt c show ?thesis by (cases x) (subst qs_poll_iter.simps, simp)+
  qed (use ph nxt c up in \<open>subst qs_poll_iter.simps, simp\<close>)+
qed

lemma qs_poll_moving:
  assumes ok: "qs_ok sha q" "phase_ok q" and c: "qs_peer_iter q = MovingCloser it"
  shows "\<exists>r q'. qs_poll_iter order q = Inr (r, q') \<and> qs_ok sha q' \<and> phase_ok q' \<and> poll_result_ok order q r q'"
proof -
  obtain s it' where nxt: "fixed_next it = (s, it')" by fastforce
  note ph = poll_phase [OF ok, of s it' "MovingCloser it'"]
  show ?thesis
  proof (cases s)
    case (IterWaiting x)
    with ph nxt c show ?thesis by (cases x) (subst qs_poll_iter.simps, simp)+
  next
    case IterFinished
    show ?thesis
    proof (cases "qtype_is_update (qs_ty q)")
      case True
      let ?q = "q\<lparr>qs_peer_iter := Updating (closest_peers_iter order (qs_inner q) (qs_parallelism q))\<rparr>"
      have "qs_ok sha ?q" "phase_ok ?q" using ok True by (simp_all add: qs_ok_def phase_ok_def closest_peers_iter_def Let_def)
      from qs_poll_updating [OF this, of _ order] obtain r q' where "qs_poll_iter order ?q = Inr (r, q')" "qs_ok sha q'"
        "phase_ok q'" "poll_result_ok order ?q r q'" by auto
      with poll_result_ok_trans [of order ?q r q' _ q] True IterFinished nxt c show ?thesis
        by (subst qs_poll_iter.simps) simp
    qed (use ph nxt c IterFinished in \<open>subst qs_poll_iter.simps, simp\<close>)
  qed (use ph nxt c in \<open>subst qs_poll_iter.simps, simp\<close>)
qed

lemma qs_poll_ok:
  assumes ok: "qs_ok sha q" "phase_ok q"
  shows "\<exists>r q'. qs_poll_iter order q = Inr (r, q') \<and> qs_ok sha q' \<and> phase_ok q' \<and> poll_result_ok order q r q'"
proof (cases "qs_peer_iter q")
  case (Bootstrap it)
  obtain s it' where nxt: "fixed_next it = (s, it')" by fastforce
  note ph = poll_phase [OF ok, of s it' "Bootstrap it'"]
  show ?thesis
  proof (cases s)
    case (IterWaiting x)
    with ph nxt Bootstrap show ?thesis by (cases x) (subst qs_poll_iter.simps, simp)+
  next
    case IterFinished
    let ?q = "q\<lparr>qs_peer_iter := MovingCloser (unverified_peers_iter order (qs_inner q) (qs_parallelism q))\<rparr>"
    have "qs_ok sha ?q" "phase_ok ?q" using ok by (simp_all add: qs_ok_def phase_ok_def unverified_peers_iter_def)
    from qs_poll_moving [OF this, of _ order] obtain r q' where "qs_poll_iter order ?q = Inr (r, q')" "qs_ok sha q'"
      "phase_ok q'" "poll_result_ok order ?q r q'" by auto
    with poll_result_ok_trans [of order ?q r q' _ q] IterFinished nxt Bootstrap show ?thesis
      by (subst qs_poll_iter.simps) simp
  qed (use ph nxt Bootstrap in \<open>subst qs_poll_iter.simps, simp\<close>)
next
  case (MovingCloser it)
  then show ?thesis by (rule qs_poll_moving [OF ok])
next
  case (Updating it)
  then show ?thesis by (rule qs_poll_updating [OF ok])
qed

section \<open>What a poll answers\<close>

text \<open>The phases that a query still has to go through, the current one first.  The later ones are
  started with the peers that are known when the poll comes to them: every peer that was not
  contacted, and the closest ones that answered with a token.\<close>

definition phases_left :: "peer_order \<Rightarrow> query_stream \<Rightarrow> query_peer_iter list" where
  "phases_left order q =
     (let moving = MovingCloser (fixed_new (map (\<lambda>e. peer_from (entry_addr e)) (filter (\<lambda>e. snd (snd e) = NotContacted) (order (qt_peers (qs_inner q)))))
                                   (qs_parallelism q));
          updating = (if qtype_is_update (qs_ty q) then [Updating (closest_peers_iter order (qs_inner q) (qs_parallelism q))] else [])
      in case qs_peer_iter q of
           Bootstrap _ \<Rightarrow> qs_peer_iter q # moving # updating
         | MovingCloser _ \<Rightarrow> qs_peer_iter q # updating
         | Updating _ \<Rightarrow> [qs_peer_iter q])"

text \<open>What a peer is asked in a phase.\<close>

definition request_to :: "peer_order \<Rightarrow> query_stream \<Rightarrow> query_peer_iter \<Rightarrow> peer \<Rightarrow> query_event" where
  "request_to order q c p =
     (let target = preimage (qt_target (qs_inner q))
      in case c of
           Updating _ \<Rightarrow>
             (case qt_get_token order (qs_inner q) p of
                Some token \<Rightarrow> EvUpdate p (qs_cmd q) target (qs_value q) (Some token)
              | None \<Rightarrow> EvMissingRoundtripToken p)
         | _ \<Rightarrow> if qtype_is_query (qs_ty q) then EvQuery p (qs_cmd q) target (qs_value q) else EvQuery p FindNode target None)"

text \<open>The poll takes the first phase that is not over: it asks the first peer that was not asked yet,
  or waits if the parallelism is used up or all peers were asked.\<close>

definition poll_answer :: "peer_order \<Rightarrow> query_stream \<Rightarrow> query_event option poll" where
  "poll_answer order q =
     (case find (\<lambda>c. \<not> iter_over (peer_iter_of c)) (phases_left order q) of
        None \<Rightarrow> Ready None
      | Some c \<Rightarrow>
          if fp_parallelism (peer_iter_of c) \<le> num_outstanding (peer_iter_of c) then Pending
          else (case unasked (peer_iter_of c) of p # _ \<Rightarrow> Ready (Some (request_to order q c p)) | [] \<Rightarrow> Pending))"

lemma unverified_phase:
  "unverified_peers_iter order t n =
     fixed_new (map (\<lambda>e. peer_from (entry_addr e)) (filter (\<lambda>e. snd (snd e) = NotContacted) (order (qt_peers t)))) n"
  by (simp add: unverified_peers_iter_def ps_is_not_contacted_def)

lemma iter_ok_next_answer:
  "iter_ok it \<Longrightarrow> fst (fixed_next it) =
    (if iter_over it then IterFinished
     else if fp_parallelism it \<le> num_outstanding it then IterAtCapacity
     else IterWaiting (case unasked it of p # _ \<Rightarrow> Some p | [] \<Rightarrow> None))"
  using fixed_next_answer unfolding iter_ok_def by blast

lemma request_to_phase [simp]: "request_to order (q\<lparr>qs_peer_iter := d\<rparr>) c p = request_to order q c p"
  by (cases c) (simp_all add: request_to_def Let_def split: option.splits)

lemma send_ready_request:
  assumes "send_ready order p (phase_rank c = 0) q = Inr (r, q')"
  shows "r = Ready (Some (request_to order q c p))"
  using assms by (cases c) (auto simp: send_ready_def qs_send_def request_to_def Let_def res_bind_Inr_iff split: option.splits if_splits)

text \<open>The first phase that is left decides, or the next one once it is over.\<close>

lemma poll_answer_phase:
  assumes "phases_left order q = qs_peer_iter q # cs" and ok: "qs_ok sha q"
    and nxt: "fixed_next (peer_iter_of (qs_peer_iter q)) = (s, it')"
  shows "s = IterWaiting (Some p) \<Longrightarrow> poll_answer order q = Ready (Some (request_to order q (qs_peer_iter q) p))"
    and "s = IterWaiting None \<or> s = IterAtCapacity \<Longrightarrow> poll_answer order q = Pending"
    and "s = IterFinished \<Longrightarrow> cs = [] \<Longrightarrow> poll_answer order q = Ready None"
    and "s = IterFinished \<Longrightarrow> phases_left order (q\<lparr>qs_peer_iter := c\<rparr>) = cs \<Longrightarrow>
      poll_answer order q = poll_answer order (q\<lparr>qs_peer_iter := c\<rparr>)"
proof -
  have "iter_ok (peer_iter_of (qs_peer_iter q))" using ok by (simp add: qs_ok_def)
  from iter_ok_next_answer [OF this] nxt have s: "s = (if iter_over (peer_iter_of (qs_peer_iter q)) then IterFinished
     else if fp_parallelism (peer_iter_of (qs_peer_iter q)) \<le> num_outstanding (peer_iter_of (qs_peer_iter q)) then IterAtCapacity
     else IterWaiting (case unasked (peer_iter_of (qs_peer_iter q)) of p # _ \<Rightarrow> Some p | [] \<Rightarrow> None))" by simp
  show "poll_answer order q = Ready (Some (request_to order q (qs_peer_iter q) p))" if "s = IterWaiting (Some p)"
    using s assms(1) that by (simp add: poll_answer_def split: if_splits list.splits)
  show "poll_answer order q = Pending" if "s = IterWaiting None \<or> s = IterAtCapacity"
    using s assms(1) that by (auto simp: poll_answer_def split: if_splits list.splits)
  show "poll_answer order q = Ready None" if "s = IterFinished" "cs = []"
    using s assms(1) that by (simp add: poll_answer_def split: if_splits)
  show "poll_answer order q = poll_answer order (q\<lparr>qs_peer_iter := c\<rparr>)" if "s = IterFinished" "phases_left order (q\<lparr>qs_peer_iter := c\<rparr>) = cs"
    using s assms(1) that by (auto simp: poll_answer_def split: if_splits option.splits list.splits)
qed

lemma poll_answer_updating:
  assumes "qs_ok sha q" and c: "qs_peer_iter q = Updating it" and poll: "qs_poll_iter order q = Inr (r, q')"
  shows "r = poll_answer order q"
proof -
  obtain s it' where nxt: "fixed_next it = (s, it')" by fastforce
  have ph: "phases_left order q = [qs_peer_iter q]" using c by (simp add: phases_left_def)
  note ans = poll_answer_phase [OF ph assms(1)]
  show ?thesis
  proof (cases s)
    case (IterWaiting x)
    then show ?thesis using ans(1,2) nxt c poll send_ready_request [of order _ "Updating it" "q\<lparr>qs_peer_iter := Updating it'\<rparr>" r q']
      by (cases x) (subst (asm) qs_poll_iter.simps, simp)+
  qed (use ans(2,3) nxt c poll in \<open>subst (asm) qs_poll_iter.simps, simp\<close>)+
qed

lemma poll_answer_moving:
  assumes ok: "qs_ok sha q" and c: "qs_peer_iter q = MovingCloser it" and poll: "qs_poll_iter order q = Inr (r, q')"
  shows "r = poll_answer order q"
proof -
  let ?u = "Updating (closest_peers_iter order (qs_inner q) (qs_parallelism q))"
  obtain s it' where nxt: "fixed_next it = (s, it')" by fastforce
  have ph: "phases_left order q = qs_peer_iter q # (if qtype_is_update (qs_ty q) then [?u] else [])" using c by (simp add: phases_left_def)
  note ans = poll_answer_phase [OF ph ok]
  show ?thesis
  proof (cases s)
    case (IterWaiting x)
    then show ?thesis using ans(1,2) nxt c poll send_ready_request [of order _ "MovingCloser it" "q\<lparr>qs_peer_iter := MovingCloser it'\<rparr>" r q']
      by (cases x) (subst (asm) qs_poll_iter.simps, simp)+
  next
    case IterFinished
    show ?thesis
    proof (cases "qtype_is_update (qs_ty q)")
      case True
      have "qs_ok sha (q\<lparr>qs_peer_iter := ?u\<rparr>)" using ok by (simp add: qs_ok_def closest_peers_iter_def Let_def)
      moreover have "qs_poll_iter order (q\<lparr>qs_peer_iter := ?u\<rparr>) = Inr (r, q')"
        using poll nxt c IterFinished True by (subst (asm) qs_poll_iter.simps) simp
      ultimately have "r = poll_answer order (q\<lparr>qs_peer_iter := ?u\<rparr>)" using poll_answer_updating by fastforce
      then show ?thesis using ans(4) [OF _ IterFinished, of it' ?u] nxt c True by (simp add: phases_left_def)
    qed (use ans(3) nxt c poll IterFinished in \<open>subst (asm) qs_poll_iter.simps, simp\<close>)
  qed (use ans(2) nxt c poll in \<open>subst (asm) qs_poll_iter.simps, simp\<close>)
qed

lemma qs_poll_answer:
  assumes ok: "qs_ok sha q" and poll: "qs_poll_iter order q = Inr (r, q')"
  shows "r = poll_answer order q"
proof (cases "qs_peer_iter q")
  case (Bootstrap it)
  let ?m = "MovingCloser (unverified_peers_iter order (qs_inner q) (qs_parallelism q))"
  obtain s it' where nxt: "fixed_next it = (s, it')" by fastforce
  have ph: "phases_left order q = qs_peer_iter q # phases_left order (q\<lparr>qs_peer_iter := ?m\<rparr>)"
    using Bootstrap by (simp add: phases_left_def unverified_phase Let_def)
  note ans = poll_answer_phase [OF ph ok]
  show ?thesis
  proof (cases s)
    case (IterWaiting x)
    then show ?thesis using ans(1,2) nxt Bootstrap poll send_ready_request [of order _ "Bootstrap it" "q\<lparr>qs_peer_iter := Bootstrap it'\<rparr>" r q']
      by (cases x) (subst (asm) qs_poll_iter.simps, simp)+
  next
    case IterFinished
    have "qs_ok sha (q\<lparr>qs_peer_iter := ?m\<rparr>)" using ok by (simp add: qs_ok_def unverified_peers_iter_def)
    moreover have "qs_poll_iter order (q\<lparr>qs_peer_iter := ?m\<rparr>) = Inr (r, q')"
      using poll nxt Bootstrap IterFinished by (subst (asm) qs_poll_iter.simps) simp
    ultimately have "r = poll_answer order (q\<lparr>qs_peer_iter := ?m\<rparr>)" using poll_answer_moving by fastforce
    then show ?thesis using ans(4) [OF _ IterFinished, of it' ?m] nxt Bootstrap by simp
  qed (use ans(2) nxt Bootstrap poll in \<open>subst (asm) qs_poll_iter.simps, simp\<close>)
qed (use ok poll in \<open>blast intro: poll_answer_moving poll_answer_updating\<close>)+

section \<open>Sequences of operations on a query\<close>

datatype query_op = QPoll | QResponse message peer | QTimeout peer

datatype query_out = QOPoll "query_event option poll" | QOResponse "response option" | QOUnit

fun query_step ::
  "(bytes \<Rightarrow> bytes) \<Rightarrow> peer_order \<Rightarrow> query_op \<Rightarrow> query_stream \<Rightarrow> (query_out \<times> query_stream) res" where
  "query_step sha order QPoll q = res_bind (qs_poll_iter order q) (\<lambda>(r, q'). Inr (QOPoll r, q'))"
| "query_step sha order (QResponse m p) q =
     res_bind (qs_inject_response sha m p q) (\<lambda>(r, q'). Inr (QOResponse r, q'))"
| "query_step sha order (QTimeout p) q = res_bind (qs_on_timeout order p q) (\<lambda>q'. Inr (QOUnit, q'))"

definition num_reports :: "query_op list \<Rightarrow> nat" where
  "num_reports ops = length (filter (\<lambda>op. op \<noteq> QPoll) ops)"

definition stats_total :: "query_stream \<Rightarrow> nat" where
  "stats_total q = st_success (qs_stats q) + st_failure (qs_stats q)"

lemma query_step_ok:
  assumes "qs_ok sha q" "phase_ok q" and order: "\<And>m. mset (order m) = mset m" and "stats_total q + 1 < 2 ^ 32"
  shows "\<exists>r q'. query_step sha order op q = Inr (r, q') \<and> qs_ok sha q' \<and> phase_ok q' \<and>
    stats_total q' = stats_total q + (if op = QPoll then 0 else 1) \<and>
    st_requests (qs_stats q') = st_requests (qs_stats q)"
proof (cases op)
  case QPoll
  obtain r q' where "qs_poll_iter order q = Inr (r, q')" "qs_ok sha q'" "phase_ok q'" "poll_result_ok order q r q'"
    using qs_poll_ok [OF assms(1,2)] by blast
  with QPoll show ?thesis by (auto simp: poll_result_ok_def stats_total_def)
next
  case (QResponse m p)
  obtain r q' where "qs_inject_response sha m p q = Inr (r, q')" "qs_ok sha q'" "qs_ty q' = qs_ty q"
    "phase_rank (qs_peer_iter q') = phase_rank (qs_peer_iter q)"
    "qs_stats q' = (if msg_is_error m then (qs_stats q)\<lparr>st_failure := st_failure (qs_stats q) + 1\<rparr>
       else (qs_stats q)\<lparr>st_success := st_success (qs_stats q) + 1\<rparr>)"
    using qs_inject_response_ok [OF assms(1), of m p] assms(4) by (auto simp: stats_total_def)
  with QResponse assms(2) show ?thesis by (auto simp: phase_ok_def stats_total_def)
next
  case (QTimeout p)
  obtain q' where "qs_on_timeout order p q = Inr q'" "qs_ok sha q'" "qs_ty q' = qs_ty q"
    "phase_rank (qs_peer_iter q') = phase_rank (qs_peer_iter q)"
    "qs_stats q' = (qs_stats q)\<lparr>st_failure := st_failure (qs_stats q) + 1\<rparr>"
    using qs_on_timeout_ok [OF assms(1) order, of p] assms(4) by (auto simp: stats_total_def)
  with QTimeout assms(2) show ?thesis by (auto simp: phase_ok_def stats_total_def)
qed

lemma query_run_ok:
  assumes "qs_ok sha q" "phase_ok q" and order: "\<And>m. mset (order m) = mset m"
    and "stats_total q + length ops < 2 ^ 32"
  shows "\<exists>outs q'. run_ops (query_step sha order) ops q = Inr (outs, q') \<and> qs_ok sha q' \<and> phase_ok q' \<and>
    stats_total q' = stats_total q + num_reports ops \<and> st_requests (qs_stats q') = st_requests (qs_stats q)"
  using assms(1,2,4)
proof (induction ops arbitrary: q)
  case (Cons op ops)
  have "stats_total q + 1 < 2 ^ 32" using Cons.prems(3) by simp
  from query_step_ok [OF Cons.prems(1,2) order this, of op] obtain r q1 where q1:
    "query_step sha order op q = Inr (r, q1)" "qs_ok sha q1" "phase_ok q1"
    "stats_total q1 = stats_total q + (if op = QPoll then 0 else 1)" "st_requests (qs_stats q1) = st_requests (qs_stats q)"
    by blast
  have "stats_total q1 + length ops < 2 ^ 32" using Cons.prems(3) q1(4) by (auto split: if_splits)
  from Cons.IH [OF q1(2,3) this] obtain outs q' where
    "run_ops (query_step sha order) ops q1 = Inr (outs, q')" "qs_ok sha q'" "phase_ok q'"
    "stats_total q' = stats_total q1 + num_reports ops" "st_requests (qs_stats q') = st_requests (qs_stats q1)"
    by blast
  with q1 show ?case by (simp add: num_reports_def)
qed (simp add: num_reports_def)

lemma qs_bootstrap_ok:
  assumes "key_bytes i = sha (preimage i)"
    and "\<forall>k \<in> set peers. key_bytes k = sha (pid_id (preimage k)) \<and> pid_id (preimage k) \<noteq> preimage i"
  shows "qs_ok sha (qs_bootstrap n cmd par ty i target val peers bs)" "phase_ok (qs_bootstrap n cmd par ty i target val peers bs)"
    "stats_total (qs_bootstrap n cmd par ty i target val peers bs) = 0"
    "st_requests (qs_stats (qs_bootstrap n cmd par ty i target val peers bs)) = 0"
  using qt_new_ok [OF assms] by (simp_all add: qs_ok_def phase_ok_def qs_bootstrap_def stats_total_def stats_empty_def)

section \<open>The pool\<close>

definition query_good :: "(bytes \<Rightarrow> bytes) \<Rightarrow> instant \<Rightarrow> u64 \<Rightarrow> query_stream \<Rightarrow> bool" where
  "query_good sha now i q \<longleftrightarrow>
     qs_ok sha q \<and> phase_ok q \<and> qs_id q = i \<and> (\<forall>s. st_start (qs_stats q) = Some s \<longrightarrow> s \<le> now)"

definition pool_ok :: "(bytes \<Rightarrow> bytes) \<Rightarrow> instant \<Rightarrow> (u64, query_stream) hmap \<Rightarrow> bool" where
  "pool_ok sha now qs \<longleftrightarrow> hm_ok qs \<and> (\<forall>i q. hm_get qs i = Some q \<longrightarrow> query_good sha now i q)"

fun hit_ok :: "peer_order \<Rightarrow> instant \<Rightarrow> duration \<Rightarrow> (u64, query_stream) hmap \<Rightarrow> pool_hit \<Rightarrow> bool" where
  "hit_ok order now timeout qs (HitWaiting ev i) = (\<exists>q. hm_get qs i = Some q \<and> event_ok order q ev)"
| "hit_ok order now timeout qs (HitFinished i) =
     (\<exists>q. hm_get qs i = Some q \<and> fixed_is_finished (peer_iter_of (qs_peer_iter q)))"
| "hit_ok order now timeout qs (HitTimeout i) =
     (\<exists>q s. hm_get qs i = Some q \<and> st_start (qs_stats q) = Some s \<and> timeout \<le> now - s)"

text \<open>Polling counts no responses.\<close>

definition same_totals :: "(u64, query_stream) hmap \<Rightarrow> (u64, query_stream) hmap \<Rightarrow> bool" where
  "same_totals qs qs' \<longleftrightarrow>
     (\<forall>i q'. hm_get qs' i = Some q' \<longrightarrow> (\<exists>q. hm_get qs i = Some q \<and> stats_total q' = stats_total q))"

lemma same_totals_refl [simp]: "same_totals qs qs"
  by (simp add: same_totals_def)

lemma same_totals_trans: "same_totals qs qs' \<Longrightarrow> same_totals qs' qs'' \<Longrightarrow> same_totals qs qs''"
  unfolding same_totals_def by metis

lemma same_totals_insert: "hm_get qs i = Some q \<Longrightarrow> stats_total q' = stats_total q \<Longrightarrow> same_totals qs (hm_insert i q' qs)"
  by (simp add: same_totals_def)

lemma same_totals_remove: "same_totals qs qs' \<Longrightarrow> same_totals qs (hm_remove i qs')"
  by (simp add: same_totals_def)

lemma pool_loop_ok:
  assumes "pool_ok sha now qs" and "set is \<subseteq> hm_keys qs"
  shows "\<exists>hit qs'. pool_loop order now timeout is qs = Inr (hit, qs') \<and> pool_ok sha now qs' \<and> hm_keys qs' = hm_keys qs \<and>
    same_totals qs qs' \<and> (case hit of None \<Rightarrow> True | Some h \<Rightarrow> hit_ok order now timeout qs' h)"
  using assms
proof (induction "is" arbitrary: qs)
  case (Cons i js)
  obtain q0 where q0: "hm_get qs i = Some q0" using Cons.prems(2) hm_get_SomeI [of i qs] by auto
  then have good: "query_good sha now i q0" using Cons.prems(1) by (simp add: pool_ok_def)
  define start where "start = (case st_start (qs_stats q0) of Some s \<Rightarrow> s | None \<Rightarrow> now)"
  define q where "q = q0\<lparr>qs_stats := (qs_stats q0)\<lparr>st_start := Some start\<rparr>\<rparr>"
  have start: "start \<le> now" using good by (auto simp: start_def query_good_def split: option.splits)
  have "qs_ok sha q" "phase_ok q" using good by (simp_all add: query_good_def q_def qs_ok_def phase_ok_def)
  from qs_poll_ok [OF this, of order] obtain r q' where r: "qs_poll_iter order q = Inr (r, q')" "qs_ok sha q'"
    "phase_ok q'" "poll_result_ok order q r q'" by blast
  let ?qs = "hm_insert i q' qs"
  have "query_good sha now i q'" using r good start by (simp add: query_good_def poll_result_ok_def q_def)
  then have ok: "pool_ok sha now ?qs" using Cons.prems(1) by (simp add: pool_ok_def)
  have keys: "hm_keys ?qs = hm_keys qs" using q0 by (auto dest: hm_get_keysD)
  have tot: "same_totals qs ?qs"
    using same_totals_insert [OF q0] r(4) by (simp add: poll_result_ok_def q_def stats_total_def)
  have eq: "pool_loop order now timeout (i # js) qs =
      (case r of Ready (Some ev) \<Rightarrow> Inr (Some (HitWaiting ev i), ?qs) | Ready None \<Rightarrow> Inr (Some (HitFinished i), ?qs)
       | Pending \<Rightarrow> if timeout \<le> now - start then Inr (Some (HitTimeout i), ?qs) else pool_loop order now timeout js ?qs)"
    using q0 r(1) start by (simp add: Let_def start_def [symmetric] q_def [symmetric] split: poll.splits option.splits)
  show ?case
  proof (cases r)
    case Pending
    show ?thesis
    proof (cases "timeout \<le> now - start")
      case True
      have "st_start (qs_stats q') = Some start" using r(4) by (simp add: poll_result_ok_def q_def)
      with True Pending ok keys tot show ?thesis by (simp add: eq del: pool_loop.simps)
    next
      case False
      from Cons.IH [OF ok] Cons.prems(2) keys obtain hit qs' where
        "pool_loop order now timeout js ?qs = Inr (hit, qs')" "pool_ok sha now qs'" "hm_keys qs' = hm_keys ?qs"
        "same_totals ?qs qs'" "case hit of None \<Rightarrow> True | Some h \<Rightarrow> hit_ok order now timeout qs' h" by auto
      with same_totals_trans [OF tot, of qs'] keys Pending False show ?thesis by (simp add: eq del: pool_loop.simps)
    qed
  next
    case (Ready x)
    with r(4) ok keys tot show ?thesis by (cases x) (simp_all add: eq poll_result_ok_def del: pool_loop.simps)
  qed
qed simp

text \<open>What the poll of the pool makes of one query: a request, the end, a timeout, or nothing.\<close>

definition query_verdict :: "peer_order \<Rightarrow> instant \<Rightarrow> duration \<Rightarrow> query_stream \<Rightarrow> pool_hit option" where
  "query_verdict order now timeout q =
     (case poll_answer order q of
        Ready (Some ev) \<Rightarrow> Some (HitWaiting ev (qs_id q))
      | Ready None \<Rightarrow> Some (HitFinished (qs_id q))
      | Pending \<Rightarrow>
          (case st_start (qs_stats q) of
             Some start \<Rightarrow> if timeout \<le> now - start then Some (HitTimeout (qs_id q)) else None
           | None \<Rightarrow> if timeout = 0 then Some (HitTimeout (qs_id q)) else None))"

text \<open>The first query, in the order of the map, about which there is something to report.\<close>

definition pool_verdict ::
  "peer_order \<Rightarrow> instant \<Rightarrow> duration \<Rightarrow> u64 list \<Rightarrow> (u64, query_stream) hmap \<Rightarrow> pool_hit option" where
  "pool_verdict order now timeout ids qs =
     (case List.map_filter (\<lambda>i. Option.bind (hm_get qs i) (query_verdict order now timeout)) ids of [] \<Rightarrow> None | h # _ \<Rightarrow> Some h)"

lemma poll_answer_stats [simp]: "poll_answer order (q\<lparr>qs_stats := st\<rparr>) = poll_answer order q"
proof -
  have "phases_left order (q\<lparr>qs_stats := st\<rparr>) = phases_left order q" by (simp add: phases_left_def Let_def split: query_peer_iter.splits)
  moreover have "request_to order (q\<lparr>qs_stats := st\<rparr>) c p = request_to order q c p" for c p
    by (cases c) (simp_all add: request_to_def Let_def split: option.splits)
  ultimately show ?thesis by (auto simp: poll_answer_def split: option.splits list.splits)
qed

lemma pool_verdict_insert:
  assumes "i \<notin> set ids"
  shows "pool_verdict order now timeout ids (hm_insert i q qs) = pool_verdict order now timeout ids qs"
proof -
  have "List.map_filter (\<lambda>j. Option.bind (hm_get (hm_insert i q qs) j) (query_verdict order now timeout)) ids =
      List.map_filter (\<lambda>j. Option.bind (hm_get qs j) (query_verdict order now timeout)) ids"
    using assms by (induction ids) (auto simp: List.map_filter_simps split: option.splits)
  then show ?thesis by (simp add: pool_verdict_def)
qed

lemma pool_loop_verdict:
  assumes "pool_ok sha now qs" and "set is \<subseteq> hm_keys qs" and "distinct is" and "pool_loop order now timeout is qs = Inr (hit, qs')"
  shows "hit = pool_verdict order now timeout is qs"
  using assms
proof (induction "is" arbitrary: qs)
  case (Cons i js)
  obtain q0 where q0: "hm_get qs i = Some q0" using Cons.prems(2) hm_get_SomeI [of i qs] by auto
  then have good: "query_good sha now i q0" using Cons.prems(1) by (simp add: pool_ok_def)
  define start where "start = (case st_start (qs_stats q0) of Some s \<Rightarrow> s | None \<Rightarrow> now)"
  define q where "q = q0\<lparr>qs_stats := (qs_stats q0)\<lparr>st_start := Some start\<rparr>\<rparr>"
  have start: "start \<le> now" using good by (auto simp: start_def query_good_def split: option.splits)
  have ok: "qs_ok sha q" "phase_ok q" using good by (simp_all add: query_good_def q_def qs_ok_def phase_ok_def)
  from qs_poll_ok [OF this, of order] obtain r q' where r: "qs_poll_iter order q = Inr (r, q')" "qs_ok sha q'"
    "phase_ok q'" "poll_result_ok order q r q'" by blast
  have ans: "r = poll_answer order q0" using qs_poll_answer [OF ok(1) r(1)] by (simp add: q_def)
  have id: "qs_id q0 = i" using good by (simp add: query_good_def)
  have late: "query_verdict order now timeout q0 = (case r of Ready (Some ev) \<Rightarrow> Some (HitWaiting ev i) | Ready None \<Rightarrow> Some (HitFinished i)
      | Pending \<Rightarrow> if timeout \<le> now - start then Some (HitTimeout i) else None)"
    by (simp add: query_verdict_def ans id start_def split: poll.splits option.splits)
  let ?qs = "hm_insert i q' qs"
  have "query_good sha now i q'" using r good start by (simp add: query_good_def poll_result_ok_def q_def)
  then have "pool_ok sha now ?qs" using Cons.prems(1) by (simp add: pool_ok_def)
  note IH = Cons.IH [OF this]
  have eq: "pool_loop order now timeout (i # js) qs =
      (case r of Ready (Some ev) \<Rightarrow> Inr (Some (HitWaiting ev i), ?qs) | Ready None \<Rightarrow> Inr (Some (HitFinished i), ?qs)
       | Pending \<Rightarrow> if timeout \<le> now - start then Inr (Some (HitTimeout i), ?qs) else pool_loop order now timeout js ?qs)"
    using q0 r(1) start by (simp add: Let_def start_def [symmetric] q_def [symmetric] split: poll.splits option.splits)
  have verdict: "pool_verdict order now timeout (i # js) qs =
      (case query_verdict order now timeout q0 of Some h \<Rightarrow> Some h | None \<Rightarrow> pool_verdict order now timeout js qs)"
    using q0 by (simp add: pool_verdict_def List.map_filter_simps split: option.splits)
  show ?case
  proof (cases "query_verdict order now timeout q0")
    case None
    then have "pool_loop order now timeout js ?qs = Inr (hit, qs')"
      using Cons.prems(4) unfolding eq late by (simp split: poll.splits option.splits if_splits)
    moreover have "set js \<subseteq> hm_keys ?qs" "distinct js" "i \<notin> set js" using Cons.prems(2,3) by auto
    ultimately show ?thesis using IH pool_verdict_insert [of i js] verdict None by simp
  next
    case (Some h)
    then show ?thesis using Cons.prems(4) unfolding eq verdict by (simp add: late split: poll.splits option.splits if_splits)
  qed
qed (simp add: pool_verdict_def List.map_filter_simps)

lemma pool_take_ok:
  assumes "pool_ok sha now qs" and "hm_get qs i = Some q" and "qp_queries p = qs"
  shows "pool_take now i p = Inr (q\<lparr>qs_stats := (qs_stats q)\<lparr>st_end := Some now\<rparr>\<rparr>, p\<lparr>qp_queries := hm_remove i qs\<rparr>)"
    and "pool_ok sha now (hm_remove i qs)" and "qs_id q = i"
  using assms by (simp_all add: pool_take_def pool_ok_def query_good_def)

lemma pool_poll_ok:
  assumes ok: "pool_ok sha now (qp_queries p)" and order: "set (qorder (qp_queries p)) = hm_keys (qp_queries p)"
  shows "\<exists>r p'. pool_poll order qorder now p = Inr (r, p') \<and> pool_ok sha now (qp_queries p') \<and>
    same_totals (qp_queries p) (qp_queries p') \<and> qp_local_id p' = qp_local_id p \<and> qp_config p' = qp_config p \<and>
    (case r of PoolFinished q \<Rightarrow> qs_ok sha q | PoolTimeout q \<Rightarrow> qs_ok sha q | _ \<Rightarrow> True) \<and>
    (case r of
       PoolIdle \<Rightarrow> qp_queries p = []
     | PoolWaiting None \<Rightarrow> hm_keys (qp_queries p') = hm_keys (qp_queries p)
     | PoolWaiting (Some (i, ev)) \<Rightarrow> hm_keys (qp_queries p') = hm_keys (qp_queries p) \<and>
         (\<exists>q. hm_get (qp_queries p') i = Some q \<and> event_ok order q ev)
     | PoolFinished q \<Rightarrow> qs_id q \<in> hm_keys (qp_queries p) \<and> hm_keys (qp_queries p') = hm_keys (qp_queries p) - {qs_id q} \<and>
         fixed_is_finished (peer_iter_of (qs_peer_iter q)) \<and> st_end (qs_stats q) = Some now
     | PoolTimeout q \<Rightarrow> qs_id q \<in> hm_keys (qp_queries p) \<and> hm_keys (qp_queries p') = hm_keys (qp_queries p) - {qs_id q} \<and>
         st_end (qs_stats q) = Some now \<and>
         (\<exists>s. st_start (qs_stats q) = Some s \<and> qc_timeout (qp_config p) \<le> now - s))"
proof -
  obtain hit qs where l: "pool_loop order now (qc_timeout (qp_config p)) (qorder (qp_queries p)) (qp_queries p) = Inr (hit, qs)"
    and qs: "pool_ok sha now qs" "hm_keys qs = hm_keys (qp_queries p)" "same_totals (qp_queries p) qs"
    and hit: "case hit of None \<Rightarrow> True | Some h \<Rightarrow> hit_ok order now (qc_timeout (qp_config p)) qs h"
    using pool_loop_ok [OF ok, of "qorder (qp_queries p)" order "qc_timeout (qp_config p)"] order by auto
  have keys: "hm_get qs i = Some q \<Longrightarrow> i \<in> hm_keys (qp_queries p)" for i q using qs(2) by (auto dest: hm_get_keysD)
  have good: "hm_get qs i = Some q \<Longrightarrow> qs_ok sha q" for i q using qs(1) by (simp add: pool_ok_def query_good_def)
  note take = pool_take_ok [OF qs(1), where p = "p\<lparr>qp_queries := qs\<rparr>"]
  show ?thesis
  proof (cases hit)
    case None
    have "qp_queries p = []" if "qs = []" using that qs(2) by (auto simp: hm_keys_def)
    with None l qs show ?thesis by (simp add: pool_poll_def)
  next
    case (Some h)
    show ?thesis
    proof (cases h)
      case (HitWaiting ev i)
      with Some l qs hit show ?thesis by (auto simp: pool_poll_def)
    next
      case (HitFinished i)
      then obtain q where q: "hm_get qs i = Some q" "fixed_is_finished (peer_iter_of (qs_peer_iter q))"
        using Some hit by auto
      with HitFinished Some l qs(2,3) take(1) [OF q(1)] take(2,3) [OF q(1)] keys [OF q(1)] good [OF q(1)] show ?thesis
        by (simp add: pool_poll_def same_totals_remove qs_ok_def)
    next
      case (HitTimeout i)
      then obtain q s where q: "hm_get qs i = Some q" "st_start (qs_stats q) = Some s" "qc_timeout (qp_config p) \<le> now - s"
        using Some hit by auto
      with HitTimeout Some l qs(2,3) take(1) [OF q(1)] take(2,3) [OF q(1)] keys [OF q(1)] good [OF q(1)] show ?thesis
        by (simp add: pool_poll_def same_totals_remove qs_ok_def)
    qed
  qed
qed

lemma pool_poll_verdict:
  assumes ok: "pool_ok sha now (qp_queries p)"
    and order: "set (qorder (qp_queries p)) = hm_keys (qp_queries p)" "distinct (qorder (qp_queries p))"
    and poll: "pool_poll order qorder now p = Inr (r, p')"
  shows "case pool_verdict order now (qc_timeout (qp_config p)) (qorder (qp_queries p)) (qp_queries p) of
      None \<Rightarrow> r = (if qp_queries p = [] then PoolIdle else PoolWaiting None) \<and> hm_keys (qp_queries p') = hm_keys (qp_queries p)
    | Some (HitWaiting ev i) \<Rightarrow> r = PoolWaiting (Some (i, ev))
    | Some (HitFinished i) \<Rightarrow> \<exists>q. r = PoolFinished q \<and> qs_id q = i
    | Some (HitTimeout i) \<Rightarrow> \<exists>q. r = PoolTimeout q \<and> qs_id q = i"
proof -
  obtain hit qs where l: "pool_loop order now (qc_timeout (qp_config p)) (qorder (qp_queries p)) (qp_queries p) = Inr (hit, qs)"
    and qs: "pool_ok sha now qs" "hm_keys qs = hm_keys (qp_queries p)"
    using pool_loop_ok [OF ok, of "qorder (qp_queries p)" order "qc_timeout (qp_config p)"] order(1) by auto
  have hit: "pool_verdict order now (qc_timeout (qp_config p)) (qorder (qp_queries p)) (qp_queries p) = hit"
    using pool_loop_verdict [OF ok _ order(2) l] order(1) by simp
  have "qs_id q = i" if "pool_take now i (p\<lparr>qp_queries := qs\<rparr>) = Inr (q, p'')" for i q p''
    using that qs(1) by (auto simp: pool_take_def res_bind_Inr_iff expect_def pool_ok_def query_good_def split: option.splits)
  moreover have "qs = [] \<longleftrightarrow> qp_queries p = []" using qs(2) by (auto simp: hm_keys_def)
  ultimately show ?thesis using poll l qs(2) unfolding hit
    by (auto simp: pool_poll_def res_bind_Inr_iff split: option.splits pool_hit.splits)
qed

section \<open>Properties\<close>

text \<open>C29. No sequence of fewer than \<open>2 ^ 32\<close> polls, responses and timeouts makes a query panic,
  whatever the responses contain and whichever peers they come from.  The query never records
  the local node among its peers, stores each peer under the hash of its id, and counts the
  responses and timeouts exactly.\<close>

theorem query_run_safe:
  assumes "key_bytes i = sha (preimage i)"
    and "\<forall>k \<in> set peers. key_bytes k = sha (pid_id (preimage k)) \<and> pid_id (preimage k) \<noteq> preimage i"
    and "\<And>m. mset (order m) = mset m" and "length ops < 2 ^ 32"
  shows "\<exists>outs q. run_ops (query_step sha order) ops (qs_bootstrap n cmd par ty i target val peers bs) = Inr (outs, q) \<and>
    distinct (map fst (qt_peers (qs_inner q))) \<and>
    (\<forall>(kb, k, s) \<in> set (qt_peers (qs_inner q)). kb = sha (pid_id (preimage k)) \<and> pid_id (preimage k) \<noteq> preimage (qt_id (qs_inner q))) \<and>
    st_success (qs_stats q) + st_failure (qs_stats q) = num_reports ops"
proof -
  note new = qs_bootstrap_ok [OF assms(1,2), where n = n and cmd = cmd and par = par and ty = ty and target = target
      and val = val and bs = bs]
  obtain outs q where "run_ops (query_step sha order) ops (qs_bootstrap n cmd par ty i target val peers bs) = Inr (outs, q)"
    "qs_ok sha q" "stats_total q = num_reports ops"
    using query_run_ok [OF new(1,2) assms(3), of ops] new(3) assms(4) by auto
  then show ?thesis by (fastforce simp: qs_ok_def qt_ok_def hm_ok_def stats_total_def)
qed

definition sample_query :: query_stream where
  "sample_query = qs_bootstrap 0 FindNode 3 QTQuery \<lparr>preimage = [2], key_bytes = sample_hash [2]\<rparr>
     \<lparr>preimage = [3], key_bytes = sample_hash [3]\<rparr> None [] [peer_from (SockV4 (1, 2, 3, 4) 80)]"

theorem query_run_safe_witness:
  "\<exists>outs q. run_ops (query_step sample_hash id) [QPoll, QTimeout (peer_from (SockV4 (1, 2, 3, 4) 80)), QPoll] sample_query
      = Inr (outs, q) \<and> st_success (qs_stats q) + st_failure (qs_stats q) = 1"
  unfolding sample_query_def
  using query_run_safe [of "\<lparr>preimage = [2], key_bytes = sample_hash [2]\<rparr>" sample_hash "[]" id
      "[QPoll, QTimeout (peer_from (SockV4 (1, 2, 3, 4) 80)), QPoll]" 0 FindNode 3 QTQuery
      "\<lparr>preimage = [3], key_bytes = sample_hash [3]\<rparr>" None "[peer_from (SockV4 (1, 2, 3, 4) 80)]"]
  by (auto simp: num_reports_def)

text \<open>C30. What a poll of a query does.  It ends, it changes nothing but the iterator, whose phase it
  only moves forward, and its answer is that of \<open>poll_answer\<close>: it takes the first of the phases left
  (the current one, then all peers that were not contacted, then, for an update, the closest peers
  that answered with a token) in which there is a peer to ask or to wait for.  If the parallelism
  allows it, it asks the first peer of that phase that was not asked yet: with the command and value
  of the stream, or with \<^verbatim>\<open>FIND_NODE\<close> and no value if the stream is a pure update, and in the update
  phase with the token stored for that address.  Otherwise it is pending, and then a request of the
  current phase is outstanding; and it reports completion exactly if all phases are over.\<close>

theorem query_poll_outcome:
  assumes "qs_ok sha q" and "phase_ok q"
  shows "\<exists>q'. qs_poll_iter order q = Inr (poll_answer order q, q') \<and> qs_ok sha q' \<and> phase_ok q' \<and>
    poll_result_ok order q (poll_answer order q) q' \<and>
    (poll_answer order q = Ready None \<longleftrightarrow> (\<forall>c \<in> set (phases_left order q). iter_over (peer_iter_of c)))"
proof -
  obtain r q' where "qs_poll_iter order q = Inr (r, q')" "qs_ok sha q'" "phase_ok q'" "poll_result_ok order q r q'"
    using qs_poll_ok [OF assms] by blast
  moreover have "poll_answer order q = Ready None \<longleftrightarrow> (\<forall>c \<in> set (phases_left order q). iter_over (peer_iter_of c))"
    by (auto simp: poll_answer_def find_None_iff find_Some_iff split: option.splits if_splits list.splits)
  ultimately show ?thesis using qs_poll_answer [OF assms(1)] by blast
qed

text \<open>The witness: a query that has not asked its only bootstrap node yet asks it.\<close>

lemma sample_query_answer: "poll_answer id sample_query = Ready (Some (EvQuery (peer_from (SockV4 (1, 2, 3, 4) 80)) FindNode [3] None))"
  by (simp add: poll_answer_def phases_left_def sample_query_def qs_bootstrap_def fixed_new_def iter_over_def fixed_is_finished_def
      unasked_def num_outstanding_def hm_sum_def request_to_def qtype_is_query_def qt_new_def)

theorem query_poll_outcome_witness:
  "\<exists>q'. qs_poll_iter id sample_query = Inr (Ready (Some (EvQuery (peer_from (SockV4 (1, 2, 3, 4) 80)) FindNode [3] None)), q') \<and>
     qs_ok sample_hash q'"
proof -
  have "qs_ok sample_hash sample_query" "phase_ok sample_query"
    unfolding sample_query_def by (rule qs_bootstrap_ok; simp)+
  then show ?thesis using query_poll_outcome [of sample_hash sample_query id] sample_query_answer by auto
qed

text \<open>The statistics do not count requests: after any such run the number of requests is
  zero, so \<^verbatim>\<open>num_pending\<close> underflows as soon as one response or timeout was counted.\<close>

lemma num_pending_underflows:
  assumes "key_bytes i = sha (preimage i)"
    and "\<forall>k \<in> set peers. key_bytes k = sha (pid_id (preimage k)) \<and> pid_id (preimage k) \<noteq> preimage i"
    and "\<And>m. mset (order m) = mset m" and "length ops < 2 ^ 32" and "0 < num_reports ops"
    and run: "run_ops (query_step sha order) ops (qs_bootstrap n cmd par ty i target val peers bs) = Inr (outs, q)"
  shows "st_requests (qs_stats q) = 0 \<and> stats_num_pending (qs_stats q) = Inl ArithOverflow"
proof -
  note new = qs_bootstrap_ok [OF assms(1,2), where n = n and cmd = cmd and par = par and ty = ty and target = target
      and val = val and bs = bs]
  have "stats_total q = num_reports ops" "st_requests (qs_stats q) = 0"
    using query_run_ok [OF new(1,2) assms(3), of ops] new(3,4) assms(4) run by auto
  moreover have "num_reports ops \<le> length ops" by (simp add: num_reports_def)
  ultimately show ?thesis using assms(4,5) by (simp add: stats_num_pending_def u32_add_def stats_total_def usize_sub_def)
qed

lemma num_pending_underflows_witness:
  "\<exists>outs q. run_ops (query_step sample_hash id) [QTimeout (peer_from (SockV4 (1, 2, 3, 4) 80))] sample_query = Inr (outs, q) \<and>
     stats_num_pending (qs_stats q) = Inl ArithOverflow"
proof -
  let ?ops = "[QTimeout (peer_from (SockV4 (1, 2, 3, 4) 80))]"
  have new: "qs_ok sample_hash sample_query" "phase_ok sample_query" "stats_total sample_query = 0"
    unfolding sample_query_def by (rule qs_bootstrap_ok; simp)+
  obtain outs q where r: "run_ops (query_step sample_hash id) ?ops sample_query = Inr (outs, q)"
    using query_run_ok [OF new(1,2), of id ?ops] new(3) by auto
  have "stats_num_pending (qs_stats q) = Inl ArithOverflow"
    using num_pending_underflows [OF _ _ _ _ _ r [unfolded sample_query_def]] by (simp add: num_reports_def)
  with r show ?thesis by blast
qed

text \<open>C31. A poll of the pool on well-formed queries, in any iteration order of its map, does not
  panic and keeps the queries well formed.  The queries are polled in that order, and the first one
  that has a request to send, that is over, or that is pending and was first polled at least the
  configured timeout ago decides the answer: its request, or the query itself, taken out of the
  pool with its end time set, as finished or timed out.  If there is none the pool is idle without
  queries, and waiting with all of them kept otherwise.\<close>

theorem pool_poll_outcome:
  assumes ok: "pool_ok sha now (qp_queries p)"
    and order: "set (qorder (qp_queries p)) = hm_keys (qp_queries p)" "distinct (qorder (qp_queries p))"
  shows "\<exists>r p'. pool_poll order qorder now p = Inr (r, p') \<and> pool_ok sha now (qp_queries p') \<and>
    (case pool_verdict order now (qc_timeout (qp_config p)) (qorder (qp_queries p)) (qp_queries p) of
       None \<Rightarrow> r = (if qp_queries p = [] then PoolIdle else PoolWaiting None) \<and> hm_keys (qp_queries p') = hm_keys (qp_queries p)
     | Some (HitWaiting ev i) \<Rightarrow> r = PoolWaiting (Some (i, ev)) \<and> hm_keys (qp_queries p') = hm_keys (qp_queries p) \<and>
         (\<exists>q. hm_get (qp_queries p') i = Some q \<and> event_ok order q ev)
     | Some (HitFinished i) \<Rightarrow> (\<exists>q. r = PoolFinished q \<and> qs_id q = i \<and> i \<in> hm_keys (qp_queries p) \<and>
         hm_keys (qp_queries p') = hm_keys (qp_queries p) - {i} \<and> fixed_is_finished (peer_iter_of (qs_peer_iter q)) \<and> st_end (qs_stats q) = Some now)
     | Some (HitTimeout i) \<Rightarrow> (\<exists>q s. r = PoolTimeout q \<and> qs_id q = i \<and> i \<in> hm_keys (qp_queries p) \<and>
         hm_keys (qp_queries p') = hm_keys (qp_queries p) - {i} \<and> st_end (qs_stats q) = Some now \<and>
         st_start (qs_stats q) = Some s \<and> qc_timeout (qp_config p) \<le> now - s))"
proof -
  obtain r p' where r: "pool_poll order qorder now p = Inr (r, p')" "pool_ok sha now (qp_queries p')"
    "case r of
       PoolIdle \<Rightarrow> qp_queries p = []
     | PoolWaiting None \<Rightarrow> hm_keys (qp_queries p') = hm_keys (qp_queries p)
     | PoolWaiting (Some (i, ev)) \<Rightarrow> hm_keys (qp_queries p') = hm_keys (qp_queries p) \<and>
         (\<exists>q. hm_get (qp_queries p') i = Some q \<and> event_ok order q ev)
     | PoolFinished q \<Rightarrow> qs_id q \<in> hm_keys (qp_queries p) \<and> hm_keys (qp_queries p') = hm_keys (qp_queries p) - {qs_id q} \<and>
         fixed_is_finished (peer_iter_of (qs_peer_iter q)) \<and> st_end (qs_stats q) = Some now
     | PoolTimeout q \<Rightarrow> qs_id q \<in> hm_keys (qp_queries p) \<and> hm_keys (qp_queries p') = hm_keys (qp_queries p) - {qs_id q} \<and>
         st_end (qs_stats q) = Some now \<and> (\<exists>s. st_start (qs_stats q) = Some s \<and> qc_timeout (qp_config p) \<le> now - s)"
    using pool_poll_ok [of sha now p qorder order, OF ok order(1)] by blast
  note pool_poll_verdict [OF ok order r(1)]
  then show ?thesis using r by (auto split: option.splits pool_hit.splits)
qed

theorem pool_poll_outcome_witness:
  "\<exists>p'. pool_poll id (map fst) 5 (snd (pool_add_stream FindNode [] QTQuery \<lparr>preimage = [3], key_bytes = sample_hash [3]\<rparr> None
       [peer_from (SockV4 (1, 2, 3, 4) 80)] (pool_new \<lparr>preimage = [2], key_bytes = sample_hash [2]\<rparr> query_config_default)))
     = Inr (PoolWaiting (Some (0, EvQuery (peer_from (SockV4 (1, 2, 3, 4) 80)) FindNode [3] None)), p') \<and> pool_ok sample_hash 5 (qp_queries p')"
proof -
  let ?p = "snd (pool_add_stream FindNode [] QTQuery \<lparr>preimage = [3], key_bytes = sample_hash [3]\<rparr> None
       [peer_from (SockV4 (1, 2, 3, 4) 80)] (pool_new \<lparr>preimage = [2], key_bytes = sample_hash [2]\<rparr> query_config_default))"
  have q: "qp_queries ?p = [(0, sample_query)]"
    by (simp add: pool_add_stream_def pool_next_query_id_def pool_new_def hm_insert_def sample_query_def
        query_config_default_def ALPHA_VALUE_def)
  have new: "qs_ok sample_hash sample_query" "phase_ok sample_query"
    unfolding sample_query_def by (rule qs_bootstrap_ok; simp)+
  then have "pool_ok sample_hash 5 (qp_queries ?p)" unfolding q
    by (auto simp: pool_ok_def hm_ok_def hm_get_def query_good_def) (simp_all add: sample_query_def qs_bootstrap_def stats_empty_def)
  moreover have "poll_answer id sample_query = Ready (Some (EvQuery (peer_from (SockV4 (1, 2, 3, 4) 80)) FindNode [3] None))" "qs_id sample_query = 0"
    using sample_query_answer by (simp_all add: sample_query_def qs_bootstrap_def)
  then have "pool_verdict id 5 (qc_timeout (qp_config ?p)) (map fst (qp_queries ?p)) (qp_queries ?p) =
      Some (HitWaiting (EvQuery (peer_from (SockV4 (1, 2, 3, 4) 80)) FindNode [3] None) 0)"
    unfolding q by (simp add: pool_verdict_def List.map_filter_simps hm_get_def query_verdict_def)
  ultimately show ?thesis using pool_poll_outcome [of sample_hash 5 ?p "map fst" id] unfolding q by (auto simp: hm_keys_def)
qed

end
