(* ===== verification/Udp_Framed.thy ===== *)
theory Udp_Framed
  imports Rpc_Message
begin

text \<open>
  The framed UDP socket, \<^verbatim>\<open>src/src/rpc/udp.rs\<close>, with the codec of \<^verbatim>\<open>src/src/rpc/protocol.rs\<close>.
  The socket itself is outside the repository.  A future of the socket is the data it owns (the
  receive buffer; the target and the datagram), and what a poll of it yields is an argument of
  the operation: \<open>recv_poll\<close> and \<open>send_poll\<close>.  \<open>recv_contract\<close> states what \<^verbatim>\<open>recv_from\<close>
  promises: it never reports more bytes than the buffer holds.
\<close>

section \<open>Data\<close>

datatype io_error = InvalidData | OtherError string | SocketError nat

datatype recv_poll = RecvPending | RecvDone bytes "io_error + nat \<times> socket_addr"

datatype send_poll = SendPending | SendDone "io_error + nat"

record udp_framed =
  uf_out_addr :: socket_addr
  uf_flushed :: bool
  uf_recv_buf :: "bytes option"
  uf_send_buf :: "bytes option"
  uf_recv_fut :: "bytes option"
  uf_send_fut :: "(socket_addr \<times> bytes) option"

definition INITIAL_RD_CAPACITY :: nat where
  "INITIAL_RD_CAPACITY = 64 * 1024"

section \<open>The codec\<close>

definition codec_decode :: "(bytes \<Rightarrow> message option) \<Rightarrow> bytes \<Rightarrow> io_error + message option" where
  "codec_decode decode src = (case decode src of Some m \<Rightarrow> Inr (Some m) | None \<Rightarrow> Inl InvalidData)"

definition codec_encode :: "bytes \<Rightarrow> bytes \<Rightarrow> (io_error + unit) \<times> bytes" where
  "codec_encode item dst = (Inr (), dst @ item)"

section \<open>Operations\<close>

definition udp_new :: udp_framed where
  "udp_new =
     \<lparr>uf_out_addr = SockV4 (0, 0, 0, 0) 0, uf_flushed = True, uf_recv_buf = Some (replicate INITIAL_RD_CAPACITY 0),
      uf_send_buf = Some [], uf_recv_fut = None, uf_send_fut = None\<rparr>"

text \<open>\<open>udp_frame\<close> is the match of \<^verbatim>\<open>poll_next\<close> on the result of the receive future.\<close>

definition udp_frame ::
  "(bytes \<Rightarrow> io_error + 'i option) \<Rightarrow> bytes \<Rightarrow> io_error + nat \<times> socket_addr \<Rightarrow> (io_error + 'i \<times> socket_addr) res" where
  "udp_frame dec buf r =
     (case r of
        Inl e \<Rightarrow> Inr (Inl e)
      | Inr (n, addr) \<Rightarrow>
          if length buf < n then Inl IndexOutOfBounds
          else Inr (case dec (take n buf) of
                      Inl e \<Rightarrow> Inl e
                    | Inr (Some frame) \<Rightarrow> Inr (frame, addr)
                    | Inr None \<Rightarrow> Inl (OtherError ''received empty package'')))"

definition udp_poll_next ::
  "(bytes \<Rightarrow> io_error + 'i option) \<Rightarrow> recv_poll \<Rightarrow> udp_framed
     \<Rightarrow> ((io_error + 'i \<times> socket_addr) option poll \<times> udp_framed) res" where
  "udp_poll_next dec ev u =
     res_bind (if uf_recv_fut u = None
               then res_bind (expect (uf_recv_buf u)) (\<lambda>buf. Inr (u\<lparr>uf_recv_buf := None, uf_recv_fut := Some buf\<rparr>))
               else Inr u) (\<lambda>u1.
       case ev of
         RecvPending \<Rightarrow> Inr (Pending, u1)
       | RecvDone buf r \<Rightarrow>
           res_bind (udp_frame dec buf r) (\<lambda>out.
             Inr (Ready (Some out), u1\<lparr>uf_recv_buf := Some buf, uf_recv_fut := None\<rparr>)))"

definition udp_start_send ::
  "('o \<Rightarrow> bytes \<Rightarrow> (io_error + unit) \<times> bytes) \<Rightarrow> 'o \<Rightarrow> socket_addr \<Rightarrow> udp_framed \<Rightarrow> (io_error + unit) \<times> udp_framed" where
  "udp_start_send enc frame addr u =
     (case uf_send_buf u of
        Some buf \<Rightarrow>
          (case enc frame buf of
             (Inl e, buf') \<Rightarrow> (Inl e, u\<lparr>uf_send_buf := Some buf'\<rparr>)
           | (Inr _, buf') \<Rightarrow> (Inr (), u\<lparr>uf_send_buf := Some buf', uf_out_addr := addr, uf_flushed := False\<rparr>))
      | None \<Rightarrow> (Inl (OtherError ''start_send called while send in process''), u))"

definition udp_poll_flush :: "send_poll \<Rightarrow> udp_framed \<Rightarrow> ((io_error + unit) poll \<times> udp_framed) res" where
  "udp_poll_flush ev u =
     (if uf_flushed u then Inr (Ready (Inr ()), u)
      else
        res_bind (case uf_send_fut u of
                    None \<Rightarrow>
                      res_bind (expect (uf_send_buf u)) (\<lambda>buf.
                        Inr ((uf_out_addr u, buf), u\<lparr>uf_send_buf := None, uf_send_fut := Some (uf_out_addr u, buf)\<rparr>))
                  | Some fut \<Rightarrow> Inr (fut, u)) (\<lambda>(fut, u1).
          case ev of
            SendPending \<Rightarrow> Inr (Pending, u1)
          | SendDone r \<Rightarrow>
              Inr (Ready (case r of
                            Inl e \<Rightarrow> Inl e
                          | Inr n \<Rightarrow> if n = length (snd fut) then Inr ()
                                     else Inl (OtherError ''failed to write entire datagram to socket'')),
                   u1\<lparr>uf_send_buf := Some [], uf_send_fut := None, uf_flushed := True\<rparr>)))"

definition udp_poll_ready :: "send_poll \<Rightarrow> udp_framed \<Rightarrow> ((io_error + unit) poll \<times> udp_framed) res" where
  "udp_poll_ready = udp_poll_flush"

definition udp_poll_close :: "send_poll \<Rightarrow> udp_framed \<Rightarrow> ((io_error + unit) poll \<times> udp_framed) res" where
  "udp_poll_close = udp_poll_flush"

section \<open>Buffers and futures\<close>

text \<open>A buffer is either at home or owned by its future, and there is something to send only
  while a frame is not flushed.\<close>

definition udp_ok :: "udp_framed \<Rightarrow> bool" where
  "udp_ok u \<longleftrightarrow>
     (uf_recv_buf u = None) = (uf_recv_fut u \<noteq> None) \<and>
     (uf_send_buf u = None) = (uf_send_fut u \<noteq> None) \<and>
     (uf_flushed u \<longrightarrow> uf_send_buf u = Some [])"

text \<open>The datagram that waits to be sent.\<close>

definition udp_outgoing :: "udp_framed \<Rightarrow> (socket_addr \<times> bytes) option" where
  "udp_outgoing u =
     (if uf_flushed u then None
      else case uf_send_fut u of
             Some fut \<Rightarrow> Some fut
           | None \<Rightarrow> map_option (\<lambda>buf. (uf_out_addr u, buf)) (uf_send_buf u))"

fun recv_contract :: "recv_poll \<Rightarrow> bool" where
  "recv_contract (RecvDone buf (Inr (n, addr))) = (n \<le> length buf)"
| "recv_contract _ = True"

lemma udp_new_ok [simp]: "udp_ok udp_new" "udp_outgoing udp_new = None" "uf_flushed udp_new"
  by (simp_all add: udp_ok_def udp_new_def udp_outgoing_def)

lemma udp_outgoing_recv [simp]:
  "udp_outgoing (u\<lparr>uf_recv_buf := a\<rparr>) = udp_outgoing u" "udp_outgoing (u\<lparr>uf_recv_fut := a\<rparr>) = udp_outgoing u"
  by (simp_all add: udp_outgoing_def split: option.splits)

lemma udp_outgoing_flushed: "udp_ok u \<Longrightarrow> udp_outgoing u = None \<longleftrightarrow> uf_flushed u"
  by (auto simp: udp_ok_def udp_outgoing_def split: option.splits)

text \<open>What a poll of the socket yields; \<open>None\<close> is a poll that yields nothing.\<close>

fun received :: "(bytes \<Rightarrow> io_error + 'i option) \<Rightarrow> recv_poll \<Rightarrow> (io_error + 'i \<times> socket_addr) option" where
  "received dec RecvPending = None"
| "received dec (RecvDone buf (Inl e)) = Some (Inl e)"
| "received dec (RecvDone buf (Inr (n, addr))) =
     Some (case dec (take n buf) of
             Inl e \<Rightarrow> Inl e
           | Inr (Some frame) \<Rightarrow> Inr (frame, addr)
           | Inr None \<Rightarrow> Inl (OtherError ''received empty package''))"

lemma udp_frame_received: "recv_contract (RecvDone buf r) \<Longrightarrow> udp_frame dec buf r = Inr (the (received dec (RecvDone buf r)))"
  by (cases r) (auto simp: udp_frame_def)

lemma udp_poll_next_ok:
  assumes "udp_ok u" and "recv_contract ev"
  obtains u' where "udp_poll_next dec ev u = Inr (case received dec ev of None \<Rightarrow> Pending | Some out \<Rightarrow> Ready (Some out), u')"
    "udp_ok u'" "udp_outgoing u' = udp_outgoing u" "uf_flushed u' = uf_flushed u"
proof -
  let ?arm = "if uf_recv_fut u = None
    then res_bind (expect (uf_recv_buf u)) (\<lambda>buf. Inr (u\<lparr>uf_recv_buf := None, uf_recv_fut := Some buf\<rparr>)) else Inr u"
  obtain u1 where u1: "?arm = Inr u1" "udp_ok u1" "udp_outgoing u1 = udp_outgoing u" "uf_flushed u1 = uf_flushed u"
  proof (cases "uf_recv_fut u")
    case None
    with assms obtain buf where "uf_recv_buf u = Some buf" by (auto simp: udp_ok_def)
    with None assms(1) show ?thesis
      by (intro that [of "u\<lparr>uf_recv_buf := None, uf_recv_fut := Some buf\<rparr>"]) (simp_all add: udp_ok_def)
  qed (use assms that in simp)
  show ?thesis
  proof (cases ev)
    case RecvPending
    then show ?thesis using u1 that [of u1] by (simp add: udp_poll_next_def)
  next
    case (RecvDone buf r)
    let ?u = "u1\<lparr>uf_recv_buf := Some buf, uf_recv_fut := None\<rparr>"
    have "udp_ok ?u" "udp_outgoing ?u = udp_outgoing u1" using u1(2) by (simp_all add: udp_ok_def)
    moreover obtain out where "received dec ev = Some out" using RecvDone by (cases r) auto
    ultimately show ?thesis
      using RecvDone u1 assms(2) that [of ?u] udp_frame_received [of buf r dec] by (simp add: udp_poll_next_def)
  qed
qed

lemma udp_start_send_ok:
  assumes "udp_ok u" and "uf_flushed u"
  obtains u' where "udp_start_send codec_encode frame addr u = (Inr (), u')" "udp_ok u'" "udp_outgoing u' = Some (addr, frame)"
    "\<not> uf_flushed u'"
  using assms that by (cases "uf_send_fut u") (auto simp: udp_start_send_def codec_encode_def udp_ok_def udp_outgoing_def)

lemma udp_poll_flush_ok:
  assumes "udp_ok u"
  obtains r u' where "udp_poll_flush ev u = Inr (r, u')" "udp_ok u'"
    "r = Pending \<longleftrightarrow> \<not> uf_flushed u \<and> ev = SendPending"
    "udp_outgoing u' = (if r = Pending then udp_outgoing u else None)" "uf_flushed u' \<longleftrightarrow> r \<noteq> Pending"
    "r = Ready (Inr ()) \<longleftrightarrow> uf_flushed u \<or> (\<exists>d. udp_outgoing u = Some d \<and> ev = SendDone (Inr (length (snd d))))"
proof (cases "uf_flushed u")
  case True
  then show ?thesis using assms that by (simp add: udp_poll_flush_def udp_outgoing_def)
next
  case False
  let ?arm = "case uf_send_fut u of
      None \<Rightarrow> res_bind (expect (uf_send_buf u)) (\<lambda>buf.
        Inr ((uf_out_addr u, buf), u\<lparr>uf_send_buf := None, uf_send_fut := Some (uf_out_addr u, buf)\<rparr>))
    | Some fut \<Rightarrow> Inr (fut, u)"
  obtain fut u1 where f: "udp_outgoing u = Some fut" "?arm = Inr (fut, u1)" "udp_ok u1" "uf_send_fut u1 = Some fut" "\<not> uf_flushed u1"
  proof (cases "uf_send_fut u")
    case None
    with assms obtain buf where "uf_send_buf u = Some buf" by (auto simp: udp_ok_def)
    with None assms False show ?thesis
      by (intro that [of "(uf_out_addr u, buf)" "u\<lparr>uf_send_buf := None, uf_send_fut := Some (uf_out_addr u, buf)\<rparr>"])
        (simp_all add: udp_ok_def udp_outgoing_def)
  next
    case (Some fut)
    with assms False show ?thesis by (intro that [of fut u]) (simp_all add: udp_outgoing_def)
  qed
  show ?thesis
  proof (cases ev)
    case SendPending
    then show ?thesis using f False that [of Pending u1] by (simp add: udp_poll_flush_def udp_outgoing_def)
  next
    case (SendDone r)
    let ?r = "case r of Inl e \<Rightarrow> Inl e | Inr n \<Rightarrow> if n = length (snd fut) then Inr ()
      else Inl (OtherError ''failed to write entire datagram to socket'')"
    let ?u = "u1\<lparr>uf_send_buf := Some [], uf_send_fut := None, uf_flushed := True\<rparr>"
    have "udp_poll_flush ev u = Inr (Ready ?r, ?u)" using SendDone f(2) False by (simp add: udp_poll_flush_def)
    moreover have "udp_ok ?u" "udp_outgoing ?u = None" using f(3) by (simp_all add: udp_ok_def udp_outgoing_def)
    ultimately show ?thesis using that [of "Ready ?r" ?u] SendDone f(1) False by (auto split: sum.splits if_splits)
  qed
qed

section \<open>Sending a frame\<close>

datatype udp_op = PollNext recv_poll | PollFlush send_poll

datatype 'i udp_out = NextOut "(io_error + 'i \<times> socket_addr) option poll" | FlushOut "(io_error + unit) poll"

fun udp_step :: "(bytes \<Rightarrow> io_error + 'i option) \<Rightarrow> udp_op \<Rightarrow> udp_framed \<Rightarrow> ('i udp_out \<times> udp_framed) res" where
  "udp_step dec (PollNext ev) u = res_bind (udp_poll_next dec ev u) (\<lambda>(r, u'). Inr (NextOut r, u'))"
| "udp_step dec (PollFlush ev) u = res_bind (udp_poll_flush ev u) (\<lambda>(r, u'). Inr (FlushOut r, u'))"

text \<open>The polls before the socket has sent the datagram.\<close>

fun not_yet_sent :: "udp_op \<Rightarrow> bool" where
  "not_yet_sent (PollNext ev) = recv_contract ev"
| "not_yet_sent (PollFlush ev) = (ev = SendPending)"

interpretation udp_sending: safe_steps "udp_step dec" "\<lambda>u. udp_ok u \<and> udp_outgoing u = Some d" not_yet_sent
  for dec :: "bytes \<Rightarrow> io_error + 'i option" and d
proof
  fix u :: udp_framed and e
  assume u: "udp_ok u \<and> udp_outgoing u = Some d" and e: "not_yet_sent e"
  show "\<exists>r u'. udp_step dec e u = Inr (r, u') \<and> udp_ok u' \<and> udp_outgoing u' = Some d"
  proof (cases e)
    case (PollNext ev)
    obtain r u' where "udp_poll_next dec ev u = Inr (r, u')" "udp_ok u'" "udp_outgoing u' = udp_outgoing u"
      using u e PollNext udp_poll_next_ok [of u ev dec] by (metis not_yet_sent.simps(1))
    with u PollNext show ?thesis by auto
  next
    case (PollFlush ev)
    then have "\<not> uf_flushed u" "ev = SendPending" using u e by (auto simp: udp_outgoing_def split: if_splits)
    moreover obtain r u' where "udp_poll_flush ev u = Inr (r, u')" "udp_ok u'" "r = Pending \<longleftrightarrow> \<not> uf_flushed u \<and> ev = SendPending"
      "udp_outgoing u' = (if r = Pending then udp_outgoing u else None)"
      using u udp_poll_flush_ok [of u ev] by metis
    ultimately show ?thesis using u PollFlush by auto
  qed
qed

text \<open>A frame leaves the socket whole and once.  Given to a socket that has nothing to send,
  it is accepted and waits, with its target, through any polls for incoming data and any
  unfinished polls for sending, none of which panics; when the socket has sent the datagram the
  result is success exactly if all its bytes were written, and the socket has nothing to send
  again.\<close>

lemma udp_sends_frame:
  assumes idle: "udp_ok u" "uf_flushed u" and pending: "\<forall>op \<in> set ops. not_yet_sent op"
  shows "\<exists>u0 outs u1 u2. udp_start_send codec_encode frame addr u = (Inr (), u0) \<and>
    run_ops (udp_step dec) ops u0 = Inr (outs, u1) \<and> udp_outgoing u1 = Some (addr, frame) \<and>
    udp_step dec (PollFlush (SendDone (Inr n))) u1 =
      Inr (FlushOut (Ready (if n = length frame then Inr ()
                            else Inl (OtherError ''failed to write entire datagram to socket''))), u2) \<and>
    udp_ok u2 \<and> uf_flushed u2 \<and> udp_outgoing u2 = None"
proof -
  obtain u0 where u0: "udp_start_send codec_encode frame addr u = (Inr (), u0)" "udp_ok u0" "udp_outgoing u0 = Some (addr, frame)"
    using udp_start_send_ok [OF idle] by metis
  obtain outs u1 where u1: "run_ops (udp_step dec) ops u0 = Inr (outs, u1)" "udp_ok u1" "udp_outgoing u1 = Some (addr, frame)"
    using udp_sending.run_safe [of u0 "(addr, frame)" ops dec] u0 pending by blast
  obtain r u2 where u2: "udp_poll_flush (SendDone (Inr n)) u1 = Inr (r, u2)" "udp_ok u2" "r \<noteq> Pending" "uf_flushed u2"
    "udp_outgoing u2 = None"
    using udp_poll_flush_ok [OF u1(2), of "SendDone (Inr n)"] by (smt (verit) send_poll.distinct(1))
  have "\<not> uf_flushed u1" using u1(3) by (auto simp: udp_outgoing_def)
  then have "r = Ready (if n = length frame then Inr () else Inl (OtherError ''failed to write entire datagram to socket''))"
    using u1(3) u2(1) by (auto simp: udp_poll_flush_def udp_outgoing_def res_bind_Inr_iff expect_def split: option.splits)
  then show ?thesis using u0 u1 u2 by auto
qed

lemma udp_sends_frame_witness:
  "\<exists>u0 outs u1. udp_start_send codec_encode [1, 2, 3] (SockV4 (10, 0, 0, 1) 53) udp_new = (Inr (), u0) \<and>
     run_ops (udp_step (codec_decode (\<lambda>_. None))) [PollFlush SendPending, PollNext (RecvDone [7] (Inr (1, SockV4 (10, 0, 0, 2) 53)))] u0 =
       Inr (outs, u1) \<and> udp_outgoing u1 = Some (SockV4 (10, 0, 0, 1) 53, [1, 2, 3])"
  using udp_sends_frame [of udp_new "[PollFlush SendPending, PollNext (RecvDone [7] (Inr (1, SockV4 (10, 0, 0, 2) 53)))]"
    "[1, 2, 3]" "SockV4 (10, 0, 0, 1) 53" "codec_decode (\<lambda>_. None)" 3] by (simp, blast)

end
