(* ===== verification/Dht_Crypto.thy ===== *)
theory Dht_Crypto
  imports Dht_Prelude
begin

text \<open>
  Signing and hashing of stored values, \<^verbatim>\<open>src/src/crypto.rs\<close>, with the record \<^verbatim>\<open>Mutable\<close> of
  \<^verbatim>\<open>src/src/dht_pb.proto\<close>.  The BLAKE2b hash and the Ed25519 signatures are crates outside the
  repository: \<open>blake n val\<close> is the \<open>n\<close>-byte BLAKE2b digest of \<open>val\<close>, and the functions of
  \<^verbatim>\<open>ed25519_dalek\<close> that the code calls are the fields of the record \<open>ed25519\<close>.  No law
  is assumed of them here; theorems that need one name it.
\<close>

section \<open>Data\<close>

record mutable =
  mut_value :: "bytes option"
  mut_signature :: "bytes option"
  mut_seq :: "u64 option"
  mut_salt :: "bytes option"

record ('pk, 'sk, 'sig) ed25519 =
  ed_public_from :: "bytes \<Rightarrow> 'pk option"
  ed_public_bytes :: "'pk \<Rightarrow> bytes"
  ed_sig_from :: "bytes \<Rightarrow> 'sig option"
  ed_sig_bytes :: "'sig \<Rightarrow> bytes"
  ed_sign :: "'sk \<Rightarrow> bytes \<Rightarrow> 'pk \<Rightarrow> 'sig"
  ed_verify :: "'pk \<Rightarrow> bytes \<Rightarrow> 'sig \<Rightarrow> bool"

definition VALUE_MAX_SIZE :: nat where
  "VALUE_MAX_SIZE = 1000"

definition SALT_SEG :: bytes where
  "SALT_SEG = [52, 58, 115, 97, 108, 116]"

definition SEQ_SEG :: bytes where
  "SEQ_SEG = [51, 58, 115, 101, 113, 105]"

definition V_SEG :: bytes where
  "V_SEG = [49, 58, 118]"

text \<open>The decimal digits that \<^verbatim>\<open>format!\<close> writes for an unsigned integer.\<close>

fun dec_bytes :: "nat \<Rightarrow> bytes" where
  "dec_bytes n = (if n < 10 then [of_nat (48 + n)] else dec_bytes (n div 10) @ [of_nat (48 + n mod 10)])"

declare dec_bytes.simps [simp del]

section \<open>Operations\<close>

definition salt :: "(nat \<Rightarrow> bytes \<Rightarrow> bytes) \<Rightarrow> bytes \<Rightarrow> nat \<Rightarrow> bytes res" where
  "salt blake val sz = (if 16 \<le> sz \<and> sz \<le> 64 then Inr (blake sz val) else Inl AssertFailed)"

text \<open>\<open>random\<close> holds the bytes that the random number generator delivers.\<close>

definition random_salt :: "(nat \<Rightarrow> u8) \<Rightarrow> nat \<Rightarrow> bytes res" where
  "random_salt random sz = (if 16 \<le> sz \<and> sz \<le> 64 then Inr (map random [0..<sz]) else Inl AssertFailed)"

definition hash_bytes :: "(nat \<Rightarrow> bytes \<Rightarrow> bytes) \<Rightarrow> bytes \<Rightarrow> bytes" where
  "hash_bytes blake val = blake 64 val"

definition hash_id :: "(nat \<Rightarrow> bytes \<Rightarrow> bytes) \<Rightarrow> bytes \<Rightarrow> bytes" where
  "hash_id blake val = blake 32 val"

definition signable :: "bytes \<Rightarrow> bytes option \<Rightarrow> u64 \<Rightarrow> bytes option" where
  "signable val slt seq =
     (let rest = SEQ_SEG @ dec_bytes (unat seq) @ [101] @ V_SEG @ dec_bytes (length val) @ [58] @ val
      in case slt of
           Some s \<Rightarrow> if 64 < length s then None else Some (SALT_SEG @ dec_bytes (length s) @ [58] @ s @ rest)
         | None \<Rightarrow> Some rest)"

definition unwrap_or_default :: "u64 option \<Rightarrow> u64" where
  "unwrap_or_default x = (case x of Some n \<Rightarrow> n | None \<Rightarrow> 0)"

definition signable_mutable :: "mutable \<Rightarrow> bytes option" where
  "signable_mutable m =
     (case mut_value m of
        Some val \<Rightarrow> signable val (mut_salt m) (unwrap_or_default (mut_seq m))
      | None \<Rightarrow> None)"

definition sign ::
  "('pk, 'sk, 'sig) ed25519 \<Rightarrow> 'pk \<Rightarrow> 'sk \<Rightarrow> bytes \<Rightarrow> bytes option \<Rightarrow> u64 \<Rightarrow> 'sig res" where
  "sign ed pk sk val slt seq =
     res_bind (expect (signable val slt seq)) (\<lambda>msg. Inr (ed_sign ed sk msg pk))"

definition crypto_verify :: "('pk, 'sk, 'sig) ed25519 \<Rightarrow> 'pk \<Rightarrow> bytes \<Rightarrow> 'sig \<Rightarrow> bool" where
  "crypto_verify ed pk msg sg = ed_verify ed pk msg sg"

definition signature :: "('pk, 'sk, 'sig) ed25519 \<Rightarrow> mutable \<Rightarrow> 'sig option" where
  "signature ed m =
     (case mut_signature m of
        Some sg \<Rightarrow> ed_sig_from ed sg
      | None \<Rightarrow> None)"

section \<open>What is signed determines the value\<close>

definition is_digit :: "u8 \<Rightarrow> bool" where
  "is_digit b \<longleftrightarrow> 48 \<le> unat b \<and> unat b < 58"

definition undec :: "bytes \<Rightarrow> nat" where
  "undec bs = foldl (\<lambda>a b. 10 * a + (unat b - 48)) 0 bs"

lemma digit_unat: "n < 10 \<Longrightarrow> unat (of_nat (48 + n) :: u8) = 48 + n"
  by (simp add: unat_of_nat del: of_nat_add)

lemma dec_bytes_digits: "b \<in> set (dec_bytes n) \<Longrightarrow> is_digit b"
proof (induction n rule: dec_bytes.induct)
  case (1 n)
  have "b = of_nat (48 + n) \<or> b = of_nat (48 + n mod 10) \<or> b \<in> set (dec_bytes (n div 10))" "n < 10 \<Longrightarrow> b = of_nat (48 + n)"
    "\<not> n < 10 \<Longrightarrow> b = of_nat (48 + n mod 10) \<or> b \<in> set (dec_bytes (n div 10))"
    using 1(2) by (auto simp: dec_bytes.simps [of n] simp del: of_nat_add split: if_splits)
  then show ?case using 1(1) digit_unat [of n] digit_unat [of "n mod 10"]
    by (cases "n < 10") (auto simp: is_digit_def simp del: of_nat_add)
qed

lemma undec_dec_bytes: "undec (dec_bytes n) = n"
proof (induction n rule: dec_bytes.induct)
  case (1 n)
  show ?case
  proof (cases "n < 10")
    case True
    then show ?thesis using digit_unat [of n] by (simp add: undec_def dec_bytes.simps [of n])
  next
    case False
    have "undec (dec_bytes n) = 10 * undec (dec_bytes (n div 10)) + (unat (of_nat (48 + n mod 10) :: u8) - 48)"
      using False by (simp add: undec_def dec_bytes.simps [of n] del: of_nat_add)
    then show ?thesis using 1 False digit_unat [of "n mod 10"] by simp
  qed
qed

lemma split_at_sep:
  assumes "xs @ c # us = ys @ c # vs" and "c \<notin> set xs" and "c \<notin> set ys"
  shows "xs = ys \<and> us = vs"
  using assms by (induction xs arbitrary: ys) (case_tac [!] ys, auto)

lemma dec_bytes_split:
  assumes "dec_bytes a @ c # us = dec_bytes b @ c # vs" and "\<not> is_digit c"
  shows "a = b \<and> us = vs"
  using split_at_sep [OF assms(1)] assms(2) dec_bytes_digits undec_dec_bytes by metis

lemma not_digits: "\<not> is_digit 101" "\<not> is_digit 58"
  by (simp_all add: is_digit_def)

lemma signable_rest_split:
  assumes "SEQ_SEG @ dec_bytes (unat q1) @ [101] @ V_SEG @ dec_bytes (length v1) @ [58] @ v1 =
           SEQ_SEG @ dec_bytes (unat q2) @ [101] @ V_SEG @ dec_bytes (length v2) @ [58] @ v2"
  shows "v1 = v2 \<and> (q1 :: u64) = q2"
proof -
  have "unat q1 = unat q2 \<and> V_SEG @ dec_bytes (length v1) @ [58] @ v1 = V_SEG @ dec_bytes (length v2) @ [58] @ v2"
    using assms by (intro dec_bytes_split [OF _ not_digits(1)]) simp
  then show ?thesis using dec_bytes_split [OF _ not_digits(2), of "length v1" v1 "length v2" v2]
    by (simp add: word_unat_eq_iff)
qed

lemma signable_split:
  assumes "signable v1 s1 q1 = Some msg" and "signable v2 s2 q2 = Some msg"
  shows "v1 = v2 \<and> s1 = s2 \<and> q1 = q2"
proof (cases s1; cases s2)
  fix a b assume s: "s1 = Some a" "s2 = Some b"
  let ?r = "\<lambda>q :: u64. \<lambda>v. SEQ_SEG @ dec_bytes (unat q) @ [101] @ V_SEG @ dec_bytes (length v) @ [58] @ v"
  have "dec_bytes (length a) @ 58 # (a @ ?r q1 v1) = dec_bytes (length b) @ 58 # (b @ ?r q2 v2)"
    using assms s by (auto simp: signable_def Let_def split: if_splits)
  then have "length a = length b \<and> a @ ?r q1 v1 = b @ ?r q2 v2" by (rule dec_bytes_split [OF _ not_digits(2)])
  then have "a = b \<and> ?r q1 v1 = ?r q2 v2" by (metis append_eq_append_conv)
  then show ?thesis using signable_rest_split [of q1 v1 q2 v2] s by simp
qed (use assms signable_rest_split [of q1 v1 q2 v2] in
    \<open>auto simp: signable_def Let_def SALT_SEG_def SEQ_SEG_def split: if_splits\<close>)

text \<open>C35. The signed bytes determine what was signed.  A message is built for every value and
  sequence number unless the salt is longer than 64 bytes, and two calls that give the same
  message had the same value, the same salt (none and an empty one are different) and the
  same sequence number: a signature for one triple is no signature for another.\<close>

theorem signable_injective:
  "(signable v s q = None \<longleftrightarrow> (\<exists>b. s = Some b \<and> 64 < length b)) \<and>
   (signable v s q = Some msg \<and> signable v' s' q' = Some msg \<longrightarrow> v = v' \<and> s = s' \<and> q = q')"
  using signable_split [of v s q msg v' s' q'] by (auto simp: signable_def Let_def split: option.splits)

theorem signable_injective_witness:
  "\<exists>msg. signable [118, 97, 108, 117, 101] None 0 = Some msg \<and>
     msg = [51, 58, 115, 101, 113, 105, 48, 101, 49, 58, 118, 53, 58, 118, 97, 108, 117, 101] \<and>
     signable [118, 97, 108, 117, 101] None 1 \<noteq> Some msg"
proof -
  have "signable [118, 97, 108, 117, 101] None 0 =
    Some [51, 58, 115, 101, 113, 105, 48, 101, 49, 58, 118, 53, 58, 118, 97, 108, 117, 101]"
    by (simp add: signable_def SEQ_SEG_def V_SEG_def dec_bytes.simps)
  then show ?thesis using signable_injective [of _ None 0 _ _ None 1] by auto
qed

end
