(* ===== verification/Io_Handler.thy ===== *)
theory Io_Handler
  imports Udp_Framed Dht_Crypto Query_Table
begin

text \<open>
  Sending and receiving of messages, \<^verbatim>\<open>src/src/rpc/io.rs\<close>, on the socket of \<open>Udp_Framed\<close>.  The
  functions outside the repository are the fields of \<open>rpc_lib\<close>: the SHA-256 and BLAKE2b
  digests, the protobuf codecs of \<^verbatim>\<open>Message\<close> and \<^verbatim>\<open>Holepunch\<close>, and the text that the standard
  library writes for an IPv6 address, which differs between its versions.  What the environment
  contributes to a poll (what the futures of the socket yield, the clock) is the record
  \<open>poll_env\<close>.
\<close>

section \<open>Data\<close>

record rpc_lib =
  rl_sha :: "bytes \<Rightarrow> bytes"
  rl_blake :: "nat \<Rightarrow> bytes \<Rightarrow> bytes"
  rl_v6_text :: "128 word \<Rightarrow> bytes"
  rl_encode :: "message \<Rightarrow> bytes"
  rl_decode :: "bytes \<Rightarrow> message option"
  rl_hp_encode :: "holepunch \<Rightarrow> bytes"
  rl_hp_decode :: "bytes \<Rightarrow> holepunch option"

record poll_env =
  pe_send :: send_poll
  pe_sent_at :: instant
  pe_recv :: recv_poll
  pe_now :: instant
  pe_rotated_at :: instant

record 'u request =
  rq_message :: message
  rq_peer :: peer
  rq_timestamp :: instant
  rq_user_data :: 'u

datatype 'u message_event =
    MUpdate message peer 'u
  | MQuery message peer 'u
  | MResponse message peer

datatype 'u io_event =
    OutResponse message peer
  | OutRequest u64
  | InResponse message message peer 'u      \<comment> \<open>request, response, peer, user data\<close>
  | InRequest message peer msg_type
  | OutSocketErr io_error
  | RequestTimeout message peer instant 'u
  | InMessageErr io_error peer
  | InSocketErr io_error
  | InResponseBadRequestId message peer

record io_config =
  ic_rotation :: "duration option"
  ic_secrets :: "(bytes \<times> bytes) option"

record 'u io_handler =
  io_id :: "id_bytes key option"
  io_socket :: udp_framed
  io_pending_send :: "'u message_event list"
  io_pending_flush :: "'u message_event option"
  io_pending_recv :: "(u64, 'u request) hmap"
  io_secrets :: "bytes \<times> bytes"
  io_next_req_id :: u64
  io_rotation :: duration
  io_last_rotation :: instant

definition ROTATE_INTERVAL :: nat where
  "ROTATE_INTERVAL = 300000"

definition into_event :: "'u request \<Rightarrow> 'u request + 'u message_event" where
  "into_event r =
     (case get_type (rq_message r) of
        Inr TQuery \<Rightarrow> Inr (MQuery (rq_message r) (rq_peer r) (rq_user_data r))
      | Inr TUpdate \<Rightarrow> Inr (MUpdate (rq_message r) (rq_peer r) (rq_user_data r))
      | _ \<Rightarrow> Inl r)"

fun ev_inner :: "'u message_event \<Rightarrow> message \<times> peer" where
  "ev_inner (MUpdate m p _) = (m, p)"
| "ev_inner (MQuery m p _) = (m, p)"
| "ev_inner (MResponse m p) = (m, p)"

text \<open>Writing through \<^verbatim>\<open>inner_mut\<close>, as \<^verbatim>\<open>request\<close> does with the request id.\<close>

fun ev_set_rid :: "u64 \<Rightarrow> 'u message_event \<Rightarrow> 'u message_event" where
  "ev_set_rid r (MUpdate m p d) = MUpdate (m\<lparr>msg_rid := r\<rparr>) p d"
| "ev_set_rid r (MQuery m p d) = MQuery (m\<lparr>msg_rid := r\<rparr>) p d"
| "ev_set_rid r (MResponse m p) = MResponse (m\<lparr>msg_rid := r\<rparr>) p"

definition ev_rid :: "'u message_event \<Rightarrow> u64" where
  "ev_rid ev = msg_rid (fst (ev_inner ev))"

section \<open>Construction and identifiers\<close>

text \<open>\<open>k1\<close>, \<open>k2\<close> and \<open>first\<close> are the random secrets and the random first request id.\<close>

definition io_new ::
  "bytes \<Rightarrow> bytes \<Rightarrow> u64 \<Rightarrow> instant \<Rightarrow> id_bytes key option \<Rightarrow> udp_framed \<Rightarrow> io_config \<Rightarrow> 'u io_handler" where
  "io_new k1 k2 first now i socket config =
     \<lparr>io_id = i, io_socket = socket, io_pending_send = [], io_pending_flush = None, io_pending_recv = [],
      io_secrets = (case ic_secrets config of Some s \<Rightarrow> s | None \<Rightarrow> (k1, k2)),
      io_next_req_id = first,
      io_rotation = (case ic_rotation config of Some r \<Rightarrow> r | None \<Rightarrow> ROTATE_INTERVAL),
      io_last_rotation = now\<rparr>"

definition io_msg_id :: "'u io_handler \<Rightarrow> bytes option" where
  "io_msg_id io = map_option preimage (io_id io)"

definition io_is_ephemeral :: "'u io_handler \<Rightarrow> bool" where
  "io_is_ephemeral io \<longleftrightarrow> io_id io \<noteq> None"

definition next_req_id :: "'u io_handler \<Rightarrow> u64 \<times> 'u io_handler" where
  "next_req_id io = (io_next_req_id io, io\<lparr>io_next_req_id := io_next_req_id io + 1\<rparr>)"

text \<open>The text of an IP address.\<close>

fun ip_text :: "(128 word \<Rightarrow> bytes) \<Rightarrow> socket_addr \<Rightarrow> bytes" where
  "ip_text v6 (SockV4 (a, b, c, d) _) =
     dec_bytes (unat a) @ [46] @ dec_bytes (unat b) @ [46] @ dec_bytes (unat c) @ [46] @ dec_bytes (unat d)"
| "ip_text v6 (SockV6 ip _ _ _) = v6 ip"

definition token :: "rpc_lib \<Rightarrow> peer \<Rightarrow> bytes \<Rightarrow> bytes" where
  "token x p secret = rl_blake x 64 (secret @ ip_text (rl_v6_text x) (peer_addr p))"

section \<open>Sending\<close>

definition send_message :: "'u message_event \<Rightarrow> 'u io_handler \<Rightarrow> 'u io_handler" where
  "send_message ev io = io\<lparr>io_pending_send := io_pending_send io @ [ev]\<rparr>"

definition io_holepunch ::
  "rpc_lib \<Rightarrow> message \<Rightarrow> socket_addr \<Rightarrow> socket_addr \<Rightarrow> 'u \<Rightarrow> 'u io_handler \<Rightarrow> 'u io_handler" where
  "io_holepunch x m p referrer d io =
     (let m1 = m\<lparr>msg_version := Some VERSION, msg_type := type_id TQuery, msg_to := Some (encode_addr referrer)\<rparr>;
          m2 = msg_set_holepunch (rl_hp_encode x) (holepunch_with_to (encode_addr p)) m1
      in send_message (MQuery m2 (peer_from referrer) d) io)"

definition io_request :: "rpc_lib \<Rightarrow> 'u message_event \<Rightarrow> 'u io_handler \<Rightarrow> 'u io_handler" where
  "io_request x ev0 io0 =
     (let (rid, io) = next_req_id io0;
          ev = ev_set_rid rid ev0;
          io1 = (case (ev, peer_referrer (snd (ev_inner ev))) of
                   (MUpdate m p d, Some r) \<Rightarrow> if msg_is_holepunch m then io_holepunch x m (peer_addr p) r d io else io
                 | (MQuery m p d, Some r) \<Rightarrow> if msg_is_holepunch m then io_holepunch x m (peer_addr p) r d io else io
                 | _ \<Rightarrow> io)
      in io1\<lparr>io_pending_send := io_pending_send io1 @ [ev]\<rparr>)"

definition io_query ::
  "rpc_lib \<Rightarrow> command \<Rightarrow> id_bytes option \<Rightarrow> bytes option \<Rightarrow> peer \<Rightarrow> 'u \<Rightarrow> 'u io_handler \<Rightarrow> 'u io_handler" where
  "io_query x cmd target val p d io =
     io_request x (MQuery
       \<lparr>msg_version = Some VERSION, msg_type = type_id TQuery, msg_rid = 0, msg_to = Some (encode_peer p),
        msg_id = io_msg_id io, msg_target = target, msg_closer_nodes = None, msg_roundtrip_token = None,
        msg_command = Some (command_display cmd), msg_error = None, msg_value = val\<rparr> p d) io"

definition io_update ::
  "rpc_lib \<Rightarrow> command \<Rightarrow> id_bytes option \<Rightarrow> bytes option \<Rightarrow> peer \<Rightarrow> bytes option \<Rightarrow> 'u \<Rightarrow> 'u io_handler \<Rightarrow> 'u io_handler" where
  "io_update x cmd target val p tok d io =
     io_request x (MUpdate
       \<lparr>msg_version = Some VERSION, msg_type = type_id TUpdate, msg_rid = 0, msg_to = Some (encode_peer p),
        msg_id = io_msg_id io, msg_target = target, msg_closer_nodes = None, msg_roundtrip_token = tok,
        msg_command = Some (command_display cmd), msg_error = None, msg_value = val\<rparr> p d) io"

definition io_error_reply ::
  "message \<Rightarrow> string \<Rightarrow> bytes option \<Rightarrow> bytes option \<Rightarrow> peer \<Rightarrow> 'u io_handler \<Rightarrow> 'u io_handler" where
  "io_error_reply request err val closer p io =
     send_message (MResponse
       \<lparr>msg_version = Some VERSION, msg_type = type_id TResponse, msg_rid = msg_rid request, msg_to = Some (encode_peer p),
        msg_id = io_msg_id io, msg_target = None, msg_closer_nodes = closer, msg_roundtrip_token = None,
        msg_command = None, msg_error = Some err, msg_value = val\<rparr> p) io"

definition io_reply :: "rpc_lib \<Rightarrow> message \<Rightarrow> peer \<Rightarrow> 'u io_handler \<Rightarrow> 'u io_handler" where
  "io_reply x m p io =
     (let m1 = m\<lparr>msg_id := io_msg_id io\<rparr>;
          m2 = (if msg_error m1 = None then m1\<lparr>msg_roundtrip_token := Some (token x p (fst (io_secrets io)))\<rparr> else m1)
      in send_message (MResponse m2 p) io)"

definition io_response ::
  "rpc_lib \<Rightarrow> message \<Rightarrow> bytes option \<Rightarrow> bytes option \<Rightarrow> peer \<Rightarrow> 'u io_handler \<Rightarrow> 'u io_handler" where
  "io_response x request val closer p io =
     send_message (MResponse
       \<lparr>msg_version = Some VERSION, msg_type = type_id TResponse, msg_rid = msg_rid request, msg_to = Some (encode_peer p),
        msg_id = io_msg_id io, msg_target = None, msg_closer_nodes = closer,
        msg_roundtrip_token = Some (token x p (fst (io_secrets io))),
        msg_command = None, msg_error = None, msg_value = val\<rparr> p) io"

section \<open>Receiving\<close>

definition io_on_response :: "message \<Rightarrow> peer \<Rightarrow> 'u io_handler \<Rightarrow> 'u io_event \<times> 'u io_handler" where
  "io_on_response recv p io =
     (case hm_get (io_pending_recv io) (msg_rid recv) of
        Some req \<Rightarrow>
          (InResponse (rq_message req) recv p (rq_user_data req),
           io\<lparr>io_pending_recv := hm_remove (msg_rid recv) (io_pending_recv io)\<rparr>)
      | None \<Rightarrow> (InResponseBadRequestId recv p, io))"

definition io_on_message :: "rpc_lib \<Rightarrow> message \<Rightarrow> socket_addr \<Rightarrow> 'u io_handler \<Rightarrow> 'u io_event option \<times> 'u io_handler" where
  "io_on_message x m0 rinfo io =
     (if (case msg_id m0 of Some i \<Rightarrow> length i \<noteq> 32 | None \<Rightarrow> False) then (None, io)
      else
        let m = (if msg_id m0 \<noteq> None \<and> (case msg_version m0 of Some v \<Rightarrow> v | None \<Rightarrow> 0) < VERSION
                 then m0\<lparr>msg_id := None\<rparr> else m0);
            p = peer_from rinfo
        in case get_type m of
             Inr TResponse \<Rightarrow> (let (ev, io') = io_on_response m p io in (Some ev, io'))
           | Inr TQuery \<Rightarrow> (Some (InRequest m p TQuery), io)
           | Inr TUpdate \<Rightarrow>
               (case msg_roundtrip_token m of
                  Some rt \<Rightarrow>
                    if rt \<noteq> token x p (fst (io_secrets io)) \<and> rt \<noteq> token x p (snd (io_secrets io)) then (None, io)
                    else (Some (InRequest m p TUpdate), io)
                | None \<Rightarrow> (None, io))
           | Inl _ \<Rightarrow> (None, io))"

definition rotate_secrets :: "instant \<Rightarrow> 'u io_handler \<Rightarrow> 'u io_handler" where
  "rotate_secrets now io = io\<lparr>io_secrets := (snd (io_secrets io), fst (io_secrets io)), io_last_rotation := now\<rparr>"

definition io_cancel :: "u64 \<Rightarrow> 'u io_handler \<Rightarrow> 'u message_event option \<times> 'u io_handler" where
  "io_cancel rid io =
     (case position_of (\<lambda>e. ev_rid e = rid) (io_pending_send io) of
        Some s \<Rightarrow> (Some (io_pending_send io ! s), io\<lparr>io_pending_send := remove_at s (io_pending_send io)\<rparr>)
      | None \<Rightarrow>
          (case hm_get (io_pending_recv io) rid of
             Some req \<Rightarrow>
               ((case into_event req of Inr ev \<Rightarrow> Some ev | Inl _ \<Rightarrow> None),
                io\<lparr>io_pending_recv := hm_remove rid (io_pending_recv io)\<rparr>)
           | None \<Rightarrow> (None, io)))"

section \<open>Polling\<close>

definition start_send_next :: "rpc_lib \<Rightarrow> 'u io_handler \<Rightarrow> (io_error + unit) \<times> 'u io_handler" where
  "start_send_next x io =
     (case (io_pending_flush io, io_pending_send io) of
        (None, ev # evs) \<Rightarrow>
          let (m, p) = ev_inner ev;
              (r, socket) = udp_start_send codec_encode (rl_encode x m) (peer_addr p) (io_socket io);
              io' = io\<lparr>io_pending_send := evs, io_socket := socket\<rparr>
          in (case r of Inl e \<Rightarrow> (Inl e, io') | Inr _ \<Rightarrow> (Inr (), io'\<lparr>io_pending_flush := Some ev\<rparr>))
      | _ \<Rightarrow> (Inr (), io))"

text \<open>The part of \<^verbatim>\<open>poll_next\<close> for a message that the socket took: a request waits for its
  response from now on.\<close>

fun io_sent :: "instant \<Rightarrow> 'u message_event \<Rightarrow> 'u io_handler \<Rightarrow> 'u io_event \<times> 'u io_handler" where
  "io_sent now (MUpdate m p d) io =
     (OutRequest (msg_rid m), io\<lparr>io_pending_recv := hm_insert (msg_rid m)
        \<lparr>rq_message = m, rq_peer = p, rq_timestamp = now, rq_user_data = d\<rparr> (io_pending_recv io)\<rparr>)"
| "io_sent now (MQuery m p d) io =
     (OutRequest (msg_rid m), io\<lparr>io_pending_recv := hm_insert (msg_rid m)
        \<lparr>rq_message = m, rq_peer = p, rq_timestamp = now, rq_user_data = d\<rparr> (io_pending_recv io)\<rparr>)"
| "io_sent now (MResponse m p) io = (OutResponse m p, io)"

text \<open>The rest of \<^verbatim>\<open>poll_next\<close>: the socket is read, then the secrets are rotated.\<close>

definition io_read :: "rpc_lib \<Rightarrow> poll_env \<Rightarrow> 'u io_handler \<Rightarrow> ('u io_event poll \<times> 'u io_handler) res" where
  "io_read x env io =
     res_bind (udp_poll_next (codec_decode (rl_decode x)) (pe_recv env) (io_socket io)) (\<lambda>(r, socket).
       let io1 = io\<lparr>io_socket := socket\<rparr>;
           (early, io2) = (case r of
              Ready (Some (Inr (m, rinfo))) \<Rightarrow> io_on_message x m rinfo io1
            | Ready (Some (Inl e)) \<Rightarrow> (Some (InSocketErr e), io1)
            | _ \<Rightarrow> (None, io1))
       in case early of
            Some ev \<Rightarrow> Inr (Ready ev, io2)
          | None \<Rightarrow>
              Inr (Pending, if pe_now env < io_last_rotation io2 + io_rotation io2
                            then rotate_secrets (pe_rotated_at env) io2 else io2))"

definition io_poll_next :: "rpc_lib \<Rightarrow> poll_env \<Rightarrow> 'u io_handler \<Rightarrow> ('u io_event poll \<times> 'u io_handler) res" where
  "io_poll_next x env io0 =
     (case start_send_next x io0 of
        (Inl e, io) \<Rightarrow> Inr (Ready (OutSocketErr e), io)
      | (Inr _, io) \<Rightarrow>
          (case io_pending_flush io of
             None \<Rightarrow> io_read x env io
           | Some ev \<Rightarrow>
               res_bind (udp_poll_ready (pe_send env) (io_socket io)) (\<lambda>(r, socket).
                 let io1 = io\<lparr>io_socket := socket\<rparr>
                 in if r = Pending then io_read x env io1
                    else Inr (let (e, io2) = io_sent (pe_sent_at env) ev (io1\<lparr>io_pending_flush := None\<rparr>) in (Ready e, io2)))))"

section \<open>Invariant\<close>

text \<open>The message being flushed is the one the socket has to send; a request waits under its own
  id.\<close>

definition io_ok :: "rpc_lib \<Rightarrow> 'u io_handler \<Rightarrow> bool" where
  "io_ok x io \<longleftrightarrow>
     udp_ok (io_socket io) \<and> hm_ok (io_pending_recv io) \<and>
     udp_outgoing (io_socket io) =
       map_option (\<lambda>ev. (peer_addr (snd (ev_inner ev)), rl_encode x (fst (ev_inner ev)))) (io_pending_flush io) \<and>
     (\<forall>rid r. hm_get (io_pending_recv io) rid = Some r \<longrightarrow> msg_rid (rq_message r) = rid)"

definition waiting :: "'u io_handler \<Rightarrow> u64 set" where
  "waiting io = hm_keys (io_pending_recv io)"

definition same_secrets :: "bytes \<times> bytes \<Rightarrow> 'u io_handler \<Rightarrow> bool" where
  "same_secrets s io \<longleftrightarrow> io_secrets io = s \<or> io_secrets io = (snd s, fst s)"

text \<open>What the event of a poll says about the requests that wait for a response.\<close>

fun event_waiting :: "'u io_event poll \<Rightarrow> u64 set \<Rightarrow> u64 set \<Rightarrow> bool" where
  "event_waiting (Ready (OutRequest rid)) w w' \<longleftrightarrow> w' = insert rid w"
| "event_waiting (Ready (InResponse req resp p d)) w w' \<longleftrightarrow> msg_rid req = msg_rid resp \<and> msg_rid resp \<in> w \<and> w' = w - {msg_rid resp}"
| "event_waiting (Ready (InResponseBadRequestId resp p)) w w' \<longleftrightarrow> msg_rid resp \<notin> w \<and> w' = w"
| "event_waiting (Ready (OutSocketErr e)) w w' \<longleftrightarrow> False"
| "event_waiting (Ready (RequestTimeout m p t d)) w w' \<longleftrightarrow> False"
| "event_waiting (Ready (InMessageErr e p)) w w' \<longleftrightarrow> False"
| "event_waiting _ w w' \<longleftrightarrow> w' = w"

definition io_step_ok :: "rpc_lib \<Rightarrow> 'u io_handler \<Rightarrow> 'u io_event poll \<Rightarrow> 'u io_handler \<Rightarrow> bool" where
  "io_step_ok x io r io' \<longleftrightarrow>
     io_ok x io' \<and> same_secrets (io_secrets io) io' \<and> event_waiting r (waiting io) (waiting io')"

lemma same_secrets_refl [simp]: "same_secrets (io_secrets io) io"
  by (simp add: same_secrets_def)

lemma io_on_message_ok:
  assumes "io_ok x io" and "io_on_message x m rinfo io = (e, io')"
  shows "io_ok x io' \<and> io_secrets io' = io_secrets io \<and> io_rotation io' = io_rotation io \<and>
    io_last_rotation io' = io_last_rotation io \<and>
    (case e of Some ev \<Rightarrow> event_waiting (Ready ev) (waiting io) (waiting io') | None \<Rightarrow> io' = io)"
proof -
  have "io_ok x io2 \<and> io_secrets io2 = io_secrets io \<and> io_rotation io2 = io_rotation io \<and> io_last_rotation io2 = io_last_rotation io \<and>
      event_waiting (Ready ev) (waiting io) (waiting io2)" if "io_on_response m1 p io = (ev, io2)" for m1 p ev io2
    using that assms(1) hm_get_keysD [of "io_pending_recv io" "msg_rid m1"]
    by (auto simp: io_on_response_def io_ok_def waiting_def hm_get_None split: option.splits if_splits)
  then show ?thesis using assms
    by (auto simp: io_on_message_def Let_def split: if_splits sum.splits msg_type.splits option.splits prod.splits)
qed

lemma io_read_ok:
  assumes ok: "io_ok x io" and env: "recv_contract (pe_recv env)"
  shows "\<exists>r io'. io_read x env io = Inr (r, io') \<and> io_step_ok x io r io'"
proof -
  let ?dec = "codec_decode (rl_decode x)"
  have "udp_ok (io_socket io)" using ok by (simp add: io_ok_def)
  then obtain socket where s: "udp_poll_next ?dec (pe_recv env) (io_socket io) =
      Inr (case received ?dec (pe_recv env) of None \<Rightarrow> Pending | Some out \<Rightarrow> Ready (Some out), socket)"
    "udp_ok socket" "udp_outgoing socket = udp_outgoing (io_socket io)"
    using udp_poll_next_ok [OF _ env] by metis
  let ?io = "io\<lparr>io_socket := socket\<rparr>"
  have io1: "io_ok x ?io" "waiting ?io = waiting io" using ok s by (simp_all add: io_ok_def waiting_def)
  have rot: "io_step_ok x io Pending (if b then rotate_secrets t ?io else ?io)" for b t
    using io1 by (auto simp: io_step_ok_def rotate_secrets_def same_secrets_def io_ok_def waiting_def)
  show ?thesis
  proof (cases "received ?dec (pe_recv env)")
    case None
    then show ?thesis using s(1) rot by (simp add: io_read_def Let_def)
  next
    case (Some out)
    show ?thesis
    proof (cases out)
      case (Inl e)
      then show ?thesis using s(1) Some io1 by (simp add: io_read_def Let_def io_step_ok_def same_secrets_def)
    next
      case (Inr mr)
      obtain e io2 where m: "io_on_message x (fst mr) (snd mr) ?io = (e, io2)" by fastforce
      note f = io_on_message_ok [OF io1(1) m]
      show ?thesis
      proof (cases e)
        case None
        then show ?thesis using s(1) Some Inr m f rot by (cases mr) (simp add: io_read_def Let_def)
      next
        case (Some ev)
        then have "io_step_ok x io (Ready ev) io2" using f io1 by (simp add: io_step_ok_def same_secrets_def)
        then show ?thesis using s(1) \<open>received _ _ = Some out\<close> Inr m Some by (cases mr) (simp add: io_read_def Let_def)
      qed
    qed
  qed
qed

lemma start_send_next_ok:
  assumes "io_ok x io"
  obtains io' where "start_send_next x io = (Inr (), io')" "io_ok x io'" "waiting io' = waiting io" "io_secrets io' = io_secrets io"
    "io_pending_flush io' = (case io_pending_flush io of Some ev \<Rightarrow> Some ev | None \<Rightarrow> (case io_pending_send io of [] \<Rightarrow> None | ev # _ \<Rightarrow> Some ev))"
proof (cases "io_pending_flush io = None \<and> io_pending_send io \<noteq> []")
  case True
  then obtain ev evs where ev: "io_pending_send io = ev # evs" by (cases "io_pending_send io") auto
  have "udp_ok (io_socket io)" "uf_flushed (io_socket io)"
    using assms True udp_outgoing_flushed [of "io_socket io"] by (auto simp: io_ok_def)
  then obtain u where u: "udp_start_send codec_encode (rl_encode x (fst (ev_inner ev))) (peer_addr (snd (ev_inner ev))) (io_socket io) = (Inr (), u)"
    "udp_ok u" "udp_outgoing u = Some (peer_addr (snd (ev_inner ev)), rl_encode x (fst (ev_inner ev)))"
    using udp_start_send_ok by metis
  let ?io = "io\<lparr>io_pending_send := evs, io_socket := u, io_pending_flush := Some ev\<rparr>"
  have "start_send_next x io = (Inr (), ?io)" using True ev u(1) by (cases "ev_inner ev") (simp add: start_send_next_def)
  then show ?thesis using that [of ?io] assms True ev u by (simp add: io_ok_def waiting_def)
next
  case False
  then have "start_send_next x io = (Inr (), io)" by (auto simp: start_send_next_def split: option.splits list.splits)
  then show ?thesis using that [of io] assms False by (auto split: option.splits list.splits)
qed

lemma io_poll_next_ok:
  assumes ok: "io_ok x io" and env: "recv_contract (pe_recv env)"
  shows "\<exists>r io'. io_poll_next x env io = Inr (r, io') \<and> io_step_ok x io r io'"
proof -
  obtain io1 where io1: "start_send_next x io = (Inr (), io1)" "io_ok x io1" "waiting io1 = waiting io" "io_secrets io1 = io_secrets io"
    using start_send_next_ok [OF ok] by metis
  have lift: "io_step_ok x io r io'" if "io_step_ok x io2 r io'" "waiting io2 = waiting io" "io_secrets io2 = io_secrets io" for io2 r io'
    using that by (simp add: io_step_ok_def)
  show ?thesis
  proof (cases "io_pending_flush io1")
    case None
    then show ?thesis using io1 io_read_ok [OF io1(2) env] lift [of io1] by (auto simp: io_poll_next_def)
  next
    case (Some ev)
    have "udp_ok (io_socket io1)" using io1(2) by (simp add: io_ok_def)
    then obtain r u where u: "udp_poll_flush (pe_send env) (io_socket io1) = Inr (r, u)" "udp_ok u"
      "udp_outgoing u = (if r = Pending then udp_outgoing (io_socket io1) else None)"
      using udp_poll_flush_ok by metis
    let ?io = "io1\<lparr>io_socket := u\<rparr>"
    show ?thesis
    proof (cases "r = Pending")
      case True
      then have "io_ok x ?io" using io1(2) u by (simp add: io_ok_def)
      from io_read_ok [OF this env] obtain r' io' where rd: "io_read x env ?io = Inr (r', io')" "io_step_ok x ?io r' io'" by blast
      then have "io_step_ok x io r' io'" using lift [of ?io] io1 by (simp add: waiting_def)
      then show ?thesis using True rd(1) io1(1) Some u(1) by (simp add: io_poll_next_def udp_poll_ready_def)
    next
      case False
      obtain e io2 where e: "io_sent (pe_sent_at env) ev (?io\<lparr>io_pending_flush := None\<rparr>) = (e, io2)" by fastforce
      then have "io_step_ok x io (Ready e) io2"
        using io1 u False by (cases ev) (auto simp: io_step_ok_def io_ok_def waiting_def same_secrets_def split: if_splits)
      then show ?thesis using e False io1(1) Some u(1) by (simp add: io_poll_next_def udp_poll_ready_def)
    qed
  qed
qed

section \<open>Sequences of operations\<close>

datatype 'u io_op =
    IoQuery command "id_bytes option" "bytes option" peer 'u
  | IoUpdate command "id_bytes option" "bytes option" peer "bytes option" 'u
  | IoErrorReply message string "bytes option" "bytes option" peer
  | IoReply message peer
  | IoResponse message "bytes option" "bytes option" peer
  | IoSend "'u message_event"
  | IoCancel u64
  | IoPoll poll_env

datatype 'u io_out = IoDone | IoCancelled "'u message_event option" | IoPolled "'u io_event poll"

fun io_step :: "rpc_lib \<Rightarrow> 'u io_op \<Rightarrow> 'u io_handler \<Rightarrow> ('u io_out \<times> 'u io_handler) res" where
  "io_step x (IoQuery cmd target val p d) io = Inr (IoDone, io_query x cmd target val p d io)"
| "io_step x (IoUpdate cmd target val p tok d) io = Inr (IoDone, io_update x cmd target val p tok d io)"
| "io_step x (IoErrorReply m err val closer p) io = Inr (IoDone, io_error_reply m err val closer p io)"
| "io_step x (IoReply m p) io = Inr (IoDone, io_reply x m p io)"
| "io_step x (IoResponse m val closer p) io = Inr (IoDone, io_response x m val closer p io)"
| "io_step x (IoSend ev) io = Inr (IoDone, send_message ev io)"
| "io_step x (IoCancel rid) io = (let (r, io') = io_cancel rid io in Inr (IoCancelled r, io'))"
| "io_step x (IoPoll env) io = res_bind (io_poll_next x env io) (\<lambda>(r, io'). Inr (IoPolled r, io'))"

fun io_adm :: "'u io_op \<Rightarrow> bool" where
  "io_adm (IoPoll env) = recv_contract (pe_recv env)"
| "io_adm _ = True"

text \<open>How often a request with an id was sent, and how often a response to it was delivered.\<close>

fun is_sent :: "u64 \<Rightarrow> 'u io_out \<Rightarrow> bool" where
  "is_sent rid (IoPolled (Ready (OutRequest r))) = (r = rid)"
| "is_sent rid _ = False"

fun is_answer :: "u64 \<Rightarrow> 'u io_out \<Rightarrow> bool" where
  "is_answer rid (IoPolled (Ready (InResponse req resp p d))) = (msg_rid resp = rid)"
| "is_answer rid _ = False"

definition num_sent :: "u64 \<Rightarrow> 'u io_out list \<Rightarrow> nat" where
  "num_sent rid outs = length (filter (is_sent rid) outs)"

definition num_answers :: "u64 \<Rightarrow> 'u io_out list \<Rightarrow> nat" where
  "num_answers rid outs = length (filter (is_answer rid) outs)"

fun never_emitted :: "'u io_out \<Rightarrow> bool" where
  "never_emitted (IoPolled (Ready (OutSocketErr e))) = True"
| "never_emitted (IoPolled (Ready (RequestTimeout m p t d))) = True"
| "never_emitted (IoPolled (Ready (InMessageErr e p))) = True"
| "never_emitted _ = False"

definition io_inv :: "rpc_lib \<Rightarrow> bytes \<times> bytes \<Rightarrow> 'u io_out list \<Rightarrow> 'u io_handler \<Rightarrow> bool" where
  "io_inv x secrets outs io \<longleftrightarrow>
     io_ok x io \<and> same_secrets secrets io \<and> (\<forall>e \<in> set outs. \<not> never_emitted e) \<and>
     (\<forall>rid. num_answers rid outs + (if rid \<in> waiting io then 1 else 0) \<le> num_sent rid outs)"

lemma io_ok_frame [simp]:
  "io_ok x (io\<lparr>io_pending_send := q\<rparr>) = io_ok x io" "io_ok x (io\<lparr>io_next_req_id := r\<rparr>) = io_ok x io"
  "waiting (io\<lparr>io_pending_send := q\<rparr>) = waiting io" "waiting (io\<lparr>io_next_req_id := r\<rparr>) = waiting io"
  "same_secrets s (io\<lparr>io_pending_send := q\<rparr>) = same_secrets s io" "same_secrets s (io\<lparr>io_next_req_id := r\<rparr>) = same_secrets s io"
  by (simp_all add: io_ok_def waiting_def same_secrets_def)

lemma send_message_frame [simp]:
  "io_ok x (send_message ev io) = io_ok x io" "waiting (send_message ev io) = waiting io"
  "same_secrets s (send_message ev io) = same_secrets s io"
  by (simp_all add: send_message_def)

lemma io_request_frame [simp]:
  "io_ok x (io_request x ev io) = io_ok x io" "waiting (io_request x ev io) = waiting io"
  "same_secrets s (io_request x ev io) = same_secrets s io"
  by (cases ev; simp add: io_request_def next_req_id_def io_holepunch_def Let_def split: option.splits)+

lemma io_cancel_frame:
  assumes "io_ok x io" and "io_cancel rid io = (r, io')"
  shows "io_ok x io' \<and> waiting io' \<subseteq> waiting io \<and> io_secrets io' = io_secrets io"
  using assms by (auto simp: io_cancel_def io_ok_def waiting_def split: option.splits if_splits)

lemma io_inv_quiet:
  assumes "io_inv x s outs io" and "io_ok x io'" "same_secrets s io'" "waiting io' \<subseteq> waiting io"
    and "\<not> never_emitted o'" "\<And>rid. \<not> is_sent rid o'" "\<And>rid. \<not> is_answer rid o'"
  shows "io_inv x s (outs @ [o']) io'"
proof -
  have n: "num_answers rid outs + (if rid \<in> waiting io then 1 else 0) \<le> num_sent rid outs" for rid
    using assms(1) by (simp add: io_inv_def)
  have "num_answers rid outs + (if rid \<in> waiting io' then 1 else 0) \<le> num_sent rid outs" for rid
    using n [of rid] assms(4) by (auto split: if_splits)
  then show ?thesis using assms by (auto simp: io_inv_def num_answers_def num_sent_def)
qed

lemma io_inv_poll:
  assumes inv: "io_inv x s outs io" and step: "io_step_ok x io r io'"
  shows "io_inv x s (outs @ [IoPolled r]) io'"
proof -
  have new: "io_ok x io'" "same_secrets s io'" using inv step by (auto simp: io_step_ok_def io_inv_def same_secrets_def)
  have ev: "event_waiting r (waiting io) (waiting io')" using step by (simp add: io_step_ok_def)
  have n: "num_answers rid outs + (if rid \<in> waiting io then 1 else 0) \<le> num_sent rid outs" for rid
    using inv by (simp add: io_inv_def)
  have old: "\<forall>e \<in> set outs. \<not> never_emitted e" using inv by (simp add: io_inv_def)
  show ?thesis
  proof (cases r)
    case Pending
    then show ?thesis using io_inv_quiet [OF inv new] ev by simp
  next
    case (Ready e)
    have "\<not> never_emitted (IoPolled r) \<and> num_answers rid (outs @ [IoPolled r]) + (if rid \<in> waiting io' then 1 else 0)
        \<le> num_sent rid (outs @ [IoPolled r])" for rid
      using n [of rid] ev Ready by (cases e) (auto simp: num_answers_def num_sent_def split: if_splits)
    then show ?thesis using new old unfolding io_inv_def by auto
  qed
qed

lemma io_step_traced:
  assumes inv: "io_inv x s outs io" and adm: "io_adm op"
  shows "\<exists>r io'. io_step x op io = Inr (r, io') \<and> io_inv x s (outs @ [r]) io'"
proof -
  note q = io_inv_quiet [OF inv]
  have ok: "io_ok x io" "same_secrets s io" using inv by (simp_all add: io_inv_def)
  show ?thesis
  proof (cases op)
    case (IoCancel rid)
    obtain r io' where c: "io_cancel rid io = (r, io')" by fastforce
    then show ?thesis using IoCancel q [of io' "IoCancelled r"] io_cancel_frame [OF ok(1) c] ok by (simp add: same_secrets_def)
  next
    case (IoPoll env)
    then show ?thesis using io_poll_next_ok [OF ok(1)] adm io_inv_poll [OF inv] by fastforce
  qed (use q [of _ IoDone] ok in \<open>simp_all add: io_query_def io_update_def io_error_reply_def io_reply_def io_response_def Let_def\<close>)
qed

interpretation io: traced_steps "io_step x" "io_inv x s" io_adm
  for x s
  by unfold_locales (rule io_step_traced)

definition initial_secrets :: "bytes \<Rightarrow> bytes \<Rightarrow> io_config \<Rightarrow> bytes \<times> bytes" where
  "initial_secrets k1 k2 config = (case ic_secrets config of Some s \<Rightarrow> s | None \<Rightarrow> (k1, k2))"

lemma io_new_inv: "io_inv x (initial_secrets k1 k2 config) [] (io_new k1 k2 first now i udp_new config)"
  by (simp add: io_inv_def io_ok_def same_secrets_def waiting_def io_new_def initial_secrets_def num_answers_def num_sent_def)

lemma io_run_inv:
  assumes "io_inv x s outs io" and "\<forall>op \<in> set ops. io_adm op" and "run_ops (io_step x) ops io = Inr (outs', io')"
  shows "io_inv x s (outs @ outs') io'"
  using io.run_traced [OF assms(1,2)] assms(3) by auto

text \<open>An update is checked against the tokens for both secrets, whichever comes first.\<close>

lemma same_secrets_image:
  assumes "same_secrets s io"
  shows "{f (fst (io_secrets io)), f (snd (io_secrets io))} = {f (fst s), f (snd s)}"
  using assms unfolding same_secrets_def by (elim disjE) (simp_all add: insert_commute)

text \<open>A node id on the wire is missing (the sender is ephemeral) or has 32 bytes.  The id of a sender
  with an older version is dropped.\<close>

definition sender_ok :: "bytes option \<Rightarrow> bool" where
  "sender_ok i \<longleftrightarrow> (case i of Some b \<Rightarrow> length b = 32 | None \<Rightarrow> True)"

definition known_sender :: "message \<Rightarrow> message" where
  "known_sender m = (if (case msg_version m of Some v \<Rightarrow> v | None \<Rightarrow> 0) < VERSION then m\<lparr>msg_id := None\<rparr> else m)"

lemma io_on_message_update:
  assumes "msg_type m = type_id TUpdate" and "same_secrets s io"
  shows "io_on_message x m rinfo io =
    (if sender_ok (msg_id m) \<and>
        msg_roundtrip_token m \<in> {Some (token x (peer_from rinfo) (fst s)), Some (token x (peer_from rinfo) (snd s))}
     then (Some (InRequest (known_sender m) (peer_from rinfo) TUpdate), io) else (None, io))"
proof -
  let ?tok = "\<lambda>t. Some (token x (peer_from rinfo) t)"
  have "io_on_message x m rinfo io =
    (if sender_ok (msg_id m) \<and> msg_roundtrip_token m \<in> {?tok (fst (io_secrets io)), ?tok (snd (io_secrets io))}
     then (Some (InRequest (known_sender m) (peer_from rinfo) TUpdate), io) else (None, io))"
    using assms(1) by (cases "msg_roundtrip_token m"; cases "msg_id m") (auto simp: io_on_message_def get_type_def sender_ok_def known_sender_def)
  then show ?thesis unfolding same_secrets_image [OF assms(2), of ?tok] .
qed

section \<open>Properties\<close>

text \<open>C36. Requests and responses match.  No sequence of calls and polls on a new handler panics,
  whatever the socket delivers.  A response is handed on only for a request that was sent and
  has not been answered: for every request id there are at most as many delivered responses as
  sent requests.  A send is never started while another one is in process, and, although the
  event exists, no request is ever reported as timed out.\<close>

theorem io_run_matched:
  assumes "\<forall>op \<in> set ops. io_adm op"
  shows "\<exists>outs io. run_ops (io_step x) ops (io_new k1 k2 first now i udp_new config) = Inr (outs, io) \<and>
    length outs = length ops \<and>
    (\<forall>rid. num_answers rid outs + (if rid \<in> waiting io then 1 else 0) \<le> num_sent rid outs) \<and>
    (\<forall>e m p t d. IoPolled (Ready (OutSocketErr e)) \<notin> set outs \<and> IoPolled (Ready (RequestTimeout m p t d)) \<notin> set outs)"
proof -
  obtain outs io where "run_ops (io_step x) ops (io_new k1 k2 first now i udp_new config) = Inr (outs, io)" "length outs = length ops"
    "io_inv x (initial_secrets k1 k2 config) outs io"
    using io.run_traced [OF io_new_inv [of x k1 k2 config first now i] assms] by auto
  then show ?thesis by (force simp: io_inv_def)
qed

text \<open>A library for the witnesses: the codec writes the request id only.\<close>

definition sample_rpc :: rpc_lib where
  "sample_rpc =
     \<lparr>rl_sha = sample_hash, rl_blake = (\<lambda>n val. take n (val @ replicate n 0)), rl_v6_text = (\<lambda>_. []),
      rl_encode = (\<lambda>m. [ucast (msg_rid m)]), rl_decode = (\<lambda>b. Some (sample_message\<lparr>msg_rid := ucast (hd b), msg_type := 3\<rparr>)),
      rl_hp_encode = sample_encode, rl_hp_decode = sample_decode\<rparr>"

definition sample_poll :: "send_poll \<Rightarrow> recv_poll \<Rightarrow> poll_env" where
  "sample_poll snd_ev rcv_ev = \<lparr>pe_send = snd_ev, pe_sent_at = 1, pe_recv = rcv_ev, pe_now = 2, pe_rotated_at = 3\<rparr>"

text \<open>A ping is sent and its response received twice: the second one is not delivered.\<close>

definition sample_ops :: "unit io_op list" where
  "sample_ops =
     [IoQuery Ping None None (peer_from (SockV4 (10, 0, 0, 2) 53)) (),
      IoPoll (sample_poll (SendDone (Inr 1)) RecvPending),
      IoPoll (sample_poll SendPending (RecvDone [5] (Inr (1, SockV4 (10, 0, 0, 2) 53)))),
      IoPoll (sample_poll SendPending (RecvDone [5] (Inr (1, SockV4 (10, 0, 0, 2) 53))))]"

lemma sample_ops_adm: "\<forall>op \<in> set sample_ops. io_adm op"
  by (simp add: sample_ops_def sample_poll_def)

theorem io_run_matched_witness:
  "\<exists>outs io. run_ops (io_step sample_rpc) sample_ops (io_new [1] [2] 5 0 None udp_new \<lparr>ic_rotation = None, ic_secrets = None\<rparr>) = Inr (outs, io) \<and>
     length outs = 4 \<and> num_answers 5 outs \<le> num_sent 5 outs"
proof -
  obtain outs io where "run_ops (io_step sample_rpc) sample_ops (io_new [1] [2] 5 0 None udp_new \<lparr>ic_rotation = None, ic_secrets = None\<rparr>) = Inr (outs, io)"
    "length outs = length sample_ops" "num_answers 5 outs + (if 5 \<in> waiting io then 1 else 0) \<le> num_sent 5 outs"
    using io_run_matched [OF sample_ops_adm] by blast
  then show ?thesis by (intro exI [of _ outs] exI [of _ io] conjI) (simp_all add: sample_ops_def del: run_ops.simps)
qed

text \<open>C37. Which updates are accepted.  After any sequence of operations, an update message from
  an address is handed on exactly if its node id is missing or has 32 bytes and it carries the token
  of that address for one of the two secrets the handler started with; otherwise it is dropped, and
  in both cases the handler is as before.  It is handed on unchanged, but without its node id if
  the sender has an older version.  The rotation of the secrets only swaps them, so the tokens
  accepted are the same at all times: none ever expires.\<close>

theorem update_token_check:
  assumes adm: "\<forall>op \<in> set ops. io_adm op"
    and run: "run_ops (io_step x) ops (io_new k1 k2 first now i udp_new \<lparr>ic_rotation = rot, ic_secrets = Some (s1, s2)\<rparr>) = Inr (outs, io)"
    and upd: "msg_type m = type_id TUpdate"
  shows "io_on_message x m rinfo io =
    (if (case msg_id m of Some b \<Rightarrow> length b = 32 | None \<Rightarrow> True) \<and>
        (msg_roundtrip_token m = Some (token x (peer_from rinfo) s1) \<or> msg_roundtrip_token m = Some (token x (peer_from rinfo) s2))
     then (Some (InRequest (known_sender m) (peer_from rinfo) TUpdate), io) else (None, io))"
proof -
  have "same_secrets (s1, s2) io"
    using io_run_inv [OF io_new_inv adm run] by (simp add: io_inv_def initial_secrets_def)
  from io_on_message_update [OF upd this] show ?thesis by (simp add: sender_ok_def)
qed

theorem update_token_check_witness:
  "\<exists>outs io. run_ops (io_step sample_rpc) sample_ops (io_new [] [] 5 0 None udp_new \<lparr>ic_rotation = None, ic_secrets = Some ([1], [2])\<rparr>) = Inr (outs, io) \<and>
     io_on_message sample_rpc (sample_message\<lparr>msg_type := 2, msg_id := Some (replicate 32 7), msg_roundtrip_token := Some []\<rparr>) (SockV4 (10, 0, 0, 2) 53) io = (None, io)"
proof -
  let ?c = "\<lparr>ic_rotation = None, ic_secrets = Some ([1], [2])\<rparr>" and ?m = "sample_message\<lparr>msg_type := 2, msg_id := Some (replicate 32 7), msg_roundtrip_token := Some []\<rparr>"
  obtain outs io where run: "run_ops (io_step sample_rpc) sample_ops (io_new [] [] 5 0 None udp_new ?c) = Inr (outs, io)"
    using io.run_traced [OF io_new_inv sample_ops_adm] by blast
  show ?thesis
    using run update_token_check [OF sample_ops_adm run, of ?m "SockV4 (10, 0, 0, 2) 53"]
    by (intro exI [of _ outs] exI [of _ io] conjI) (simp_all add: token_def sample_rpc_def del: run_ops.simps replicate.simps)
qed

text \<open>C38. Tokens make the round trip.  The token in a reply without error to a peer is accepted
  in an update that comes from an address with the same IP, whatever the port, after any
  further operations, from an ephemeral sender (without a node id) as well as from one with a node
  id of 32 bytes.  (The handler drops a message with any other id, and the id of an older version.)\<close>

theorem token_roundtrip:
  assumes adm: "\<forall>op \<in> set (ops1 @ ops2). io_adm op"
    and run1: "run_ops (io_step x) ops1 (io_new k1 k2 first now i udp_new config) = Inr (outs1, io1)"
    and reply: "msg_error req = None" "io_pending_send (io_reply x req p io1) = io_pending_send io1 @ [MResponse resp p]"
    and run2: "run_ops (io_step x) ops2 (io_reply x req p io1) = Inr (outs2, io2)"
    and upd: "msg_type m = type_id TUpdate" "msg_roundtrip_token m = msg_roundtrip_token resp"
    and sender: "msg_id m = None \<or> (\<exists>b. msg_id m = Some b \<and> length b = 32)"
    and ip: "ip_text (rl_v6_text x) a = ip_text (rl_v6_text x) (peer_addr p)"
  shows "io_on_message x m a io2 = (Some (InRequest (known_sender m) (peer_from a) TUpdate), io2)"
proof -
  let ?s = "initial_secrets k1 k2 config"
  have inv1: "io_inv x ?s outs1 io1" using io_run_inv [OF io_new_inv _ run1] adm by simp
  have "io_inv x ?s (outs1 @ [IoDone]) (io_reply x req p io1)"
    using io_step_traced [OF inv1, of "IoReply req p"] by simp
  from io_run_inv [OF this _ run2] adm have io2: "same_secrets ?s io2" by (simp add: io_inv_def)
  have "msg_roundtrip_token resp = Some (token x p (fst (io_secrets io1)))"
    using reply by (auto simp: io_reply_def send_message_def Let_def)
  moreover have "token x (peer_from a) s = token x p s" for s using ip by (simp add: token_def peer_from_def)
  moreover have "same_secrets ?s io1" using inv1 by (simp add: io_inv_def)
  ultimately have "msg_roundtrip_token m \<in> {Some (token x (peer_from a) (fst ?s)), Some (token x (peer_from a) (snd ?s))}"
    using upd(2) same_secrets_image [of ?s io1 "\<lambda>t. Some (token x p t)"] by (metis insertI1)
  moreover have "sender_ok (msg_id m)" using sender by (auto simp: sender_ok_def)
  ultimately show ?thesis using io_on_message_update [OF upd(1) io2] by simp
qed

theorem token_roundtrip_witness:
  "\<exists>io1 outs2 io2 (resp :: message). run_ops (io_step sample_rpc) sample_ops (io_reply sample_rpc (sample_message\<lparr>msg_error := None\<rparr>) (peer_from (SockV4 (10, 0, 0, 2) 53)) io1) = Inr (outs2, io2) \<and>
     (let m = sample_message\<lparr>msg_type := 2, msg_id := Some (replicate 32 7), msg_roundtrip_token := msg_roundtrip_token resp\<rparr>
      in io_on_message sample_rpc m (SockV4 (10, 0, 0, 2) 99) io2 = (Some (InRequest (known_sender m) (peer_from (SockV4 (10, 0, 0, 2) 99)) TUpdate), io2))"
proof -
  let ?c = "\<lparr>ic_rotation = None, ic_secrets = Some ([1], [2])\<rparr>" and ?req = "sample_message\<lparr>msg_error := None\<rparr>"
    and ?p = "peer_from (SockV4 (10, 0, 0, 2) 53)"
  let ?io = "io_new [] [] 5 0 None udp_new ?c :: unit io_handler"
  have adm: "\<forall>op \<in> set ([] @ sample_ops). io_adm op" using sample_ops_adm by simp
  obtain r where r: "io_inv sample_rpc ([1], [2]) [r] (io_reply sample_rpc ?req ?p ?io)"
    using io_step_traced [OF io_new_inv [of sample_rpc "[]" "[]" ?c 5 0 None], of "IoReply ?req ?p"] by (auto simp: initial_secrets_def)
  obtain outs2 io2 where run: "run_ops (io_step sample_rpc) sample_ops (io_reply sample_rpc ?req ?p ?io) = Inr (outs2, io2)"
    using io.run_traced [OF r sample_ops_adm] by blast
  obtain resp where resp: "io_pending_send (io_reply sample_rpc ?req ?p ?io) = io_pending_send ?io @ [MResponse resp ?p]"
    by (simp add: io_reply_def send_message_def Let_def)
  let ?m = "sample_message\<lparr>msg_type := 2, msg_id := Some (replicate 32 7), msg_roundtrip_token := msg_roundtrip_token resp\<rparr>"
  have "io_on_message sample_rpc ?m (SockV4 (10, 0, 0, 2) 99) io2 =
      (Some (InRequest (known_sender ?m) (peer_from (SockV4 (10, 0, 0, 2) 99)) TUpdate), io2)"
    by (rule token_roundtrip [OF adm _ _ resp run]) (simp_all add: peer_from_def del: replicate.simps)
  with run show ?thesis unfolding Let_def by blast
qed

end
