(* ===== verification/Rpc_Dht.thy ===== *)
theory Rpc_Dht
  imports Kad_Nodes Query_Stream Io_Handler
begin

text \<open>
  The DHT node, \<^verbatim>\<open>RpcDht\<close> of \<^verbatim>\<open>src/src/rpc/mod.rs\<close>, with the periodic jobs of \<^verbatim>\<open>src/src/rpc/jobs.rs\<close>.
  It owns the routing table (\<open>Kad_Table\<close>), the pool of queries (\<open>Query_Stream\<close>) and the IO handler
  (\<open>Io_Handler\<close>), and it is driven by \<^verbatim>\<open>poll_next\<close>.  What the environment contributes to a
  handler (readings of the clock, iteration orders of hash maps) is the record \<open>rpc_env\<close>; the
  readings are indexed by the round of the loop they are made in.  \<^verbatim>\<open>poll_next\<close> polls the IO
  handler again and again, so it takes the list of what the environment contributes to each
  round; its result is \<open>None\<close> when that list ends before the poll does.
\<close>

section \<open>Data\<close>

record periodic_job =
  pj_interval :: duration
  pj_deadline :: instant

datatype request_error =
    UnsupportedCommand string message peer
  | MissingTarget message peer
  | InvalidType int message peer
  | MissingCommand peer
  | InvalidValue message peer

datatype response_ok = Pong peer | ResponseOk response

datatype response_error = InvalidPong peer

datatype rpc_event =
    RequestResult "request_error + command_query"
  | ResponseResult "response_error + response_ok"
  | RoutingUpdated peer "peer_id option"
  | Bootstrapped query_stats
  | QueryResult u64 command query_stats

type_synonym dht_table = "(id_bytes, dht_node) kbuckets_table"

record rpc_dht =
  rd_id :: "id_bytes key"
  rd_kbuckets :: dht_table
  rd_io :: "u64 io_handler"
  rd_bootstrap_job :: periodic_job
  rd_ping_job :: periodic_job
  rd_queries :: query_pool
  rd_commands :: "string set"
  rd_queued_events :: "rpc_event list"
  rd_bootstrap_nodes :: "socket_addr list"
  rd_bootstrapped :: bool

record dht_config =
  dc_kbucket_pending_timeout :: duration
  dc_local_id :: "id_bytes option"
  dc_commands :: "string set"
  dc_query_config :: query_config
  dc_io_config :: io_config
  dc_bootstrap_interval :: duration
  dc_ping_interval :: duration
  dc_connection_idle_timeout :: duration
  dc_ephemeral :: bool
  dc_adaptive :: bool
  dc_bootstrap_nodes :: "socket_addr list option"

record rpc_env =
  re_entry :: "nat \<Rightarrow> instant"
  re_now :: "nat \<Rightarrow> instant"
  re_insert :: "nat \<Rightarrow> instant"
  re_iter :: "nat \<Rightarrow> instant"
  re_closest :: "buckets_iter_state \<Rightarrow> instant"
  re_order :: peer_order
  re_qorder :: "(u64, query_stream) hmap \<Rightarrow> u64 list"

text \<open>\<^verbatim>\<open>Default for DhtConfig\<close>; durations are in milliseconds.\<close>

definition dht_config_default :: dht_config where
  "dht_config_default =
     \<lparr>dc_kbucket_pending_timeout = 60 * 1000, dc_local_id = None, dc_commands = {}, dc_query_config = query_config_default,
      dc_io_config = \<lparr>ic_rotation = None, ic_secrets = None\<rparr>, dc_bootstrap_interval = 320 * 1000, dc_ping_interval = 40 * 1000,
      dc_connection_idle_timeout = 10 * 1000, dc_ephemeral = False, dc_adaptive = False, dc_bootstrap_nodes = None\<rparr>"

definition register_commands :: "string list \<Rightarrow> dht_config \<Rightarrow> dht_config" where
  "register_commands cmds c = fold (\<lambda>cmd c. c\<lparr>dc_commands := insert cmd (dc_commands c)\<rparr>) cmds c"

text \<open>The setters of the configuration; \<open>resolve\<close> stands for \<^verbatim>\<open>to_socket_addrs\<close>.\<close>

definition set_local_id :: "id_bytes \<Rightarrow> dht_config \<Rightarrow> dht_config" where
  "set_local_id i c = c\<lparr>dc_local_id := Some i\<rparr>"

definition set_secrets :: "bytes \<times> bytes \<Rightarrow> dht_config \<Rightarrow> dht_config" where
  "set_secrets s c = c\<lparr>dc_io_config := (dc_io_config c)\<lparr>ic_secrets := Some s\<rparr>\<rparr>"

definition set_key_rotation_interval :: "duration \<Rightarrow> dht_config \<Rightarrow> dht_config" where
  "set_key_rotation_interval r c = c\<lparr>dc_io_config := (dc_io_config c)\<lparr>ic_rotation := Some r\<rparr>\<rparr>"

definition set_query_timeout :: "duration \<Rightarrow> dht_config \<Rightarrow> dht_config" where
  "set_query_timeout t c = c\<lparr>dc_query_config := (dc_query_config c)\<lparr>qc_timeout := t\<rparr>\<rparr>"

definition set_parallelism :: "nat \<Rightarrow> dht_config \<Rightarrow> dht_config" where
  "set_parallelism n c = c\<lparr>dc_query_config := (dc_query_config c)\<lparr>qc_parallelism := n\<rparr>\<rparr>"

definition set_replication_factor :: "nat \<Rightarrow> dht_config \<Rightarrow> dht_config" where
  "set_replication_factor n c = c\<lparr>dc_query_config := (dc_query_config c)\<lparr>qc_replication_factor := n\<rparr>\<rparr>"

definition bootstrap_interval :: "duration \<Rightarrow> dht_config \<Rightarrow> dht_config" where
  "bootstrap_interval i c = c\<lparr>dc_bootstrap_interval := i\<rparr>"

definition ping_interval :: "duration \<Rightarrow> dht_config \<Rightarrow> dht_config" where
  "ping_interval i c = c\<lparr>dc_ping_interval := i\<rparr>"

definition ephemeral :: "dht_config \<Rightarrow> dht_config" where
  "ephemeral c = c\<lparr>dc_ephemeral := True\<rparr>"

definition set_ephemeral :: "bool \<Rightarrow> dht_config \<Rightarrow> dht_config" where
  "set_ephemeral b c = c\<lparr>dc_ephemeral := b\<rparr>"

definition adaptive :: "dht_config \<Rightarrow> dht_config" where
  "adaptive c = c\<lparr>dc_adaptive := True\<rparr>"

definition empty_bootstrap_nodes :: "dht_config \<Rightarrow> dht_config" where
  "empty_bootstrap_nodes c = c\<lparr>dc_bootstrap_nodes := Some []\<rparr>"

definition set_bootstrap_nodes :: "('a \<Rightarrow> socket_addr list option) \<Rightarrow> 'a list \<Rightarrow> dht_config \<Rightarrow> dht_config" where
  "set_bootstrap_nodes resolve addresses c =
     c\<lparr>dc_bootstrap_nodes := Some (concat (map (\<lambda>a. case resolve a of Some as \<Rightarrow> as | None \<Rightarrow> []) addresses))\<rparr>"

section \<open>Periodic jobs\<close>

definition job_new :: "instant \<Rightarrow> duration \<Rightarrow> periodic_job" where
  "job_new now interval = \<lparr>pj_interval = interval, pj_deadline = now + interval\<rparr>"

text \<open>\<open>fired\<close> tells whether the timer behind the job is ready.\<close>

definition job_poll :: "bool \<Rightarrow> instant \<Rightarrow> periodic_job \<Rightarrow> unit poll \<times> periodic_job" where
  "job_poll fired now j =
     (if fired then (Ready (), j\<lparr>pj_deadline := now + pj_interval j\<rparr>) else (Pending, j))"

section \<open>Starting queries\<close>

definition id_key :: "rpc_lib \<Rightarrow> id_bytes \<Rightarrow> id_bytes key" where
  "id_key x i = key_new (rl_sha x) (\<lambda>b. b) i"

definition push_event :: "rpc_event \<Rightarrow> rpc_dht \<Rightarrow> rpc_dht" where
  "push_event ev d = d\<lparr>rd_queued_events := rd_queued_events d @ [ev]\<rparr>"

definition run_command ::
  "rpc_lib \<Rightarrow> rpc_env \<Rightarrow> command \<Rightarrow> id_bytes key \<Rightarrow> bytes option \<Rightarrow> query_type \<Rightarrow> rpc_dht \<Rightarrow> (u64 \<times> rpc_dht) res" where
  "run_command x e cmd target val ty d =
     res_bind (closest (re_closest e) (rd_kbuckets d) (key_bytes target) K_VALUE) (\<lambda>(es, t).
       let peers = map (\<lambda>en. key_new (rl_sha x) pid_id
                          \<lparr>pid_addr = dn_addr (node_value (ev_node en)), pid_id = preimage (node_key (ev_node en))\<rparr>) es;
           (i, pool) = pool_add_stream cmd peers ty target val (map peer_from (rd_bootstrap_nodes d)) (rd_queries d)
       in Inr (i, d\<lparr>rd_kbuckets := t, rd_queries := pool\<rparr>))"

definition rpc_query :: "rpc_lib \<Rightarrow> rpc_env \<Rightarrow> command \<Rightarrow> id_bytes key \<Rightarrow> bytes option \<Rightarrow> rpc_dht \<Rightarrow> (u64 \<times> rpc_dht) res" where
  "rpc_query x e cmd target val d = run_command x e cmd target val QTQuery d"

definition rpc_update :: "rpc_lib \<Rightarrow> rpc_env \<Rightarrow> command \<Rightarrow> id_bytes key \<Rightarrow> bytes option \<Rightarrow> rpc_dht \<Rightarrow> (u64 \<times> rpc_dht) res" where
  "rpc_update x e cmd target val d = run_command x e cmd target val QTUpdate d"

definition query_and_update :: "rpc_lib \<Rightarrow> rpc_env \<Rightarrow> command \<Rightarrow> id_bytes key \<Rightarrow> bytes option \<Rightarrow> rpc_dht \<Rightarrow> (u64 \<times> rpc_dht) res" where
  "query_and_update x e cmd target val d = run_command x e cmd target val QTQueryUpdate d"

definition rpc_bootstrap :: "rpc_lib \<Rightarrow> rpc_env \<Rightarrow> rpc_dht \<Rightarrow> rpc_dht res" where
  "rpc_bootstrap x e d =
     (if rd_bootstrap_nodes d \<noteq> [] then
        res_bind (rpc_query x e FindNode (rd_id d) None d) (\<lambda>(_, d'). Inr d')
      else if \<not> rd_bootstrapped d then
        Inr ((push_event (Bootstrapped stats_empty) d)\<lparr>rd_bootstrapped := True\<rparr>)
      else Inr d)"

text \<open>\<open>k1\<close>, \<open>k2\<close>, \<open>first\<close> and \<open>random_id\<close> are random numbers; the socket is bound.\<close>

definition with_config ::
  "rpc_lib \<Rightarrow> rpc_env \<Rightarrow> bytes \<Rightarrow> bytes \<Rightarrow> u64 \<Rightarrow> id_bytes \<Rightarrow> instant \<Rightarrow> dht_config \<Rightarrow> rpc_dht res" where
  "with_config x e k1 k2 first random_id now config =
     (let local_id = id_key x (case dc_local_id config of Some i \<Rightarrow> i | None \<Rightarrow> random_id);
          query_id = (if dc_ephemeral config then None else Some local_id)
      in rpc_bootstrap x e
           \<lparr>rd_id = local_id, rd_kbuckets = table_new local_id (dc_kbucket_pending_timeout config),
            rd_io = io_new k1 k2 first now query_id udp_new (dc_io_config config),
            rd_bootstrap_job = job_new now (dc_bootstrap_interval config), rd_ping_job = job_new now (dc_ping_interval config),
            rd_queries = pool_new local_id (dc_query_config config), rd_commands = dc_commands config, rd_queued_events = [],
            rd_bootstrap_nodes = (case dc_bootstrap_nodes config of Some ns \<Rightarrow> ns | None \<Rightarrow> []), rd_bootstrapped = False\<rparr>)"

definition rpc_is_ephemeral :: "rpc_dht \<Rightarrow> bool" where
  "rpc_is_ephemeral d = io_is_ephemeral (rd_io d)"

definition register_command :: "string \<Rightarrow> rpc_dht \<Rightarrow> bool \<times> rpc_dht" where
  "register_command cmd d = (cmd \<notin> rd_commands d, d\<lparr>rd_commands := insert cmd (rd_commands d)\<rparr>)"

section \<open>Pings and holepunches\<close>

definition rpc_ping :: "rpc_lib \<Rightarrow> peer_id \<Rightarrow> rpc_dht \<Rightarrow> rpc_dht" where
  "rpc_ping x p d =
     (let (i, pool) = pool_next_query_id (rd_queries d)
      in d\<lparr>rd_queries := pool, rd_io := io_query x Ping None (Some (pid_id p)) (peer_from (pid_addr p)) i (rd_io d)\<rparr>)"

definition ping_some :: "rpc_lib \<Rightarrow> rpc_env \<Rightarrow> rpc_dht \<Rightarrow> rpc_dht res" where
  "ping_some x e d =
     (let cnt = (if 2 < length (qp_queries (rd_queries d)) then 3 else 5);
          due = (\<lambda>n. if dn_next_ping (node_value n) < re_now e 0
                      then Some \<lparr>pid_addr = dn_addr (node_value n), pid_id = preimage (node_key n)\<rparr> else None)
      in res_bind (table_iter_take (re_iter e) due cnt [0..<length (tb_buckets (rd_kbuckets d))] (rd_kbuckets d)) (\<lambda>(ps, t).
           Inr (fold (rpc_ping x) ps (d\<lparr>rd_kbuckets := t\<rparr>))))"

definition rpc_holepunch :: "rpc_lib \<Rightarrow> peer \<Rightarrow> rpc_dht \<Rightarrow> bool \<times> rpc_dht" where
  "rpc_holepunch x p d =
     (if peer_referrer p \<noteq> None then
        let (i, pool) = pool_next_query_id (rd_queries d)
        in (True, d\<lparr>rd_queries := pool, rd_io := io_query x HolepunchCmd None None p i (rd_io d)\<rparr>)
      else (False, d))"

section \<open>The routing table\<close>

definition add_node ::
  "rpc_lib \<Rightarrow> rpc_env \<Rightarrow> nat \<Rightarrow> id_bytes \<Rightarrow> peer \<Rightarrow> bytes option \<Rightarrow> socket_addr option \<Rightarrow> rpc_dht \<Rightarrow> rpc_dht res" where
  "add_node x e j i p tok to d =
     (let key = id_key x i; next_ping = re_now e j + pj_interval (rd_ping_job d)
      in res_bind (table_entry (re_entry e j) (rd_kbuckets d) key) (\<lambda>(en, t).
           case en of
             Present er _ \<Rightarrow>
               res_bind (present_value_mut (\<lambda>n. n\<lparr>dn_next_ping := next_ping\<rparr>) er) (\<lambda>er'.
                 Inr (d\<lparr>rd_kbuckets := table_commit key (er_bucket er') t\<rparr>))
           | PendingE er _ \<Rightarrow>
               res_bind (pending_entry_value_mut (\<lambda>n. n\<lparr>dn_addr := peer_addr p, dn_next_ping := next_ping\<rparr>) er) (\<lambda>er'.
                 Inr (d\<lparr>rd_kbuckets := table_commit key (er_bucket er') t\<rparr>))
           | Absent er \<Rightarrow>
               res_bind (absent_insert (re_insert e j)
                   \<lparr>dn_addr = peer_addr p, dn_roundtrip_token = tok, dn_to = to, dn_next_ping = next_ping, dn_referrers = []\<rparr>
                   Connected er) (\<lambda>(r, b).
                 let d' = d\<lparr>rd_kbuckets := table_commit key b t\<rparr>
                 in Inr (case r of Inserted \<Rightarrow> push_event (RoutingUpdated p None) d' | _ \<Rightarrow> d'))
           | SelfEntry \<Rightarrow> Inr (d\<lparr>rd_kbuckets := t\<rparr>)))"

definition remove_peer ::
  "rpc_env \<Rightarrow> nat \<Rightarrow> id_bytes key \<Rightarrow> rpc_dht \<Rightarrow> ((id_bytes, dht_node) entry_view option \<times> rpc_dht) res" where
  "remove_peer e j key d =
     res_bind (table_entry (re_entry e j) (rd_kbuckets d) key) (\<lambda>(en, t).
       case en of
         Present er _ \<Rightarrow> res_bind (present_remove er) (\<lambda>(v, b). Inr (Some v, d\<lparr>rd_kbuckets := table_commit key b t\<rparr>))
       | PendingE er _ \<Rightarrow> res_bind (pending_remove er) (\<lambda>(v, b). Inr (Some v, d\<lparr>rd_kbuckets := table_commit key b t\<rparr>))
       | _ \<Rightarrow> Inr (None, d\<lparr>rd_kbuckets := t\<rparr>))"

definition remove_node :: "rpc_env \<Rightarrow> peer \<Rightarrow> rpc_dht \<Rightarrow> ((id_bytes, dht_node) entry_view option \<times> rpc_dht) res" where
  "remove_node e p d =
     res_bind (table_iter_take (re_iter e) (\<lambda>n. if dn_addr (node_value n) = peer_addr p then Some (node_key n) else None)
         1 [0..<length (tb_buckets (rd_kbuckets d))] (rd_kbuckets d)) (\<lambda>(ks, t).
       let d' = d\<lparr>rd_kbuckets := t\<rparr>
       in case ks of k # _ \<Rightarrow> remove_peer e 0 k d' | [] \<Rightarrow> Inr (None, d'))"

definition closer_nodes :: "rpc_lib \<Rightarrow> rpc_env \<Rightarrow> id_bytes \<Rightarrow> nat \<Rightarrow> rpc_dht \<Rightarrow> (bytes \<times> rpc_dht) res" where
  "closer_nodes x e key num d =
     res_bind (closest (re_closest e) (rd_kbuckets d) (keybytes_new (rl_sha x) key) num) (\<lambda>(es, t).
       Inr (encode_entries es, d\<lparr>rd_kbuckets := t\<rparr>))"

section \<open>Responses\<close>

definition on_pong :: "rpc_lib \<Rightarrow> rpc_env \<Rightarrow> message \<Rightarrow> peer \<Rightarrow> rpc_dht \<Rightarrow> rpc_dht res" where
  "on_pong x e m p d =
     res_bind (valid_id_bytes m) (\<lambda>i.
       case i of
         None \<Rightarrow> Inr (push_event (ResponseResult (Inl (InvalidPong p))) d)
       | Some i \<Rightarrow>
           let key = id_key x i; bump = (\<lambda>n. n\<lparr>dn_next_ping := re_now e 0 + pj_interval (rd_ping_job d)\<rparr>)
           in res_bind (table_entry (re_entry e 0) (rd_kbuckets d) key) (\<lambda>(en, t).
                case en of
                  Present er _ \<Rightarrow>
                    res_bind (present_value_mut bump er) (\<lambda>er'.
                    res_bind (present_value er') (\<lambda>v.
                      Inr (push_event (ResponseResult (Inr (Pong (peer_from (dn_addr v)))))
                            (d\<lparr>rd_kbuckets := table_commit key (er_bucket er') t\<rparr>))))
                | PendingE er _ \<Rightarrow>
                    res_bind (pending_entry_value_mut bump er) (\<lambda>er'.
                    res_bind (pending_value er') (\<lambda>v.
                      Inr (push_event (ResponseResult (Inr (Pong (peer_from (dn_addr v)))))
                            (d\<lparr>rd_kbuckets := table_commit key (er_bucket er') t\<rparr>))))
                | _ \<Rightarrow> Inr (push_event (ResponseResult (Inl (InvalidPong p))) (d\<lparr>rd_kbuckets := t\<rparr>))))"

definition put_query :: "u64 \<Rightarrow> query_stream \<Rightarrow> rpc_dht \<Rightarrow> rpc_dht" where
  "put_query i q d = d\<lparr>rd_queries := (rd_queries d)\<lparr>qp_queries := hm_insert i q (qp_queries (rd_queries d))\<rparr>\<rparr>"

definition rpc_on_response :: "rpc_lib \<Rightarrow> rpc_env \<Rightarrow> message \<Rightarrow> message \<Rightarrow> peer \<Rightarrow> u64 \<Rightarrow> rpc_dht \<Rightarrow> rpc_dht res" where
  "rpc_on_response x e req resp p i d =
     (if msg_is_ping req then on_pong x e resp p d
      else
        case pool_get (rd_queries d) i of
          None \<Rightarrow> Inr d
        | Some q \<Rightarrow>
            res_bind (qs_inject_response (rl_sha x) resp p q) (\<lambda>(r, q').
              let d' = put_query i q' d
              in Inr (case r of Some rsp \<Rightarrow> push_event (ResponseResult (Inr (ResponseOk rsp))) d' | None \<Rightarrow> d')))"

section \<open>Requests\<close>

definition on_command_req :: "msg_type \<Rightarrow> string \<Rightarrow> message \<Rightarrow> peer \<Rightarrow> rpc_dht \<Rightarrow> rpc_dht res" where
  "on_command_req ty command m p d =
     res_bind (valid_target_id_bytes m) (\<lambda>target.
       Inr (case target of
              Some target \<Rightarrow>
                if command \<in> rd_commands d then
                  push_event (RequestResult (Inr \<lparr>cq_rid = msg_rid m, cq_ty = ty, cq_command = command, cq_peer = p,
                    cq_target = target, cq_value = msg_value m\<rparr>)) d
                else push_event (RequestResult (Inl (UnsupportedCommand command m p))) d
            | None \<Rightarrow> push_event (RequestResult (Inl (MissingTarget m p))) d))"

definition rpc_reply :: "rpc_lib \<Rightarrow> rpc_env \<Rightarrow> message \<Rightarrow> peer \<Rightarrow> id_bytes \<Rightarrow> rpc_dht \<Rightarrow> rpc_dht res" where
  "rpc_reply x e m p key d =
     res_bind (closer_nodes x e key K_VALUE d) (\<lambda>(nodes, d').
       let m1 = m\<lparr>msg_closer_nodes := Some nodes\<rparr>;
           m2 = (if msg_error m1 \<noteq> None then m1\<lparr>msg_value := None\<rparr> else m1)
       in Inr (d'\<lparr>rd_io := io_reply x m2 p (rd_io d')\<rparr>))"

definition reply_command :: "rpc_lib \<Rightarrow> rpc_env \<Rightarrow> command_query_response \<Rightarrow> rpc_dht \<Rightarrow> rpc_dht res" where
  "reply_command x e resp d = rpc_reply x e (cr_msg resp) (cr_peer resp) (cr_target resp) d"

definition on_ping :: "rpc_lib \<Rightarrow> message \<Rightarrow> peer \<Rightarrow> rpc_dht \<Rightarrow> rpc_dht" where
  "on_ping x m p d =
     (if (case msg_value m of Some val \<Rightarrow> preimage (rd_id d) \<noteq> val | None \<Rightarrow> False)
      then push_event (RequestResult (Inl (InvalidValue m p))) d
      else d\<lparr>rd_io := io_response x m (Some (encode_peer p)) None p (rd_io d)\<rparr>)"

definition on_findnode :: "rpc_lib \<Rightarrow> rpc_env \<Rightarrow> message \<Rightarrow> peer \<Rightarrow> rpc_dht \<Rightarrow> rpc_dht res" where
  "on_findnode x e m p d =
     res_bind (valid_target_id_bytes m) (\<lambda>key.
       case key of
         Some key \<Rightarrow>
           res_bind (closer_nodes x e key K_VALUE d) (\<lambda>(nodes, d').
             Inr (d'\<lparr>rd_io := io_response x m None (Some nodes) p (rd_io d')\<rparr>))
       | None \<Rightarrow> Inr d)"

definition on_holepunch :: "rpc_lib \<Rightarrow> message \<Rightarrow> peer \<Rightarrow> rpc_dht \<Rightarrow> rpc_dht" where
  "on_holepunch x m p d =
     (case msg_decode_holepunch (rl_hp_decode x) m of
        None \<Rightarrow> d
      | Some val \<Rightarrow>
          if hp_to val \<noteq> None then
            (case holepunch_decode_to_peer val of
               Some to \<Rightarrow>
                 if to = peer_addr p then d
                 else
                   let m1 = m\<lparr>msg_version := Some VERSION, msg_id := io_msg_id (rd_io d), msg_to := Some (encode_addr to)\<rparr>;
                       m2 = msg_set_holepunch (rl_hp_encode x) (holepunch_with_from (encode_peer p)) m1
                   in d\<lparr>rd_io := send_message (MResponse m2 p) (rd_io d)\<rparr>
             | None \<Rightarrow> d)
          else
            let p' = (case holepunch_decode_from_peer val of Some from \<Rightarrow> peer_from from | None \<Rightarrow> p)
            in d\<lparr>rd_io := io_response x m None None p' (rd_io d)\<rparr>)"

definition on_request :: "rpc_lib \<Rightarrow> rpc_env \<Rightarrow> message \<Rightarrow> peer \<Rightarrow> msg_type \<Rightarrow> rpc_dht \<Rightarrow> rpc_dht res" where
  "on_request x e m p ty d0 =
     res_bind (valid_id_bytes m) (\<lambda>i.
     res_bind (case i of Some i \<Rightarrow> add_node x e 0 i p None (msg_decode_to_peer m) d0 | None \<Rightarrow> Inr d0) (\<lambda>d.
       case get_command m of
         Some Ping \<Rightarrow> Inr (on_ping x m p d)
       | Some FindNode \<Rightarrow> on_findnode x e m p d
       | Some HolepunchCmd \<Rightarrow> Inr (on_holepunch x m p d)
       | Some (UnknownCmd s) \<Rightarrow> on_command_req ty s m p d
       | None \<Rightarrow>
           if msg_target m = None then Inr (push_event (RequestResult (Inl (MissingTarget m p))) d)
           else
             res_bind (valid_target_id_bytes m) (\<lambda>key.
             res_bind (case key of
                         Some key \<Rightarrow> rpc_reply x e (m\<lparr>msg_error := Some ''Unsupported command''\<rparr>) p key d
                       | None \<Rightarrow> Inr d) (\<lambda>d'.
               Inr (push_event (RequestResult (Inl (MissingCommand p))) d')))))"

section \<open>Events\<close>

fun inject_event :: "rpc_lib \<Rightarrow> rpc_env \<Rightarrow> u64 io_event \<Rightarrow> rpc_dht \<Rightarrow> rpc_dht res" where
  "inject_event x e (InRequest m p ty) d = on_request x e m p ty d"
| "inject_event x e (InResponseBadRequestId m p) d = res_bind (remove_node e p d) (\<lambda>(_, d'). Inr d')"
| "inject_event x e (InResponse req resp p i) d = rpc_on_response x e req resp p i d"
| "inject_event x e (RequestTimeout m p t i) d =
     (case pool_get (rd_queries d) i of
        Some q \<Rightarrow> res_bind (qs_on_timeout (re_order e) p q) (\<lambda>q'. Inr (put_query i q' d))
      | None \<Rightarrow> Inr d)"
| "inject_event x e _ d = Inr d"

fun inject_query_event :: "rpc_lib \<Rightarrow> rpc_env \<Rightarrow> u64 \<Rightarrow> query_event \<Rightarrow> rpc_dht \<Rightarrow> rpc_dht res" where
  "inject_query_event x e i (EvQuery p cmd target val) d =
     Inr (d\<lparr>rd_io := io_query x cmd (Some target) val p i (rd_io d)\<rparr>)"
| "inject_query_event x e i (EvRemoveNode k) d = res_bind (remove_peer e 0 (id_key x k) d) (\<lambda>(_, d'). Inr d')"
| "inject_query_event x e i (EvMissingRoundtripToken p) d = Inr d"
| "inject_query_event x e i (EvUpdate p cmd target val tok) d =
     Inr (d\<lparr>rd_io := io_update x cmd (Some target) val p tok i (rd_io d)\<rparr>)"

fun add_results :: "rpc_lib \<Rightarrow> rpc_env \<Rightarrow> nat \<Rightarrow> (peer_id \<times> peer_state) list \<Rightarrow> rpc_dht \<Rightarrow> rpc_dht res" where
  "add_results x e j [] d = Inr d"
| "add_results x e j ((p, s) # ps) d =
     res_bind (case s of
                 FailedPeer \<Rightarrow> res_bind (remove_peer e j (id_key x (pid_id p)) d) (\<lambda>(_, d'). Inr d')
               | SucceededPeer tok to \<Rightarrow> add_node x e j (pid_id p) (peer_from (pid_addr p)) (Some tok) to d
               | _ \<Rightarrow> Inr d) (add_results x e (j + 1) ps)"

definition query_finished :: "rpc_lib \<Rightarrow> rpc_env \<Rightarrow> query_stream \<Rightarrow> rpc_dht \<Rightarrow> (rpc_event \<times> rpc_dht) res" where
  "query_finished x e q d =
     (let is_find_node = command_is_find_node (qs_cmd q); result = qs_into_result (re_order e) q
      in res_bind (add_results x e 0 (qr_peers result) d) (\<lambda>d'.
           Inr (if is_find_node \<and> \<not> rd_bootstrapped d'
                then (Bootstrapped (qr_stats result), d'\<lparr>rd_bootstrapped := True\<rparr>)
                else (QueryResult (qr_inner result) (qr_cmd result) (qr_stats result), d'))))"

definition query_timeout :: "rpc_lib \<Rightarrow> rpc_env \<Rightarrow> query_stream \<Rightarrow> rpc_dht \<Rightarrow> (rpc_event \<times> rpc_dht) res" where
  "query_timeout x e q d = query_finished x e q d"

section \<open>Polling\<close>

definition pop_event :: "rpc_dht \<Rightarrow> (rpc_event \<times> rpc_dht) option" where
  "pop_event d = (case rd_queued_events d of ev # evs \<Rightarrow> Some (ev, d\<lparr>rd_queued_events := evs\<rparr>) | [] \<Rightarrow> None)"

fun rpc_loop ::
  "rpc_lib \<Rightarrow> instant \<Rightarrow> (poll_env \<times> rpc_env) list \<Rightarrow> rpc_dht \<Rightarrow> (rpc_event poll \<times> rpc_dht) option res" where
  "rpc_loop x now [] d = Inr None"
| "rpc_loop x now ((pe, e) # es) d =
     res_bind (io_poll_next x pe (rd_io d)) (\<lambda>(r, io).
       let d1 = d\<lparr>rd_io := io\<rparr>
       in case r of
            Ready ev \<Rightarrow>
              res_bind (inject_event x e ev d1) (\<lambda>d2.
                case pop_event d2 of
                  Some (ev', d3) \<Rightarrow> Inr (Some (Ready ev', d3))
                | None \<Rightarrow> rpc_loop x now es d2)
          | Pending \<Rightarrow>
              res_bind (pool_poll (re_order e) (re_qorder e) now (rd_queries d1)) (\<lambda>(ps, pool).
                let d2 = d1\<lparr>rd_queries := pool\<rparr>
                in case ps of
                     PoolWaiting (Some (i, ev)) \<Rightarrow>
                       res_bind (expect (pool_get pool i)) (\<lambda>q.
                       res_bind (inject_query_event x e (qs_id q) ev d2) (rpc_loop x now es))
                   | PoolFinished q \<Rightarrow> res_bind (query_finished x e q d2) (\<lambda>(ev, d3). Inr (Some (Ready ev, d3)))
                   | PoolTimeout q \<Rightarrow> res_bind (query_timeout x e q d2) (\<lambda>(ev, d3). Inr (Some (Ready ev, d3)))
                   | _ \<Rightarrow>
                       Inr (Some (case pop_event d2 of Some (ev, d3) \<Rightarrow> (Ready ev, d3) | None \<Rightarrow> (Pending, d2)))))"

text \<open>\<open>bfired\<close> and \<open>pfired\<close> tell whether the timers of the two jobs are ready.\<close>

definition rpc_poll_next ::
  "rpc_lib \<Rightarrow> instant \<Rightarrow> bool \<Rightarrow> bool \<Rightarrow> rpc_env \<Rightarrow> (poll_env \<times> rpc_env) list \<Rightarrow> rpc_dht
     \<Rightarrow> (rpc_event poll \<times> rpc_dht) option res" where
  "rpc_poll_next x now bfired pfired e es d0 =
     (let (rb, jb) = job_poll bfired now (rd_bootstrap_job d0); d1 = d0\<lparr>rd_bootstrap_job := jb\<rparr>
      in res_bind (if rb = Ready ()
                   then res_bind (table_iter (re_iter e) (rd_kbuckets d1)) (\<lambda>(ns, t).
                          let d2 = d1\<lparr>rd_kbuckets := t\<rparr> in if length ns < 20 then rpc_bootstrap x e d2 else Inr d2)
                   else Inr d1) (\<lambda>d3.
           let (rp, jp) = job_poll pfired now (rd_ping_job d3); d4 = d3\<lparr>rd_ping_job := jp\<rparr>
           in res_bind (if rp = Ready () then ping_some x e d4 else Inr d4) (\<lambda>d5.
                case pop_event d5 of
                  Some (ev, d6) \<Rightarrow> Inr (Some (Ready ev, d6))
                | None \<Rightarrow> rpc_loop x now es d5)))"

section \<open>Invariant\<close>

text \<open>Every key of the routing table is the hash of its id.\<close>

definition good_key :: "rpc_lib \<Rightarrow> id_bytes key \<Rightarrow> bool" where
  "good_key x k \<longleftrightarrow> key_bytes k = rl_sha x (preimage k)"

definition tab_ok :: "rpc_lib \<Rightarrow> dht_table \<Rightarrow> bool" where
  "tab_ok x t \<longleftrightarrow> table_ok t \<and> good_key x (local_key t) \<and> (\<forall>k \<in> table_node_keys t. good_key x k)"

text \<open>\<open>now\<close> bounds the start times of the queries and \<open>n\<close> the responses each has counted.\<close>

definition pool_inv :: "rpc_lib \<Rightarrow> instant \<Rightarrow> nat \<Rightarrow> id_bytes key \<Rightarrow> query_pool \<Rightarrow> bool" where
  "pool_inv x now n k p \<longleftrightarrow>
     qp_local_id p = k \<and> pool_ok (rl_sha x) now (qp_queries p) \<and>
     (\<forall>i q. hm_get (qp_queries p) i = Some q \<longrightarrow> stats_total q \<le> n)"

definition rpc_ok :: "rpc_lib \<Rightarrow> instant \<Rightarrow> nat \<Rightarrow> rpc_dht \<Rightarrow> bool" where
  "rpc_ok x now n d \<longleftrightarrow>
     tab_ok x (rd_kbuckets d) \<and> io_ok x (rd_io d) \<and> rd_id d = local_key (rd_kbuckets d) \<and>
     pool_inv x now n (local_key (rd_kbuckets d)) (rd_queries d)"

text \<open>What the code relies on in the hash function: its digests have 32 bytes.\<close>

definition sha_32 :: "rpc_lib \<Rightarrow> bool" where
  "sha_32 x \<longleftrightarrow> (\<forall>b. length (rl_sha x b) = 32)"

lemma good_id_key [simp]: "good_key x (id_key x i)"
  by (simp add: good_key_def id_key_def key_new_def keybytes_new_def)

lemma good_key_is_key: "sha_32 x \<Longrightarrow> good_key x k \<Longrightarrow> is_key (key_bytes k)"
  by (simp add: sha_32_def good_key_def)

lemma rpc_ok_push [simp]: "rpc_ok x now n (push_event ev d) = rpc_ok x now n d"
  by (simp add: rpc_ok_def push_event_def)

lemma rpc_ok_frame [simp]:
  "rpc_ok x now n (d\<lparr>rd_queued_events := evs\<rparr>) = rpc_ok x now n d"
  "rpc_ok x now n (d\<lparr>rd_bootstrapped := b\<rparr>) = rpc_ok x now n d"
  "rpc_ok x now n (d\<lparr>rd_bootstrap_job := j\<rparr>) = rpc_ok x now n d"
  "rpc_ok x now n (d\<lparr>rd_ping_job := j\<rparr>) = rpc_ok x now n d"
  by (simp_all add: rpc_ok_def)

lemma rpc_ok_io: "rpc_ok x now n d \<Longrightarrow> io_ok x io \<Longrightarrow> rpc_ok x now n (d\<lparr>rd_io := io\<rparr>)"
  by (simp add: rpc_ok_def)

lemma rpc_ok_table:
  "rpc_ok x now n d \<Longrightarrow> tab_ok x t \<Longrightarrow> local_key t = local_key (rd_kbuckets d) \<Longrightarrow> rpc_ok x now n (d\<lparr>rd_kbuckets := t\<rparr>)"
  by (simp add: rpc_ok_def)

lemma io_ok_sends [simp]:
  "io_ok x (io_query x cmd target val p i io) = io_ok x io"
  "io_ok x (io_update x cmd target val p tok i io) = io_ok x io"
  "io_ok x (io_reply x m p io) = io_ok x io"
  "io_ok x (io_response x m val closer p io) = io_ok x io"
  by (simp_all add: io_query_def io_update_def io_reply_def io_response_def Let_def)

lemma tab_ok_sub:
  assumes "tab_ok x t" and "table_ok t'" "local_key t' = local_key t" "table_node_keys t' \<subseteq> table_node_keys t"
  shows "tab_ok x t'"
  using assms by (auto simp: tab_ok_def)

lemma tab_entry_cases:
  assumes ok: "tab_ok x t" and sha: "sha_32 x" and key: "good_key x key"
  obtains (Self) "table_entry now t key = Inr (SelfEntry, t)"
  | (Bucket) i b t' where "table_entry now t key = Inr (entry_new b key, t')" "tab_ok x t'" "local_key t' = local_key t"
      "bucket_at (key_bytes (local_key t)) i b"
      "bucket_index_new (keybytes_distance (key_bytes (local_key t)) (key_bytes key)) = Some i"
      "\<And>b'. bucket_at (key_bytes (local_key t)) i b' \<Longrightarrow> bucket_node_keys b' \<subseteq> insert key (bucket_node_keys b) \<Longrightarrow>
         tab_ok x (table_commit key b' t') \<and> local_key (table_commit key b' t') = local_key t"
proof -
  have tok: "table_ok t" and kok: "is_key (key_bytes key)" using ok good_key_is_key [OF sha key] by (simp_all add: tab_ok_def)
  from tok kok show thesis
  proof (cases rule: table_entry_cases [of t key now])
    case Self
    then show thesis using that(1) by simp
  next
    case (Bucket i b t')
    have "table_visit now i t = Inr (b, t')"
      using Bucket(1,3,6) by (auto simp: table_entry_def res_bind_Inr_iff table_visit_def vec_index_def split: if_splits)
    note vk = table_visit_node_keys [OF this]
    have t': "tab_ok x t'" by (rule tab_ok_sub [OF ok Bucket(4,5) vk(1)])
    have commit: "tab_ok x (table_commit key b' t') \<and> local_key (table_commit key b' t') = local_key t"
      if "bucket_at (key_bytes (local_key t)) i b'" "bucket_node_keys b' \<subseteq> insert key (bucket_node_keys b)" for b'
    proof -
      have "table_commit key b' t' = t'\<lparr>tb_buckets := (tb_buckets t')[i := b'], tb_applied := tb_applied t'\<rparr>"
        using Bucket(1,5) by (simp add: table_commit_def table_index_def)
      moreover have "bucket_node_keys b \<subseteq> table_node_keys t'" using vk(3) by (auto simp: table_node_keys_def)
      ultimately have "table_node_keys (table_commit key b' t') \<subseteq> insert key (table_node_keys t')"
        "local_key (table_commit key b' t') = local_key t"
        using that(2) table_put_node_keys [of b' key t' "tb_applied t'" i] Bucket(5) by auto
      then show ?thesis using t' key table_step_bucket [OF Bucket(4,5,1) that(1)] Bucket(5) by (auto simp: tab_ok_def)
    qed
    show thesis by (rule that(2) [OF Bucket(3) t' Bucket(5,7) _ commit]) (use Bucket(1) in \<open>simp_all add: table_index_def\<close>)
  qed
qed

lemma entry_refs:
  "entry_new b key = Present er st \<Longrightarrow> er_bucket er = b" "entry_new b key = PendingE er st \<Longrightarrow> er_bucket er = b"
  "entry_new b key = Absent er \<Longrightarrow> er_bucket er = b \<and> er_key er = key" "entry_new b key \<noteq> SelfEntry"
  by (auto simp: entry_new_def split: option.splits)

section \<open>The routing table stays well formed\<close>

lemma add_node_ok:
  assumes ok: "rpc_ok x now n d" and sha: "sha_32 x"
  shows "\<exists>d'. add_node x e j i p tok to d = Inr d' \<and> rpc_ok x now n d'"
proof -
  have tab: "tab_ok x (rd_kbuckets d)" using ok by (simp add: rpc_ok_def)
  from tab sha good_id_key [of x i] show ?thesis
  proof (cases rule: tab_entry_cases [where now = "re_entry e j"])
    case Self
    then show ?thesis using ok by (simp add: add_node_def Let_def)
  next
    case (Bucket k b t)
    show ?thesis
    proof (cases "entry_new b (id_key x i)")
      case (Present er st)
      let ?f = "\<lambda>n. n\<lparr>dn_next_ping := re_now e j + pj_interval (rd_ping_job d)\<rparr>"
      obtain er2 where er2: "present_value_mut ?f er = Inr er2" "bucket_at (key_bytes (local_key (rd_kbuckets d))) k (er_bucket er2)"
        using present_ops_at [OF Bucket(4) Present, where f = ?f] by metis
      then show ?thesis using Bucket(6) [OF er2(2)] present_value_mut_node_keys [OF er2(1)] entry_refs(1) [OF Present]
          Bucket(1) Present rpc_ok_table [OF ok] by (auto simp: add_node_def Let_def)
    next
      case (PendingE er st)
      let ?f = "\<lambda>n. n\<lparr>dn_addr := peer_addr p, dn_next_ping := re_now e j + pj_interval (rd_ping_job d)\<rparr>"
      obtain er2 where er2: "pending_entry_value_mut ?f er = Inr er2" "bucket_at (key_bytes (local_key (rd_kbuckets d))) k (er_bucket er2)"
        using pending_ops_at [OF Bucket(4) PendingE, where f = ?f] by metis
      then show ?thesis using Bucket(6) [OF er2(2)] pending_value_mut_node_keys [OF er2(1)] entry_refs(2) [OF PendingE]
          Bucket(1) PendingE rpc_ok_table [OF ok] by (auto simp: add_node_def Let_def)
    next
      case (Absent er)
      let ?v = "\<lparr>dn_addr = peer_addr p, dn_roundtrip_token = tok, dn_to = to,
        dn_next_ping = re_now e j + pj_interval (rd_ping_job d), dn_referrers = []\<rparr>"
      obtain r b' where b': "absent_insert (re_insert e j) ?v Connected er = Inr (r, b')" "bucket_at (key_bytes (local_key (rd_kbuckets d))) k b'"
        using absent_insert_at [OF Bucket(4) Absent good_key_is_key [OF sha good_id_key] Bucket(5)] by metis
      have "bucket_node_keys b' \<subseteq> insert (id_key x i) (bucket_node_keys b)"
        using kbucket_insert_node_keys [OF b'(1) [unfolded absent_insert_def]] entry_refs(3) [OF Absent] by simp
      then show ?thesis using Bucket(6) [OF b'(2)] b' Bucket(1) Absent rpc_ok_table [OF ok]
        by (cases r) (auto simp: add_node_def Let_def)
    qed (use entry_refs(4) in blast)
  qed
qed

lemma remove_peer_ok:
  assumes ok: "rpc_ok x now n d" and sha: "sha_32 x" and key: "good_key x key"
  shows "\<exists>r d'. remove_peer e j key d = Inr (r, d') \<and> rpc_ok x now n d'"
proof -
  have tab: "tab_ok x (rd_kbuckets d)" using ok by (simp add: rpc_ok_def)
  from tab sha key show ?thesis
  proof (cases rule: tab_entry_cases [where now = "re_entry e j"])
    case Self
    then show ?thesis using ok by (simp add: remove_peer_def)
  next
    case (Bucket k b t)
    show ?thesis
    proof (cases "entry_new b key")
      case (Present er st)
      obtain v b' where b': "present_remove er = Inr (v, b')" "bucket_at (key_bytes (local_key (rd_kbuckets d))) k b'"
        using present_ops_at [OF Bucket(4) Present] by metis
      then show ?thesis using Bucket(6) [OF b'(2)] present_remove_node_keys [OF b'(1)] entry_refs(1) [OF Present]
          Bucket(1) Present rpc_ok_table [OF ok] by (auto simp: remove_peer_def)
    next
      case (PendingE er st)
      obtain v b' where b': "pending_remove er = Inr (v, b')" "bucket_at (key_bytes (local_key (rd_kbuckets d))) k b'"
        using pending_ops_at [OF Bucket(4) PendingE] by metis
      then show ?thesis using Bucket(6) [OF b'(2)] pending_remove_node_keys [OF b'(1)] entry_refs(2) [OF PendingE]
          Bucket(1) PendingE rpc_ok_table [OF ok] by (auto simp: remove_peer_def)
    next
      case (Absent er)
      then show ?thesis using Bucket(1-3) rpc_ok_table [OF ok] by (simp add: remove_peer_def)
    qed (use entry_refs(4) in blast)
  qed
qed

lemma iter_take_tab:
  assumes "tab_ok x t"
  shows "\<exists>xs t'. table_iter_take clock f c [0..<length (tb_buckets t)] t = Inr (xs, t') \<and> tab_ok x t' \<and> local_key t' = local_key t \<and>
    (\<forall>y \<in> set xs. \<exists>nd. good_key x (node_key nd) \<and> f nd = Some y)"
proof -
  have t: "table_ok t" "\<forall>i \<in> set [0..<length (tb_buckets t)]. i < NUM_BUCKETS" using assms by (auto simp: tab_ok_def table_ok_def)
  from table_iter_take_ok [OF t, of clock f c] obtain xs t' where
    xs: "table_iter_take clock f c [0..<length (tb_buckets t)] t = Inr (xs, t')" "table_ok t'" "local_key t' = local_key t"
    "table_node_keys t' \<subseteq> table_node_keys t" "\<forall>y \<in> set xs. \<exists>nd. node_key nd \<in> table_node_keys t \<and> f nd = Some y" by blast
  have "\<forall>y \<in> set xs. \<exists>nd. good_key x (node_key nd) \<and> f nd = Some y" using xs(5) assms by (fastforce simp: tab_ok_def)
  then show ?thesis using xs tab_ok_sub [OF assms xs(2-4)] by blast
qed

lemma remove_node_ok:
  assumes ok: "rpc_ok x now n d" and sha: "sha_32 x"
  shows "\<exists>r d'. remove_node e p d = Inr (r, d') \<and> rpc_ok x now n d'"
proof -
  let ?f = "\<lambda>n :: (id_bytes, dht_node) node. if dn_addr (node_value n) = peer_addr p then Some (node_key n) else None"
  have tab: "tab_ok x (rd_kbuckets d)" using ok by (simp add: rpc_ok_def)
  obtain ks t where ks: "table_iter_take (re_iter e) ?f 1 [0..<length (tb_buckets (rd_kbuckets d))] (rd_kbuckets d) = Inr (ks, t)"
    "tab_ok x t" "local_key t = local_key (rd_kbuckets d)" "\<forall>y \<in> set ks. \<exists>nd. good_key x (node_key nd) \<and> ?f nd = Some y"
    using iter_take_tab [OF tab, of "re_iter e" ?f 1] by blast
  have d': "rpc_ok x now n (d\<lparr>rd_kbuckets := t\<rparr>)" by (rule rpc_ok_table [OF ok ks(2,3)])
  show ?thesis
  proof (cases ks)
    case (Cons k ks')
    then have "good_key x k" using ks(4) by (auto split: if_splits)
    then show ?thesis using remove_peer_ok [OF d' sha] ks(1) Cons by (simp add: remove_node_def Let_def)
  qed (use ks(1) d' in \<open>simp add: remove_node_def\<close>)
qed

lemma closest_tab:
  assumes "tab_ok x t"
  shows "\<exists>es t'. closest clock t target c = Inr (es, t') \<and> tab_ok x t' \<and> local_key t' = local_key t \<and>
    (\<forall>en \<in> set es. good_key x (node_key (ev_node en)) \<and> preimage (node_key (ev_node en)) \<noteq> preimage (local_key t))"
proof -
  have t: "table_ok t" using assms by (simp add: tab_ok_def)
  from closest_ok [OF t, of clock target c] obtain es t' where
    es: "closest clock t target c = Inr (es, t')" "table_ok t'" "local_key t' = local_key t" "table_node_keys t' \<subseteq> table_node_keys t"
    "\<forall>en \<in> set es. node_key (ev_node en) \<in> table_node_keys t" by blast
  have "good_key x k \<and> preimage k \<noteq> preimage (local_key t)" if k: "k \<in> table_node_keys t" for k
  proof -
    obtain b where b: "b \<in> set (tb_buckets t)" "k \<in> bucket_node_keys b" using k by (auto simp: table_node_keys_def)
    then have "key_bytes k \<in> set (bucket_keys b)"
      by (auto simp: bucket_node_keys_def bucket_keys_def pending_keys_def node_kb_def split: option.splits)
    then have "key_bytes k \<in> set (table_keys t)" using b(1) by (auto simp: table_keys_def)
    then have "key_bytes k \<noteq> key_bytes (local_key t)" using table_ok_keys(2) [OF t] by metis
    then show ?thesis using k assms by (auto simp: tab_ok_def good_key_def)
  qed
  then show ?thesis using es tab_ok_sub [OF assms es(2-4)] by blast
qed

lemma present_value_after_mut:
  assumes "present_value_mut f er = Inr er2"
  shows "\<exists>v. present_value er2 = Inr v"
proof -
  let ?b = "er_bucket er"
  obtain p where p: "kbucket_position ?b (er_key er) = Some p"
    "er2 = er\<lparr>er_bucket := ?b\<lparr>kb_nodes := (kb_nodes ?b)[p := (kb_nodes ?b ! p)\<lparr>node_value := f (node_value (kb_nodes ?b ! p))\<rparr>]\<rparr>\<rparr>"
    using assms by (auto simp: present_value_mut_def kbucket_get_mut_def res_bind_Inr_iff expect_def split: option.splits)
  then have q: "p < length (kb_nodes ?b)" "same_key (er_key er) (kb_nodes ?b ! p)"
    by (auto simp: kbucket_position_def dest: position_of_SomeD)
  let ?n = "(kb_nodes ?b ! p)\<lparr>node_value := f (node_value (kb_nodes ?b ! p))\<rparr>"
  have "?n \<in> set ((kb_nodes ?b)[p := ?n])" "same_key (er_key er) ?n"
    using q by (auto simp: set_update_memI same_key_def)
  then have "position_of (same_key (er_key er)) ((kb_nodes ?b)[p := ?n]) \<noteq> None" by (auto simp: position_of_None)
  then show ?thesis using p(2) by (auto simp: present_value_def kbucket_get_def kbucket_position_def)
qed

lemma on_pong_ok:
  assumes ok: "rpc_ok x now n d" and sha: "sha_32 x"
  shows "\<exists>d'. on_pong x e m p d = Inr d' \<and> rpc_ok x now n d'"
proof (cases "\<exists>i. msg_id m = Some i \<and> length i = 32")
  case False
  then show ?thesis using ok by (auto simp: on_pong_def valid_id_bytes_def split: option.splits)
next
  case True
  then obtain i where i: "msg_id m = Some i" "length i = 32" by blast
  let ?f = "\<lambda>n. n\<lparr>dn_next_ping := re_now e 0 + pj_interval (rd_ping_job d)\<rparr>"
  have tab: "tab_ok x (rd_kbuckets d)" using ok by (simp add: rpc_ok_def)
  from tab sha good_id_key [of x i] show ?thesis
  proof (cases rule: tab_entry_cases [where now = "re_entry e 0"])
    case Self
    then show ?thesis using ok i by (simp add: on_pong_def valid_id_bytes_def Let_def)
  next
    case (Bucket k b t)
    show ?thesis
    proof (cases "entry_new b (id_key x i)")
      case (Present er st)
      obtain er2 where er2: "present_value_mut ?f er = Inr er2" "bucket_at (key_bytes (local_key (rd_kbuckets d))) k (er_bucket er2)"
        using present_ops_at [OF Bucket(4) Present, where f = ?f] by metis
      then obtain v where "present_value er2 = Inr v" using present_value_after_mut by blast
      then show ?thesis using Bucket(6) [OF er2(2)] present_value_mut_node_keys [OF er2(1)] entry_refs(1) [OF Present] er2
          Bucket(1) Present rpc_ok_table [OF ok] i by (auto simp: on_pong_def valid_id_bytes_def Let_def)
    next
      case (PendingE er st)
      obtain er2 where er2: "pending_entry_value_mut ?f er = Inr er2" "bucket_at (key_bytes (local_key (rd_kbuckets d))) k (er_bucket er2)"
        using pending_ops_at [OF Bucket(4) PendingE, where f = ?f] by metis
      then obtain v where "pending_value er2 = Inr v"
        by (auto simp: pending_entry_value_mut_def pending_value_def res_bind_Inr_iff)
      then show ?thesis using Bucket(6) [OF er2(2)] pending_value_mut_node_keys [OF er2(1)] entry_refs(2) [OF PendingE] er2
          Bucket(1) PendingE rpc_ok_table [OF ok] i by (auto simp: on_pong_def valid_id_bytes_def Let_def)
    next
      case (Absent er)
      then show ?thesis using Bucket(1-3) rpc_ok_table [OF ok] i by (simp add: on_pong_def valid_id_bytes_def Let_def)
    qed (use entry_refs(4) in blast)
  qed
qed

section \<open>Handlers keep the invariant\<close>

lemma closer_nodes_ok:
  assumes ok: "rpc_ok x now n d"
  shows "\<exists>buf d'. closer_nodes x e key c d = Inr (buf, d') \<and> rpc_ok x now n d' \<and> rd_io d' = rd_io d"
proof -
  have "tab_ok x (rd_kbuckets d)" using ok by (simp add: rpc_ok_def)
  from closest_tab [OF this, of "re_closest e" "keybytes_new (rl_sha x) key" c] show ?thesis
    using rpc_ok_table [OF ok] by (auto simp: closer_nodes_def)
qed

lemma rpc_reply_ok:
  assumes "rpc_ok x now n d"
  shows "\<exists>d'. rpc_reply x e m p key d = Inr d' \<and> rpc_ok x now n d'"
  using closer_nodes_ok [OF assms, of e key K_VALUE] by (auto simp: rpc_reply_def Let_def rpc_ok_def)

lemma pool_inv_insert:
  assumes "pool_inv x now n k p" and "query_good (rl_sha x) now i q" "stats_total q \<le> m" "n \<le> m"
  shows "pool_inv x now m k (p\<lparr>qp_queries := hm_insert i q (qp_queries p)\<rparr>)"
proof -
  have "stats_total qa \<le> m" if "hm_get (qp_queries p) ia = Some qa" for ia qa
    using that assms(1,4) unfolding pool_inv_def by (meson order_trans)
  with assms show ?thesis by (auto simp: pool_inv_def pool_ok_def)
qed

lemma run_command_ok:
  assumes ok: "rpc_ok x now n d"
  shows "\<exists>i d'. run_command x e cmd target val ty d = Inr (i, d') \<and> rpc_ok x now n d'"
proof -
  let ?l = "local_key (rd_kbuckets d)"
  have "tab_ok x (rd_kbuckets d)" using ok by (simp add: rpc_ok_def)
  from closest_tab [OF this, of "re_closest e" "key_bytes target" K_VALUE] obtain es t where
    es: "closest (re_closest e) (rd_kbuckets d) (key_bytes target) K_VALUE = Inr (es, t)" "tab_ok x t" "local_key t = ?l"
    "\<forall>en \<in> set es. good_key x (node_key (ev_node en)) \<and> preimage (node_key (ev_node en)) \<noteq> preimage ?l" by blast
  let ?ps = "map (\<lambda>en. key_new (rl_sha x) pid_id
      \<lparr>pid_addr = dn_addr (node_value (ev_node en)), pid_id = preimage (node_key (ev_node en))\<rparr>) es"
  have pool: "pool_inv x now n ?l (rd_queries d)" using ok by (simp add: rpc_ok_def)
  have l: "key_bytes ?l = rl_sha x (preimage ?l)" using ok by (simp add: rpc_ok_def tab_ok_def good_key_def)
  let ?q = "qs_bootstrap (qp_next_id (rd_queries d)) cmd (qc_parallelism (qp_config (rd_queries d))) ty ?l target val ?ps
      (map peer_from (rd_bootstrap_nodes d))"
  have ps: "\<forall>k \<in> set ?ps. key_bytes k = rl_sha x (pid_id (preimage k)) \<and> pid_id (preimage k) \<noteq> preimage ?l"
    using es(4) by (auto simp: key_new_def keybytes_new_def)
  have "query_good (rl_sha x) now (qp_next_id (rd_queries d)) ?q" "stats_total ?q \<le> n"
    using qs_bootstrap_ok [OF l ps] by (simp_all add: query_good_def) (simp_all add: qs_bootstrap_def stats_empty_def)
  then have "pool_inv x now n ?l ((rd_queries d)\<lparr>qp_queries := hm_insert (qp_next_id (rd_queries d)) ?q (qp_queries (rd_queries d))\<rparr>)"
    using pool_inv_insert [OF pool] by simp
  then have "pool_inv x now n ?l (snd (pool_add_stream cmd ?ps ty target val (map peer_from (rd_bootstrap_nodes d)) (rd_queries d)))"
    using pool by (simp add: pool_add_stream_def pool_next_query_id_def pool_inv_def)
  moreover obtain i pool where "pool_add_stream cmd ?ps ty target val (map peer_from (rd_bootstrap_nodes d)) (rd_queries d) = (i, pool)"
    by fastforce
  ultimately show ?thesis using es(1-3) ok by (simp add: run_command_def Let_def rpc_ok_def)
qed

lemma rpc_bootstrap_ok:
  assumes ok: "rpc_ok x now n d"
  shows "\<exists>d'. rpc_bootstrap x e d = Inr d' \<and> rpc_ok x now n d'"
  using run_command_ok [OF ok, of e FindNode "rd_id d" None QTQuery] ok by (auto simp: rpc_bootstrap_def rpc_query_def)

lemma rpc_ping_ok: "rpc_ok x now n d \<Longrightarrow> rpc_ok x now n (rpc_ping x p d)"
  by (simp add: rpc_ping_def pool_next_query_id_def rpc_ok_def pool_inv_def)

lemma ping_some_ok:
  assumes ok: "rpc_ok x now n d"
  shows "\<exists>d'. ping_some x e d = Inr d' \<and> rpc_ok x now n d'"
proof -
  have pings: "rpc_ok x now n (fold (rpc_ping x) ps d')" if "rpc_ok x now n d'" for ps d'
    using that by (induction ps arbitrary: d') (simp_all add: rpc_ping_ok)
  have "tab_ok x (rd_kbuckets d)" using ok by (simp add: rpc_ok_def)
  note it = iter_take_tab [OF this]
  show ?thesis unfolding ping_some_def Let_def
    using it [of "re_iter e" "\<lambda>n. if dn_next_ping (node_value n) < re_now e 0
        then Some \<lparr>pid_addr = dn_addr (node_value n), pid_id = preimage (node_key n)\<rparr> else None"
        "if 2 < length (qp_queries (rd_queries d)) then 3 else 5"] pings rpc_ok_table [OF ok] by fastforce
qed

lemma on_request_ok:
  assumes ok: "rpc_ok x now n d" and sha: "sha_32 x"
  shows "\<exists>d'. on_request x e m p ty d = Inr d' \<and> rpc_ok x now n d'"
proof -
  obtain i where i: "valid_id_bytes m = Inr i" by (simp add: valid_id_bytes_def)
  have "\<exists>d1. (case i of Some i \<Rightarrow> add_node x e 0 i p None (msg_decode_to_peer m) d | None \<Rightarrow> Inr d) = Inr d1 \<and> rpc_ok x now n d1"
    using add_node_ok [OF ok sha] ok by (cases i) auto
  then obtain d1 where d1: "(case i of Some i \<Rightarrow> add_node x e 0 i p None (msg_decode_to_peer m) d | None \<Rightarrow> Inr d) = Inr d1"
    "rpc_ok x now n d1" by blast
  have io: "io_ok x (rd_io d1)" using d1(2) by (simp add: rpc_ok_def)
  have reply: "\<exists>d'. (case k of Some key \<Rightarrow> rpc_reply x e m' p key d1 | None \<Rightarrow> Inr d1) = Inr d' \<and> rpc_ok x now n d'" for k m'
    using rpc_reply_ok [OF d1(2)] d1(2) by (cases k) auto
  have find: "\<exists>d'. on_findnode x e m p d1 = Inr d' \<and> rpc_ok x now n d'"
  proof (cases "msg_target m")
    case (Some key)
    obtain buf d2 where "closer_nodes x e key K_VALUE d1 = Inr (buf, d2)" "rpc_ok x now n d2" using closer_nodes_ok [OF d1(2)] by blast
    then show ?thesis using Some d1(2) by (auto simp: on_findnode_def valid_target_id_bytes_def rpc_ok_def)
  qed (use d1(2) in \<open>simp add: on_findnode_def valid_target_id_bytes_def\<close>)
  have "rpc_ok x now n (on_ping x m p d1)" "rpc_ok x now n (on_holepunch x m p d1)"
    using d1(2) io by (auto simp: on_ping_def on_holepunch_def Let_def intro!: rpc_ok_io split: option.splits)
  note handlers = find this
  have cmd: "\<exists>d'. on_command_req ty s m p d1 = Inr d' \<and> rpc_ok x now n d'" for s
    using d1(2) by (auto simp: on_command_req_def valid_target_id_bytes_def split: option.splits)
  have missing: "\<exists>d'. (if msg_target m = None then Inr (push_event (RequestResult (Inl (MissingTarget m p))) d1)
      else res_bind (valid_target_id_bytes m) (\<lambda>key.
        res_bind (case key of Some key \<Rightarrow> rpc_reply x e (m\<lparr>msg_error := Some ''Unsupported command''\<rparr>) p key d1 | None \<Rightarrow> Inr d1)
          (\<lambda>d'. Inr (push_event (RequestResult (Inl (MissingCommand p))) d')))) = Inr d' \<and> rpc_ok x now n d'"
  proof (cases "msg_target m")
    case (Some t)
    obtain k where k: "valid_target_id_bytes m = Inr k" by (simp add: valid_target_id_bytes_def)
    obtain d2 where "(case k of Some key \<Rightarrow> rpc_reply x e (m\<lparr>msg_error := Some ''Unsupported command''\<rparr>) p key d1 | None \<Rightarrow> Inr d1) = Inr d2"
      "rpc_ok x now n d2" using reply by blast
    then show ?thesis using k Some by simp
  qed (use d1(2) in simp)
  show ?thesis
  proof (cases "get_command m")
    case None
    then show ?thesis using i d1(1) missing by (simp add: on_request_def)
  next
    case (Some c)
    then show ?thesis using i d1(1) handlers cmd by (cases c) (simp_all add: on_request_def)
  qed
qed

lemma inject_response_id:
  assumes "qs_inject_response sha resp p q = Inr (r, q')"
  shows "qs_id q' = qs_id q"
proof (cases "msg_is_error resp")
  case True
  then show ?thesis using assms by (auto simp: qs_inject_response_def res_bind_Inr_iff Let_def)
next
  case False
  then show ?thesis using assms
    apply (clarsimp simp: qs_inject_response_def res_bind_Inr_iff Let_def)
    subgoal for k s b it nodes by (cases it) (auto simp: res_bind_Inr_iff split: if_splits)
    done
qed

text \<open>A response in the terms of the pool's invariant.\<close>

lemma inject_response_total:
  assumes "qs_ok sha q" and "stats_total q + 1 < 2 ^ 32"
  shows "\<exists>r q'. qs_inject_response sha resp p q = Inr (r, q') \<and> qs_ok sha q' \<and> qs_ty q' = qs_ty q \<and>
    phase_rank (qs_peer_iter q') = phase_rank (qs_peer_iter q) \<and> qs_id q' = qs_id q \<and>
    st_start (qs_stats q') = st_start (qs_stats q) \<and> stats_total q' = stats_total q + 1"
proof -
  have "st_failure (qs_stats q) + 1 < 2 ^ 32" "st_success (qs_stats q) + 1 < 2 ^ 32" using assms(2) by (simp_all add: stats_total_def)
  from qs_inject_response_ok [OF assms(1) this, of resp p] obtain r q' where
    "qs_inject_response sha resp p q = Inr (r, q')" "qs_ok sha q'" "qs_ty q' = qs_ty q"
    "phase_rank (qs_peer_iter q') = phase_rank (qs_peer_iter q)"
    "qs_stats q' = (if msg_is_error resp then (qs_stats q)\<lparr>st_failure := st_failure (qs_stats q) + 1\<rparr>
                   else (qs_stats q)\<lparr>st_success := st_success (qs_stats q) + 1\<rparr>)" by blast
  with inject_response_id [of sha resp p q r q'] show ?thesis by (auto simp: stats_total_def)
qed

lemma rpc_on_response_ok:
  assumes ok: "rpc_ok x now n d" and sha: "sha_32 x" and n: "n + 1 < 2 ^ 32"
  shows "\<exists>d'. rpc_on_response x e req resp p i d = Inr d' \<and> rpc_ok x now (n + 1) d'"
proof -
  have mono: "rpc_ok x now (n + 1) d'" if "rpc_ok x now n d'" for d'
    using that by (auto simp: rpc_ok_def pool_inv_def intro: le_SucI)
  show ?thesis
  proof (cases "msg_is_ping req \<or> pool_get (rd_queries d) i = None")
    case True
    obtain d' where "on_pong x e resp p d = Inr d'" "rpc_ok x now n d'" using on_pong_ok [OF ok sha] by blast
    then show ?thesis using True ok mono by (auto simp: rpc_on_response_def)
  next
    case False
    then obtain q where q: "hm_get (qp_queries (rd_queries d)) i = Some q" by (auto simp: pool_get_def)
    then have good: "query_good (rl_sha x) now i q" "stats_total q \<le> n" using ok by (auto simp: rpc_ok_def pool_inv_def pool_ok_def)
    obtain r q' where r: "qs_inject_response (rl_sha x) resp p q = Inr (r, q')" "qs_ok (rl_sha x) q'" "qs_ty q' = qs_ty q"
      "phase_rank (qs_peer_iter q') = phase_rank (qs_peer_iter q)" "qs_id q' = qs_id q"
      "st_start (qs_stats q') = st_start (qs_stats q)" "stats_total q' = stats_total q + 1"
      using inject_response_total [of "rl_sha x" q resp p] good n by (auto simp: query_good_def)
    then have "query_good (rl_sha x) now i q'" using good by (simp add: query_good_def phase_ok_def)
    then have "rpc_ok x now (n + 1) (put_query i q' d)"
      using ok good(2) r(7) pool_inv_insert [of x now n _ "rd_queries d" i q' "n + 1"] by (simp add: rpc_ok_def put_query_def)
    then show ?thesis using False q r(1) by (cases r) (auto simp: rpc_on_response_def pool_get_def Let_def)
  qed
qed

lemma rpc_ok_mono: "rpc_ok x now n d \<Longrightarrow> now \<le> now' \<Longrightarrow> n \<le> m \<Longrightarrow> rpc_ok x now' m d"
  unfolding rpc_ok_def pool_inv_def pool_ok_def query_good_def by (meson order_trans)

text \<open>The iteration orders of the hash maps meet every entry.\<close>

definition env_ok :: "rpc_env \<Rightarrow> bool" where
  "env_ok e \<longleftrightarrow> (\<forall>m. mset (re_order e m) = mset m) \<and> (\<forall>qs. set (re_qorder e qs) = hm_keys qs)"

lemma inject_event_ok:
  assumes ok: "rpc_ok x now n d" and sha: "sha_32 x" and e: "env_ok e" and n: "n + 1 < 2 ^ 32"
  shows "\<exists>d'. inject_event x e ev d = Inr d' \<and> rpc_ok x now (n + 1) d'"
proof -
  have mono: "rpc_ok x now (n + 1) d'" if "rpc_ok x now n d'" for d' using that by (rule rpc_ok_mono) simp_all
  show ?thesis
  proof (cases ev)
    case (InRequest m p ty)
    obtain d' where "on_request x e m p ty d = Inr d'" "rpc_ok x now n d'" using on_request_ok [OF ok sha] by blast
    then show ?thesis using InRequest mono by simp
  next
    case (InResponse req resp p i)
    then show ?thesis using rpc_on_response_ok [OF ok sha n] by simp
  next
    case (InResponseBadRequestId m p)
    obtain r d' where "remove_node e p d = Inr (r, d')" "rpc_ok x now n d'" using remove_node_ok [OF ok sha] by blast
    then show ?thesis using InResponseBadRequestId mono by simp
  next
    case (RequestTimeout m p t i)
    show ?thesis
    proof (cases "hm_get (qp_queries (rd_queries d)) i")
      case (Some q)
      then have good: "query_good (rl_sha x) now i q" "stats_total q \<le> n" using ok by (auto simp: rpc_ok_def pool_inv_def pool_ok_def)
      have order: "\<And>m. mset (re_order e m) = mset m" using e by (simp add: env_ok_def)
      have "st_failure (qs_stats q) + 1 < 2 ^ 32" using good(2) n by (simp add: stats_total_def)
      then obtain q' where q': "qs_on_timeout (re_order e) p q = Inr q'" "qs_ok (rl_sha x) q'" "qs_ty q' = qs_ty q"
        "phase_rank (qs_peer_iter q') = phase_rank (qs_peer_iter q)"
        "qs_stats q' = (qs_stats q)\<lparr>st_failure := st_failure (qs_stats q) + 1\<rparr>"
        using qs_on_timeout_ok [of "rl_sha x" q "re_order e" p] good(1) order by (auto simp: query_good_def)
      have "qs_id q' = qs_id q" using q'(1) by (auto simp: qs_on_timeout_def res_bind_Inr_iff)
      then have "query_good (rl_sha x) now i q'" "stats_total q' \<le> n + 1"
        using good q'(2-5) by (simp_all add: query_good_def phase_ok_def stats_total_def)
      then have "rpc_ok x now (n + 1) (put_query i q' d)"
        using ok pool_inv_insert [of x now n _ "rd_queries d" i q' "n + 1"] by (simp add: rpc_ok_def put_query_def)
      then show ?thesis using RequestTimeout Some q'(1) by (simp add: pool_get_def)
    qed (use RequestTimeout ok mono in \<open>simp add: pool_get_def\<close>)
  qed (use ok mono in simp_all)
qed

lemma inject_query_event_ok:
  assumes ok: "rpc_ok x now n d" and sha: "sha_32 x"
  shows "\<exists>d'. inject_query_event x e i ev d = Inr d' \<and> rpc_ok x now n d'"
proof (cases ev)
  case (EvRemoveNode k)
  obtain r d' where "remove_peer e 0 (id_key x k) d = Inr (r, d')" "rpc_ok x now n d'"
    using remove_peer_ok [OF ok sha good_id_key] by blast
  then show ?thesis using EvRemoveNode by simp
qed (use ok in \<open>simp_all add: rpc_ok_def\<close>)

lemma add_results_ok:
  assumes sha: "sha_32 x"
  shows "rpc_ok x now n d \<Longrightarrow> \<exists>d'. add_results x e j ps d = Inr d' \<and> rpc_ok x now n d'"
proof (induction ps arbitrary: j d)
  case (Cons ps rest)
  obtain p s where ps: "ps = (p, s)" by fastforce
  have "\<exists>d'. (case s of
                 FailedPeer \<Rightarrow> res_bind (remove_peer e j (id_key x (pid_id p)) d) (\<lambda>(_, d'). Inr d')
               | SucceededPeer tok to \<Rightarrow> add_node x e j (pid_id p) (peer_from (pid_addr p)) (Some tok) to d
               | _ \<Rightarrow> Inr d) = Inr d' \<and> rpc_ok x now n d'"
  proof (cases s)
    case FailedPeer
    obtain r d' where "remove_peer e j (id_key x (pid_id p)) d = Inr (r, d')" "rpc_ok x now n d'"
      using remove_peer_ok [OF Cons.prems sha good_id_key] by blast
    then show ?thesis using FailedPeer by simp
  qed (use add_node_ok [OF Cons.prems sha] Cons.prems in simp_all)
  then show ?case using Cons.IH ps by fastforce
qed simp

lemma query_finished_ok:
  assumes ok: "rpc_ok x now n d" and sha: "sha_32 x"
  shows "\<exists>ev d'. query_finished x e q d = Inr (ev, d') \<and> rpc_ok x now n d'"
proof -
  obtain d1 where "add_results x e 0 (qr_peers (qs_into_result (re_order e) q)) d = Inr d1" "rpc_ok x now n d1"
    using add_results_ok [OF sha ok] by blast
  then show ?thesis by (simp add: query_finished_def Let_def)
qed

lemma pop_event_ok: "rpc_ok x now n d \<Longrightarrow> pop_event d = Some (ev, d') \<Longrightarrow> rpc_ok x now n d'"
  by (auto simp: pop_event_def split: list.splits)

lemma pool_poll_inv:
  assumes ok: "rpc_ok x now n d" and e: "env_ok e"
  shows "\<exists>r p. pool_poll order (re_qorder e) now (rd_queries d) = Inr (r, p) \<and> rpc_ok x now n (d\<lparr>rd_queries := p\<rparr>) \<and>
    (\<forall>i ev. r = PoolWaiting (Some (i, ev)) \<longrightarrow> (\<exists>q. pool_get p i = Some q))"
proof -
  let ?p = "rd_queries d"
  have pool: "pool_ok (rl_sha x) now (qp_queries ?p)" "qp_local_id ?p = local_key (rd_kbuckets d)"
    "\<And>i q. hm_get (qp_queries ?p) i = Some q \<Longrightarrow> stats_total q \<le> n"
    using ok by (simp_all add: rpc_ok_def pool_inv_def)
  have "set (re_qorder e (qp_queries ?p)) = hm_keys (qp_queries ?p)" using e by (simp add: env_ok_def)
  from pool_poll_ok [where qorder = "re_qorder e" and p = ?p, OF pool(1) this, of order] obtain r p where
    r: "pool_poll order (re_qorder e) now ?p = Inr (r, p)" "pool_ok (rl_sha x) now (qp_queries p)"
    "same_totals (qp_queries ?p) (qp_queries p)" "qp_local_id p = qp_local_id ?p" and
    w: "case r of PoolWaiting (Some (i, ev)) \<Rightarrow> \<exists>q. hm_get (qp_queries p) i = Some q | _ \<Rightarrow> True"
    by (fastforce split: query_pool_state.splits option.splits)
  have "stats_total q \<le> n" if "hm_get (qp_queries p) i = Some q" for i q
    using r(3) pool(3) that unfolding same_totals_def by metis
  then have "rpc_ok x now n (d\<lparr>rd_queries := p\<rparr>)" using ok r(2,4) pool(2) by (simp add: rpc_ok_def pool_inv_def)
  then show ?thesis using r(1) w by (auto simp: pool_get_def)
qed

lemma table_visit_all_node_keys:
  "table_visit_all clock js t = Inr (bs, t') \<Longrightarrow> table_node_keys t' \<subseteq> table_node_keys t"
  by (induction js arbitrary: t bs) (fastforce simp: res_bind_Inr_iff dest: table_visit_node_keys(1))+

lemma table_iter_tab:
  assumes "tab_ok x t"
  shows "\<exists>es t'. table_iter clock t = Inr (es, t') \<and> tab_ok x t' \<and> local_key t' = local_key t"
proof -
  have "table_ok t" using assms by (simp add: tab_ok_def)
  from table_iter_ok [OF this, of clock] obtain es t' where
    t': "table_iter clock t = Inr (es, t')" "table_ok t'" "local_key t' = local_key t" by blast
  then have "table_node_keys t' \<subseteq> table_node_keys t" by (auto simp: table_iter_def res_bind_Inr_iff dest: table_visit_all_node_keys)
  with t' tab_ok_sub [OF assms] show ?thesis by blast
qed

text \<open>What a round of the loop relies on: the socket's contract and the orders of the maps.\<close>

definition round_ok :: "poll_env \<times> rpc_env \<Rightarrow> bool" where
  "round_ok r \<longleftrightarrow> recv_contract (pe_recv (fst r)) \<and> env_ok (snd r)"

lemma rpc_loop_ok:
  assumes sha: "sha_32 x"
  shows "rpc_ok x now n d \<Longrightarrow> list_all round_ok es \<Longrightarrow> n + length es < 2 ^ 32 \<Longrightarrow>
    \<exists>r. rpc_loop x now es d = Inr r \<and> (\<forall>ev d'. r = Some (ev, d') \<longrightarrow> rpc_ok x now (n + length es) d')"
proof (induction es arbitrary: n d)
  case (Cons pe_e es)
  obtain pe e where pe: "pe_e = (pe, e)" by fastforce
  have env: "recv_contract (pe_recv pe)" "env_ok e" using Cons.prems(2) pe by (simp_all add: round_ok_def)
  have "io_ok x (rd_io d)" using Cons.prems(1) by (simp add: rpc_ok_def)
  from io_poll_next_ok [OF this env(1)] obtain r io where
    io: "io_poll_next x pe (rd_io d) = Inr (r, io)" "io_ok x io" by (auto simp: io_step_ok_def)
  let ?d1 = "d\<lparr>rd_io := io\<rparr>"
  have d1: "rpc_ok x now n ?d1" by (rule rpc_ok_io [OF Cons.prems(1) io(2)])
  have up: "rpc_ok x now (n + length (pe_e # es)) d'" if "rpc_ok x now m d'" "m \<le> n + 1" for m d'
    using that by (auto intro: rpc_ok_mono)
  have next_round: "\<exists>r. rpc_loop x now es d2 = Inr r \<and> (\<forall>ev d'. r = Some (ev, d') \<longrightarrow> rpc_ok x now (n + length (pe_e # es)) d')"
    if "rpc_ok x now (n + 1) d2" for d2 using Cons.IH [OF that] Cons.prems(2,3) by simp
  show ?case
  proof (cases r)
    case (Ready ev)
    obtain d2 where d2: "inject_event x e ev ?d1 = Inr d2" "rpc_ok x now (n + 1) d2"
      using inject_event_ok [OF d1 sha env(2)] Cons.prems(3) by fastforce
    show ?thesis
    proof (cases "pop_event d2")
      case None
      then show ?thesis using io(1) Ready d2 next_round pe by simp
    next
      case (Some evd)
      then show ?thesis using io(1) Ready d2 pe up pop_event_ok [OF d2(2)] by (cases evd) simp
    qed
  next
    case Pending
    obtain ps pool where ps: "pool_poll (re_order e) (re_qorder e) now (rd_queries ?d1) = Inr (ps, pool)"
      "rpc_ok x now n (?d1\<lparr>rd_queries := pool\<rparr>)" "\<forall>i ev. ps = PoolWaiting (Some (i, ev)) \<longrightarrow> (\<exists>q. pool_get pool i = Some q)"
      using pool_poll_inv [OF d1 env(2)] by blast
    note eq = io(1) Pending ps(1) pe
    show ?thesis
    proof (cases "\<exists>i ev. ps = PoolWaiting (Some (i, ev))")
      case True
      then obtain i ev q where q: "ps = PoolWaiting (Some (i, ev))" "pool_get pool i = Some q" using ps(3) by blast
      obtain d2 where "inject_query_event x e (qs_id q) ev (?d1\<lparr>rd_queries := pool\<rparr>) = Inr d2" "rpc_ok x now n d2"
        using inject_query_event_ok [OF ps(2) sha] by blast
      then show ?thesis using eq q next_round [OF rpc_ok_mono [OF _ order_refl, of x now n d2 "n + 1"]] by (simp add: Let_def)
    next
      case False
      have fin: "\<exists>ev d'. query_finished x e q (?d1\<lparr>rd_queries := pool\<rparr>) = Inr (ev, d') \<and> rpc_ok x now n d'" for q
        using query_finished_ok [OF ps(2) sha] by blast
      have idle: "rpc_ok x now (n + length (pe_e # es)) d'"
        if "(case pop_event (?d1\<lparr>rd_queries := pool\<rparr>) of Some (ev, d3) \<Rightarrow> (Ready ev, d3) | None \<Rightarrow> (Pending, ?d1\<lparr>rd_queries := pool\<rparr>)) = (ev, d')"
        for ev d' using that ps(2) up pop_event_ok [OF ps(2)] by (auto split: option.splits)
      show ?thesis
      proof (cases ps)
        case (PoolFinished q)
        then show ?thesis using eq fin [of q] up by (auto simp: Let_def)
      next
        case (PoolTimeout q)
        then show ?thesis using eq fin [of q] up by (auto simp: Let_def query_timeout_def)
      next
        case PoolIdle
        then show ?thesis using eq idle by (simp add: Let_def)
      next
        case (PoolWaiting w)
        then show ?thesis using eq idle False by (cases w) (simp_all add: Let_def)
      qed
    qed
  qed
qed simp

text \<open>A poll is the two jobs, which keep the invariant, followed by the loop.\<close>

lemma rpc_poll_next_jobs:
  assumes ok: "rpc_ok x now n d" and sha: "sha_32 x"
  obtains d5 where "rpc_ok x now n d5"
    "\<And>es. rpc_poll_next x now bf pf e es d =
       (case pop_event d5 of Some (ev, d6) \<Rightarrow> Inr (Some (Ready ev, d6)) | None \<Rightarrow> rpc_loop x now es d5)"
proof -
  have boot: "\<exists>d3. (if bf then res_bind (table_iter (re_iter e) (rd_kbuckets d)) (\<lambda>(ns, t).
        let d2 = d1\<lparr>rd_kbuckets := t\<rparr> in if length ns < 20 then rpc_bootstrap x e d2 else Inr d2) else Inr d1) = Inr d3 \<and> rpc_ok x now n d3"
    if d1: "rpc_ok x now n d1" "rd_kbuckets d1 = rd_kbuckets d" for d1
  proof -
    have "tab_ok x (rd_kbuckets d)" using ok by (simp add: rpc_ok_def)
    from table_iter_tab [OF this, of "re_iter e"] obtain ns t where
      t: "table_iter (re_iter e) (rd_kbuckets d) = Inr (ns, t)" "tab_ok x t" "local_key t = local_key (rd_kbuckets d)" by blast
    then have "rpc_ok x now n (d1\<lparr>rd_kbuckets := t\<rparr>)" using rpc_ok_table [OF d1(1)] d1(2) by simp
    then show ?thesis using t(1) d1 rpc_bootstrap_ok [of x now n "d1\<lparr>rd_kbuckets := t\<rparr>" e] by (simp add: Let_def)
  qed
  obtain j1 where j1: "job_poll bf now (rd_bootstrap_job d) = (if bf then Ready () else Pending, j1)" by (cases bf) (auto simp: job_poll_def)
  have "\<exists>d3. (if bf then res_bind (table_iter (re_iter e) (rd_kbuckets (d\<lparr>rd_bootstrap_job := j1\<rparr>))) (\<lambda>(ns, t).
        let d2 = (d\<lparr>rd_bootstrap_job := j1\<rparr>)\<lparr>rd_kbuckets := t\<rparr> in if length ns < 20 then rpc_bootstrap x e d2 else Inr d2)
      else Inr (d\<lparr>rd_bootstrap_job := j1\<rparr>)) = Inr d3 \<and> rpc_ok x now n d3"
    using boot [of "d\<lparr>rd_bootstrap_job := j1\<rparr>"] ok by (cases bf) simp_all
  then obtain d3 where d3: "(if bf then res_bind (table_iter (re_iter e) (rd_kbuckets (d\<lparr>rd_bootstrap_job := j1\<rparr>))) (\<lambda>(ns, t).
        let d2 = (d\<lparr>rd_bootstrap_job := j1\<rparr>)\<lparr>rd_kbuckets := t\<rparr> in if length ns < 20 then rpc_bootstrap x e d2 else Inr d2)
      else Inr (d\<lparr>rd_bootstrap_job := j1\<rparr>)) = Inr d3" "rpc_ok x now n d3"
    by blast
  obtain j2 where j2: "job_poll pf now (rd_ping_job d3) = (if pf then Ready () else Pending, j2)" by (cases pf) (auto simp: job_poll_def)
  have "\<exists>d5. (if pf then ping_some x e (d3\<lparr>rd_ping_job := j2\<rparr>) else Inr (d3\<lparr>rd_ping_job := j2\<rparr>)) = Inr d5 \<and> rpc_ok x now n d5"
    using ping_some_ok [of x now n "d3\<lparr>rd_ping_job := j2\<rparr>" e] d3(2) by simp
  then obtain d5 where d5: "(if pf then ping_some x e (d3\<lparr>rd_ping_job := j2\<rparr>) else Inr (d3\<lparr>rd_ping_job := j2\<rparr>)) = Inr d5"
    "rpc_ok x now n d5" by blast
  show ?thesis
    by (rule that [OF d5(2)]) (use j1 d3(1) j2 d5(1) in \<open>cases bf; cases pf; auto simp: rpc_poll_next_def Let_def\<close>)
qed

lemma rpc_poll_next_ok:
  assumes ok: "rpc_ok x now n d" and sha: "sha_32 x" and es: "list_all round_ok es" and n: "n + length es < 2 ^ 32"
  shows "\<exists>r. rpc_poll_next x now bf pf e es d = Inr r \<and> (\<forall>ev d'. r = Some (ev, d') \<longrightarrow> rpc_ok x now (n + length es) d')"
proof -
  obtain d5 where d5: "rpc_ok x now n d5" and eq: "rpc_poll_next x now bf pf e es d =
      (case pop_event d5 of Some (ev, d6) \<Rightarrow> Inr (Some (Ready ev, d6)) | None \<Rightarrow> rpc_loop x now es d5)"
    using rpc_poll_next_jobs [OF ok sha] by metis
  show ?thesis
  proof (cases "pop_event d5")
    case None
    then show ?thesis using eq rpc_loop_ok [OF sha d5 es n] by simp
  next
    case (Some evd)
    then show ?thesis using eq pop_event_ok [OF d5] by (cases evd) (auto intro: rpc_ok_mono)
  qed
qed

end
