(* ===== verification/Rpc_Run.thy ===== *)
theory Rpc_Run
  imports Rpc_Dht
begin

text \<open>
  Runs of the DHT node: every operation of \<^verbatim>\<open>RpcDht\<close> that a caller has, in any order, from the
  node that \<^verbatim>\<open>with_config\<close> builds.  The properties state that no run panics, that the node
  announces the end of its bootstrap once, and what a \<^verbatim>\<open>FIND_NODE\<close> request is answered with.
\<close>

section \<open>Runs\<close>

datatype rpc_call =
    CallCommand rpc_env command "id_bytes key" "bytes option" query_type
  | CallBootstrap rpc_env
  | CallPing peer_id
  | CallHolepunch peer
  | CallReply rpc_env command_query_response
  | CallRegister string
  | CallRemovePeer rpc_env id_bytes

fun do_call :: "rpc_lib \<Rightarrow> rpc_call \<Rightarrow> rpc_dht \<Rightarrow> rpc_dht res" where
  "do_call x (CallCommand e cmd target val ty) d = res_bind (run_command x e cmd target val ty d) (\<lambda>(_, d'). Inr d')"
| "do_call x (CallBootstrap e) d = rpc_bootstrap x e d"
| "do_call x (CallPing p) d = Inr (rpc_ping x p d)"
| "do_call x (CallHolepunch p) d = Inr (snd (rpc_holepunch x p d))"
| "do_call x (CallReply e resp) d = reply_command x e resp d"
| "do_call x (CallRegister cmd) d = Inr (snd (register_command cmd d))"
| "do_call x (CallRemovePeer e i) d = res_bind (remove_peer e 0 (id_key x i) d) (\<lambda>(_, d'). Inr d')"

datatype rpc_op = RPoll instant bool bool rpc_env "(poll_env \<times> rpc_env) list" | RCall rpc_call

text \<open>A run ends with \<open>None\<close> when a poll is still going on at the end of its rounds.\<close>

fun rpc_run :: "rpc_lib \<Rightarrow> rpc_op list \<Rightarrow> rpc_dht \<Rightarrow> (rpc_event list \<times> rpc_dht) option res" where
  "rpc_run x [] d = Inr (Some ([], d))"
| "rpc_run x (RPoll now bf pf e es # ops) d =
     res_bind (rpc_poll_next x now bf pf e es d) (\<lambda>r.
       case r of
         None \<Rightarrow> Inr None
       | Some (ev, d') \<Rightarrow>
           res_bind (rpc_run x ops d') (\<lambda>r'.
             Inr (case r' of
                    None \<Rightarrow> None
                  | Some (evs, d'') \<Rightarrow> Some ((case ev of Ready ev \<Rightarrow> [ev] | Pending \<Rightarrow> []) @ evs, d''))))"
| "rpc_run x (RCall c # ops) d = res_bind (do_call x c d) (rpc_run x ops)"

text \<open>What a run relies on: the clock does not go back and every round is as in \<open>round_ok\<close>.\<close>

fun run_adm :: "instant \<Rightarrow> rpc_op list \<Rightarrow> bool" where
  "run_adm now [] = True"
| "run_adm now (RPoll t bf pf e es # ops) = (now \<le> t \<and> list_all round_ok es \<and> run_adm t ops)"
| "run_adm now (RCall c # ops) = run_adm now ops"

fun run_rounds :: "rpc_op list \<Rightarrow> nat" where
  "run_rounds [] = 0"
| "run_rounds (RPoll t bf pf e es # ops) = length es + run_rounds ops"
| "run_rounds (RCall c # ops) = run_rounds ops"

fun run_end :: "instant \<Rightarrow> rpc_op list \<Rightarrow> instant" where
  "run_end now [] = now"
| "run_end now (RPoll t bf pf e es # ops) = run_end t ops"
| "run_end now (RCall c # ops) = run_end now ops"

lemma rpc_holepunch_ok: "rpc_ok x now n d \<Longrightarrow> rpc_ok x now n (snd (rpc_holepunch x p d))"
  by (simp add: rpc_holepunch_def pool_next_query_id_def rpc_ok_def pool_inv_def)

lemma register_command_ok: "rpc_ok x now n (snd (register_command cmd d)) = rpc_ok x now n d"
  by (simp add: register_command_def rpc_ok_def)

lemma rpc_call_ok:
  assumes ok: "rpc_ok x now n d" and sha: "sha_32 x"
  shows "\<exists>d'. do_call x c d = Inr d' \<and> rpc_ok x now n d'"
proof (cases c)
  case (CallCommand e cmd target val ty)
  obtain i d' where "run_command x e cmd target val ty d = Inr (i, d')" "rpc_ok x now n d'" using run_command_ok [OF ok] by blast
  then show ?thesis using CallCommand by simp
next
  case (CallRemovePeer e i)
  obtain v d' where "remove_peer e 0 (id_key x i) d = Inr (v, d')" "rpc_ok x now n d'"
    using remove_peer_ok [OF ok sha good_id_key] by blast
  then show ?thesis using CallRemovePeer by simp
qed (use ok rpc_bootstrap_ok [OF ok] rpc_reply_ok [OF ok] rpc_ping_ok [OF ok] rpc_holepunch_ok [OF ok] in
  \<open>simp_all add: reply_command_def register_command_ok\<close>)

lemma rpc_run_ok:
  assumes sha: "sha_32 x"
  shows "rpc_ok x now n d \<Longrightarrow> run_adm now ops \<Longrightarrow> n + run_rounds ops < 2 ^ 32 \<Longrightarrow>
    \<exists>r. rpc_run x ops d = Inr r \<and> (\<forall>evs d'. r = Some (evs, d') \<longrightarrow> rpc_ok x (run_end now ops) (n + run_rounds ops) d')"
proof (induction ops arbitrary: now n d)
  case (Cons op ops)
  show ?case
  proof (cases op)
    case (RPoll t bf pf e es)
    have adm: "now \<le> t" "list_all round_ok es" "run_adm t ops" "n + length es + run_rounds ops < 2 ^ 32"
      using Cons.prems(2,3) RPoll by simp_all
    have "rpc_ok x t n d" by (rule rpc_ok_mono [OF Cons.prems(1) adm(1)]) simp
    from rpc_poll_next_ok [OF this sha adm(2), of bf pf e] adm(4) obtain r where
      r: "rpc_poll_next x t bf pf e es d = Inr r" "\<forall>ev d'. r = Some (ev, d') \<longrightarrow> rpc_ok x t (n + length es) d'" by auto
    show ?thesis
    proof (cases r)
      case (Some evd)
      obtain ev d1 where d1: "evd = (ev, d1)" "rpc_ok x t (n + length es) d1" using r(2) Some by (cases evd) auto
      obtain r' where "rpc_run x ops d1 = Inr r'"
        "\<forall>evs d'. r' = Some (evs, d') \<longrightarrow> rpc_ok x (run_end t ops) (n + length es + run_rounds ops) d'"
        using Cons.IH [OF d1(2) adm(3,4)] by blast
      then show ?thesis using r(1) Some d1(1) RPoll by (auto simp: add.assoc split: option.splits)
    qed (use r(1) RPoll in simp)
  next
    case (RCall c)
    obtain d1 where d1: "do_call x c d = Inr d1" "rpc_ok x now n d1" using rpc_call_ok [OF Cons.prems(1) sha] by blast
    then show ?thesis using Cons.IH [OF d1(2)] Cons.prems(2,3) RCall by simp
  qed
qed simp

lemma with_config_ok:
  assumes "sha_32 x"
  shows "\<exists>d. with_config x e k1 k2 first random_id now config = Inr d \<and> rpc_ok x now 0 d"
proof -
  let ?i = "case dc_local_id config of Some i \<Rightarrow> i | None \<Rightarrow> random_id"
  have "tab_ok x (table_new (id_key x ?i) t)" for t
    using good_key_is_key [OF assms good_id_key] table_new_ok by (auto simp: tab_ok_def table_node_keys_def table_new_def bucket_node_keys_def kbucket_new_def)
  moreover have "local_key (table_new (id_key x ?i) t :: dht_table) = id_key x ?i" for t by (simp add: table_new_def)
  moreover have "io_ok x (io_new k1 k2 first now q udp_new (dc_io_config config) :: u64 io_handler)" for q
    using io_new_inv [of x k1 k2 "dc_io_config config" first now q] unfolding io_inv_def by blast
  moreover have "pool_inv x now 0 (id_key x ?i) (pool_new (id_key x ?i) (dc_query_config config))"
    by (simp add: pool_inv_def pool_new_def pool_ok_def)
  ultimately show ?thesis unfolding with_config_def Let_def by (intro rpc_bootstrap_ok) (simp add: rpc_ok_def)
qed

section \<open>The events a node returns\<close>

definition is_bootstrapped :: "rpc_event \<Rightarrow> bool" where
  "is_bootstrapped ev = (case ev of Bootstrapped _ \<Rightarrow> True | _ \<Rightarrow> False)"

definition num_bootstrapped :: "rpc_event list \<Rightarrow> nat" where
  "num_bootstrapped evs = length (filter is_bootstrapped evs)"

text \<open>An event that hands a command on has a target of 32 bytes.  \<open>boot_state\<close> is what the handlers
  leave alone: the announcements that are queued, and whether the node knows that it is done.\<close>

fun event_target_ok :: "rpc_event \<Rightarrow> bool" where
  "event_target_ok (RequestResult (Inr q)) = (length (cq_target q) = 32)"
| "event_target_ok ev = True"

definition plain_event :: "rpc_event \<Rightarrow> bool" where
  "plain_event ev \<longleftrightarrow> \<not> is_bootstrapped ev \<and> event_target_ok ev"

definition boot_state :: "rpc_dht \<Rightarrow> rpc_event list \<times> bool" where
  "boot_state d = (filter (\<lambda>ev. \<not> plain_event ev) (rd_queued_events d), rd_bootstrapped d)"

definition boot_ok :: "nat \<Rightarrow> rpc_dht \<Rightarrow> bool" where
  "boot_ok k d \<longleftrightarrow>
     (\<forall>ev \<in> set (fst (boot_state d)). is_bootstrapped ev) \<and>
     k + length (fst (boot_state d)) \<le> (if snd (boot_state d) then 1 else 0)"

lemma num_bootstrapped_simps [simp]:
  "num_bootstrapped [] = 0" "num_bootstrapped (ev # evs) = (if is_bootstrapped ev then 1 else 0) + num_bootstrapped evs"
  "num_bootstrapped (evs @ evs') = num_bootstrapped evs + num_bootstrapped evs'"
  by (simp_all add: num_bootstrapped_def)

lemma is_bootstrapped_simps [simp]:
  "is_bootstrapped (Bootstrapped st)" "\<not> is_bootstrapped (RequestResult r)" "\<not> is_bootstrapped (ResponseResult r')"
  "\<not> is_bootstrapped (RoutingUpdated p i)" "\<not> is_bootstrapped (QueryResult q c st)"
  by (simp_all add: is_bootstrapped_def)

lemma boot_state_frame [simp]:
  "boot_state (d\<lparr>rd_kbuckets := t\<rparr>) = boot_state d" "boot_state (d\<lparr>rd_io := io\<rparr>) = boot_state d"
  "boot_state (d\<lparr>rd_queries := q\<rparr>) = boot_state d" "boot_state (d\<lparr>rd_commands := c\<rparr>) = boot_state d"
  "boot_state (d\<lparr>rd_bootstrap_job := j\<rparr>) = boot_state d" "boot_state (d\<lparr>rd_ping_job := j\<rparr>) = boot_state d"
  "plain_event ev \<Longrightarrow> boot_state (push_event ev d) = boot_state d"
  by (simp_all add: boot_state_def push_event_def)

lemma bootstrapped_target_ok: "is_bootstrapped ev \<Longrightarrow> event_target_ok ev"
  by (cases ev) (simp_all add: is_bootstrapped_def)

lemma plain_event_simps [simp]:
  "plain_event (RequestResult (Inl err))" "plain_event (RequestResult (Inr q)) = (length (cq_target q) = 32)"
  "plain_event (ResponseResult r)" "plain_event (RoutingUpdated p pid)" "plain_event (QueryResult i c st)"
  "\<not> plain_event (Bootstrapped st)"
  by (simp_all add: plain_event_def)

lemma boot_ok_cong: "boot_state d' = boot_state d \<Longrightarrow> boot_ok k d \<Longrightarrow> boot_ok k d'"
  by (simp add: boot_ok_def)

named_theorems boot_frames

lemma res_bind_InrE: "res_bind m f = Inr y \<Longrightarrow> (\<And>v. m = Inr v \<Longrightarrow> f v = Inr y \<Longrightarrow> P) \<Longrightarrow> P"
  by (cases m) auto

lemma add_node_boot [boot_frames]: "add_node x e j i p tok to d = Inr d' \<Longrightarrow> boot_state d' = boot_state d"
  by (auto simp: add_node_def Let_def elim!: res_bind_InrE split: prod.splits entry.splits insert_result.splits)

lemma remove_peer_boot [boot_frames]: "remove_peer e j k d = Inr (r, d') \<Longrightarrow> boot_state d' = boot_state d"
  by (auto simp: remove_peer_def Let_def elim!: res_bind_InrE split: prod.splits entry.splits)

lemma remove_node_boot [boot_frames]: "remove_node e p d = Inr (r, d') \<Longrightarrow> boot_state d' = boot_state d"
  by (auto simp: remove_node_def Let_def elim!: res_bind_InrE dest!: remove_peer_boot split: prod.splits list.splits)

lemma on_pong_boot [boot_frames]: "on_pong x e m p d = Inr d' \<Longrightarrow> boot_state d' = boot_state d"
  by (auto simp: on_pong_def Let_def elim!: res_bind_InrE split: prod.splits option.splits entry.splits)

lemma on_response_boot [boot_frames]: "rpc_on_response x e req resp p i d = Inr d' \<Longrightarrow> boot_state d' = boot_state d"
  by (auto simp: rpc_on_response_def put_query_def Let_def elim!: res_bind_InrE dest: on_pong_boot
      split: prod.splits if_splits option.splits)

lemma run_command_boot [boot_frames]: "run_command x e cmd target val ty d = Inr (i, d') \<Longrightarrow> boot_state d' = boot_state d"
  by (auto simp: run_command_def Let_def elim!: res_bind_InrE split: prod.splits)

lemma closer_nodes_boot [boot_frames]: "closer_nodes x e key n d = Inr (b, d') \<Longrightarrow> boot_state d' = boot_state d"
  by (auto simp: closer_nodes_def res_bind_Inr_iff)

lemma reply_boot [boot_frames]: "rpc_reply x e m p key d = Inr d' \<Longrightarrow> boot_state d' = boot_state d"
  by (auto simp: rpc_reply_def Let_def res_bind_Inr_iff dest: closer_nodes_boot)

lemma ping_boot [simp]: "boot_state (rpc_ping x i d) = boot_state d" "boot_state (snd (rpc_holepunch x p d)) = boot_state d"
  "boot_state (on_ping x m p d) = boot_state d" "boot_state (on_holepunch x m p d) = boot_state d"
  by (simp_all add: rpc_ping_def rpc_holepunch_def on_ping_def on_holepunch_def Let_def split: prod.splits option.splits)

lemma ping_some_boot [boot_frames]:
  assumes "ping_some x e d = Inr d'"
  shows "boot_state d' = boot_state d"
proof -
  have "boot_state (fold (rpc_ping x) ps d0) = boot_state d0" for ps d0 by (induction ps arbitrary: d0) simp_all
  with assms show ?thesis by (auto simp: ping_some_def Let_def res_bind_Inr_iff)
qed

lemma valid_target_length: "valid_target_id_bytes m = Inr (Some t) \<Longrightarrow> length t = 32"
  by (auto simp: valid_target_id_bytes_def valid_key_bytes_eq split: option.splits if_splits)

lemma on_request_boot [boot_frames]:
  assumes "on_request x e m p ty d = Inr d'"
  shows "boot_state d' = boot_state d"
proof -
  obtain i where i: "valid_id_bytes m = Inr i" by (simp add: valid_id_bytes_def)
  obtain d1 where d1: "(case i of Some i \<Rightarrow> add_node x e 0 i p None (msg_decode_to_peer m) d | None \<Rightarrow> Inr d) = Inr d1"
    using assms i by (auto simp: on_request_def elim: res_bind_InrE)
  then have "boot_state d1 = boot_state d" by (cases i) (auto dest: add_node_boot)
  moreover have "boot_state d' = boot_state d1"
  proof (cases "get_command m")
    case None
    then show ?thesis using assms i d1
      by (auto simp: on_request_def Let_def elim!: res_bind_InrE dest: reply_boot split: if_splits option.splits)
  next
    case (Some c)
    then show ?thesis using assms i d1
      by (cases c) (auto simp: on_request_def on_findnode_def on_command_req_def elim!: res_bind_InrE
          dest!: closer_nodes_boot valid_target_length split: prod.splits if_splits option.splits)
  qed
  ultimately show ?thesis by simp
qed

lemma inject_event_boot [boot_frames]: "inject_event x e ev d = Inr d' \<Longrightarrow> boot_state d' = boot_state d"
  by (cases ev) (auto simp: put_query_def elim!: res_bind_InrE dest: boot_frames split: prod.splits option.splits)

lemma inject_query_event_boot [boot_frames]: "inject_query_event x e i ev d = Inr d' \<Longrightarrow> boot_state d' = boot_state d"
  by (cases ev) (auto elim!: res_bind_InrE dest: boot_frames split: prod.splits)

lemma add_results_boot [boot_frames]: "add_results x e j ps d = Inr d' \<Longrightarrow> boot_state d' = boot_state d"
proof (induction ps arbitrary: j d)
  case (Cons q ps)
  then show ?case by (cases q; cases "snd q") (fastforce simp: res_bind_Inr_iff dest: add_node_boot remove_peer_boot)+
qed simp

lemma bootstrap_boot: "rpc_bootstrap x e d = Inr d' \<Longrightarrow> boot_ok k d \<Longrightarrow> boot_ok k d'"
  by (auto simp: rpc_bootstrap_def rpc_query_def boot_ok_def push_event_def elim!: res_bind_InrE
      dest!: run_command_boot split: if_splits prod.splits) (auto simp: boot_state_def)

lemma with_config_boot:
  assumes "with_config x e k1 k2 first random_id now config = Inr d"
  shows "boot_ok 0 d"
  using assms unfolding with_config_def Let_def by (rule bootstrap_boot) (simp add: boot_ok_def boot_state_def)

text \<open>The number of announcements among the events that a poll returns, and their targets.\<close>

definition poll_boots :: "rpc_event poll \<Rightarrow> nat" where
  "poll_boots r = (case r of Ready ev \<Rightarrow> num_bootstrapped [ev] | Pending \<Rightarrow> 0)"

definition poll_ok :: "nat \<Rightarrow> rpc_event poll \<times> rpc_dht \<Rightarrow> bool" where
  "poll_ok k r \<longleftrightarrow>
     boot_ok (k + poll_boots (fst r)) (snd r) \<and> (case fst r of Ready ev \<Rightarrow> event_target_ok ev | Pending \<Rightarrow> True)"

lemma query_finished_boot:
  assumes "query_finished x e q d = Inr (ev, d')" and "boot_ok k d"
  shows "poll_ok k (Ready ev, d')"
proof -
  obtain d1 where d1: "boot_state d1 = boot_state d" "(ev, d') = (if command_is_find_node (qs_cmd q) \<and> \<not> rd_bootstrapped d1
      then (Bootstrapped (qr_stats (qs_into_result (re_order e) q)), d1\<lparr>rd_bootstrapped := True\<rparr>)
      else (QueryResult (qr_inner (qs_into_result (re_order e) q)) (qr_cmd (qs_into_result (re_order e) q))
             (qr_stats (qs_into_result (re_order e) q)), d1))"
    using assms(1) by (auto simp: query_finished_def Let_def res_bind_Inr_iff dest: add_results_boot)
  then have "boot_ok k d1" using assms(2) boot_ok_cong by blast
  with d1(2) show ?thesis by (auto simp: poll_ok_def boot_ok_def boot_state_def poll_boots_def split: if_splits)
qed

lemma pop_event_boot: "pop_event d = Some (ev, d') \<Longrightarrow> boot_ok k d \<Longrightarrow> poll_ok k (Ready ev, d')"
  by (auto simp: pop_event_def poll_ok_def boot_ok_def boot_state_def poll_boots_def plain_event_def
      intro: bootstrapped_target_ok dest: bootstrapped_target_ok split: list.splits if_splits)

lemma rpc_loop_boot:
  "rpc_loop x now es d = Inr (Some (r, d')) \<Longrightarrow> boot_ok k d \<Longrightarrow> poll_ok k (r, d')"
proof (induction es arbitrary: d)
  case (Cons pe_e es)
  obtain pe e where pe: "pe_e = (pe, e)" by fastforce
  obtain r0 io where io: "io_poll_next x pe (rd_io d) = Inr (r0, io)" using Cons.prems(1) pe by (auto elim!: res_bind_InrE)
  let ?d1 = "d\<lparr>rd_io := io\<rparr>"
  have d1: "boot_ok k ?d1" by (rule boot_ok_cong [OF _ Cons.prems(2)]) simp
  show ?case
  proof (cases r0)
    case (Ready ev)
    then obtain d2 where d2: "inject_event x e ev ?d1 = Inr d2" using Cons.prems(1) pe io by (auto elim!: res_bind_InrE)
    then have "boot_ok k d2" using boot_ok_cong [OF inject_event_boot d1] by blast
    then show ?thesis using Cons.prems(1) Cons.IH [of d2] pop_event_boot [of d2] pe io Ready d2 by (auto split: option.splits)
  next
    case Pending
    then obtain ps pool where ps: "pool_poll (re_order e) (re_qorder e) now (rd_queries d) = Inr (ps, pool)"
      using Cons.prems(1) pe io by (auto elim!: res_bind_InrE)
    let ?d2 = "?d1\<lparr>rd_queries := pool\<rparr>"
    have d2: "boot_ok k ?d2" by (rule boot_ok_cong [OF _ d1]) simp
    have next_round: "poll_ok k (r, d')" if "inject_query_event x e i ev ?d2 = Inr d3" "rpc_loop x now es d3 = Inr (Some (r, d'))" for i ev d3
      using Cons.IH [OF that(2)] boot_ok_cong [OF inject_query_event_boot [OF that(1)] d2] by simp
    have idle: "(r, d') = (case pop_event ?d2 of Some (ev, d3) \<Rightarrow> (Ready ev, d3) | None \<Rightarrow> (Pending, ?d2)) \<Longrightarrow> poll_ok k (r, d')"
      using d2 pop_event_boot [OF _ d2] by (auto simp: poll_ok_def poll_boots_def split: option.splits)
    have fin: "poll_ok k (r, d')" if "query_finished x e q ?d2 = Inr (ev, d')" "r = Ready ev" for q ev
      using query_finished_boot [OF that(1) d2] that(2) by simp
    have round: "(case ps of
        PoolWaiting (Some (i, ev)) \<Rightarrow> res_bind (expect (pool_get pool i)) (\<lambda>q.
          res_bind (inject_query_event x e (qs_id q) ev ?d2) (rpc_loop x now es))
      | PoolFinished q \<Rightarrow> res_bind (query_finished x e q ?d2) (\<lambda>(ev, d3). Inr (Some (Ready ev, d3)))
      | PoolTimeout q \<Rightarrow> res_bind (query_timeout x e q ?d2) (\<lambda>(ev, d3). Inr (Some (Ready ev, d3)))
      | _ \<Rightarrow> Inr (Some (case pop_event ?d2 of Some (ev, d3) \<Rightarrow> (Ready ev, d3) | None \<Rightarrow> (Pending, ?d2)))) = Inr (Some (r, d'))"
      using Cons.prems(1) pe io Pending ps by (simp add: Let_def)
    show ?thesis
    proof (cases ps)
      case PoolIdle
      then show ?thesis using round idle by simp
    next
      case (PoolWaiting w)
      then show ?thesis using round idle next_round by (cases w) (auto elim!: res_bind_InrE)
    next
      case (PoolFinished q)
      then show ?thesis using round fin by (auto elim!: res_bind_InrE)
    next
      case (PoolTimeout q)
      then show ?thesis using round fin by (auto simp: query_timeout_def elim!: res_bind_InrE)
    qed
  qed
qed simp

lemma rpc_poll_next_boot:
  assumes "rpc_poll_next x now bf pf e es d = Inr (Some (r, d'))" and "boot_ok k d"
  shows "poll_ok k (r, d')"
proof -
  have start: "boot_ok k d3" if "(if rb = Ready () then res_bind (table_iter (re_iter e) (rd_kbuckets d1)) (\<lambda>(ns, t).
      let d2 = d1\<lparr>rd_kbuckets := t\<rparr> in if length ns < 20 then rpc_bootstrap x e d2 else Inr d2) else Inr d1) = Inr d3"
    "boot_state d1 = boot_state d" for rb d1 d3
  proof -
    have "boot_ok k (d1\<lparr>rd_kbuckets := t\<rparr>)" "boot_ok k d1" for t using boot_ok_cong [OF _ assms(2)] that(2) by simp_all
    then show ?thesis using that(1)
      by (auto simp: Let_def elim!: res_bind_InrE split: prod.splits if_splits) (use bootstrap_boot in blast)
  qed
  obtain rb jb where jb: "job_poll bf now (rd_bootstrap_job d) = (rb, jb)" by fastforce
  obtain d3 where d3: "(if rb = Ready () then res_bind (table_iter (re_iter e) (rd_kbuckets (d\<lparr>rd_bootstrap_job := jb\<rparr>))) (\<lambda>(ns, t).
      let d2 = d\<lparr>rd_bootstrap_job := jb, rd_kbuckets := t\<rparr> in if length ns < 20 then rpc_bootstrap x e d2 else Inr d2)
      else Inr (d\<lparr>rd_bootstrap_job := jb\<rparr>)) = Inr d3"
    using assms(1) jb unfolding rpc_poll_next_def Let_def by (auto elim!: res_bind_InrE)
  have ok3: "boot_ok k d3" using start [OF d3] by simp
  obtain rp jp where jp: "job_poll pf now (rd_ping_job d3) = (rp, jp)" by fastforce
  have rest: "res_bind (if rp = Ready () then ping_some x e (d3\<lparr>rd_ping_job := jp\<rparr>) else Inr (d3\<lparr>rd_ping_job := jp\<rparr>)) (\<lambda>d5.
      case pop_event d5 of Some (ev, d6) \<Rightarrow> Inr (Some (Ready ev, d6)) | None \<Rightarrow> rpc_loop x now es d5) = Inr (Some (r, d'))"
    using assms(1) jb d3 jp by (simp add: rpc_poll_next_def Let_def)
  then obtain d5 where d5: "(if rp = Ready () then ping_some x e (d3\<lparr>rd_ping_job := jp\<rparr>) else Inr (d3\<lparr>rd_ping_job := jp\<rparr>)) = Inr d5"
    "(case pop_event d5 of Some (ev, d6) \<Rightarrow> Inr (Some (Ready ev, d6)) | None \<Rightarrow> rpc_loop x now es d5) = Inr (Some (r, d'))"
    by (elim res_bind_InrE)
  have "boot_state d5 = boot_state d3" using d5(1) by (auto dest: ping_some_boot split: if_splits)
  then have "boot_ok k d5" using boot_ok_cong ok3 by blast
  then show ?thesis using d5(2) pop_event_boot rpc_loop_boot by (auto split: option.splits)
qed

lemma do_call_boot:
  assumes "do_call x c d = Inr d'" and "boot_ok k d"
  shows "boot_ok k d'"
proof (cases "\<exists>e. c = CallBootstrap e")
  case True
  then show ?thesis using assms bootstrap_boot by auto
next
  case False
  then have "boot_state d' = boot_state d" using assms(1)
    by (cases c) (auto simp: reply_command_def register_command_def elim!: res_bind_InrE dest: boot_frames)
  then show ?thesis using assms(2) boot_ok_cong by blast
qed

lemma rpc_run_boot:
  "rpc_run x ops d = Inr (Some (evs, d')) \<Longrightarrow> boot_ok k d \<Longrightarrow> boot_ok (k + num_bootstrapped evs) d'"
proof (induction ops arbitrary: d k evs)
  case (Cons op ops)
  show ?case
  proof (cases op)
    case (RPoll now bf pf e es)
    obtain ev d1 evs' where d1: "rpc_poll_next x now bf pf e es d = Inr (Some (ev, d1))" "rpc_run x ops d1 = Inr (Some (evs', d'))"
      "evs = (case ev of Ready ev \<Rightarrow> [ev] | Pending \<Rightarrow> []) @ evs'"
      using Cons.prems(1) RPoll by (auto elim!: res_bind_InrE split: option.splits)
    have "num_bootstrapped evs = poll_boots ev + num_bootstrapped evs'" using d1(3) by (cases ev) (simp_all add: poll_boots_def)
    then show ?thesis using Cons.IH [OF d1(2), of "k + poll_boots ev"] rpc_poll_next_boot [OF d1(1) Cons.prems(2)]
      by (simp add: poll_ok_def add.assoc)
  next
    case (RCall c)
    obtain d1 where "do_call x c d = Inr d1" "rpc_run x ops d1 = Inr (Some (evs, d'))"
      using Cons.prems(1) RCall by (auto elim!: res_bind_InrE)
    then show ?thesis using Cons.IH do_call_boot Cons.prems(2) by blast
  qed
qed simp

section \<open>Properties\<close>

text \<open>C6. No run of a node panics.  Whatever the configuration, \<^verbatim>\<open>with_config\<close> builds a node, and every
  sequence of polls and calls on it, whatever the messages that arrive, runs without a panic,
  as long as the clock does not go back, a received datagram fits in its buffer and fewer than
  2^32 rounds are polled.  At the end the routing table, the requests that wait for a response
  and the pool of queries are well formed.\<close>

theorem rpc_run_safe:
  assumes "sha_32 x" and "run_adm now ops" "run_rounds ops < 2 ^ 32"
  shows "\<exists>d0 r. with_config x e k1 k2 first random_id now config = Inr d0 \<and> rpc_run x ops d0 = Inr r \<and>
    (\<forall>evs d. r = Some (evs, d) \<longrightarrow> table_ok (rd_kbuckets d) \<and> rd_id d = local_key (rd_kbuckets d) \<and> io_ok x (rd_io d) \<and>
       pool_ok (rl_sha x) (run_end now ops) (qp_queries (rd_queries d)))"
proof -
  obtain d0 where d0: "with_config x e k1 k2 first random_id now config = Inr d0" "rpc_ok x now 0 d0"
    using with_config_ok [OF assms(1)] by blast
  obtain r where "rpc_run x ops d0 = Inr r" "\<forall>evs d. r = Some (evs, d) \<longrightarrow> rpc_ok x (run_end now ops) (0 + run_rounds ops) d"
    using rpc_run_ok [OF assms(1) d0(2) assms(2)] assms(3) by auto
  with d0(1) show ?thesis by (fastforce simp: rpc_ok_def tab_ok_def pool_inv_def)
qed

definition sample_env :: rpc_env where
  "sample_env = \<lparr>re_entry = (\<lambda>_. 1), re_now = (\<lambda>_. 1), re_insert = (\<lambda>_. 1), re_iter = (\<lambda>_. 1), re_closest = (\<lambda>_. 1),
     re_order = (\<lambda>m. m), re_qorder = map fst\<rparr>"

text \<open>A request whose response is awaited, then a poll that sends it and one that receives.\<close>

definition sample_run :: "rpc_op list" where
  "sample_run =
     [RPoll 1 False False sample_env [],
      RCall (CallPing \<lparr>pid_addr = SockV4 (10, 0, 0, 2) 53, pid_id = replicate 32 7\<rparr>),
      RPoll 2 False False sample_env [(sample_poll (SendDone (Inr 1)) RecvPending, sample_env)],
      RPoll 3 False False sample_env [(sample_poll SendPending (RecvDone [5] (Inr (1, SockV4 (10, 0, 0, 2) 53))), sample_env)]]"

lemma sample_env_ok: "env_ok sample_env"
  by (simp add: env_ok_def sample_env_def hm_keys_def)

lemma sample_run_adm: "run_adm 0 sample_run" "run_rounds sample_run = 2"
  using sample_env_ok by (simp_all add: sample_run_def sample_poll_def round_ok_def)

lemma sample_rpc_sha: "sha_32 sample_rpc"
  by (auto simp: sha_32_def sample_rpc_def sample_hash_def)

theorem rpc_run_safe_witness:
  "\<exists>d0 r. with_config sample_rpc sample_env [1] [2] 5 (replicate 32 3) 0 dht_config_default = Inr d0 \<and>
     rpc_run sample_rpc sample_run d0 = Inr r"
proof -
  have "run_rounds sample_run < 2 ^ 32" by (simp add: sample_run_adm(2))
  from rpc_run_safe [OF sample_rpc_sha sample_run_adm(1) this] show ?thesis by blast
qed

text \<open>C11. The end of the bootstrap is announced once: among the events that the polls of a run
  return there is at most one \<^verbatim>\<open>Bootstrapped\<close> event, however often the node bootstraps again.\<close>

theorem bootstrapped_once:
  assumes "with_config x e k1 k2 first random_id now config = Inr d0" and "rpc_run x ops d0 = Inr (Some (evs, d))"
  shows "num_bootstrapped evs \<le> 1 \<and> (num_bootstrapped evs = 1 \<longrightarrow> rd_bootstrapped d)"
proof -
  from rpc_run_boot [OF assms(2) with_config_boot [OF assms(1)]] show ?thesis by (auto simp: boot_ok_def boot_state_def split: if_splits)
qed

theorem bootstrapped_once_witness:
  "\<exists>d0 evs d. with_config sample_rpc sample_env [1] [2] 5 (replicate 32 3) 0 dht_config_default = Inr d0 \<and>
     rpc_run sample_rpc [RCall (CallBootstrap sample_env), RPoll 1 False False sample_env []] d0 = Inr (Some (evs, d)) \<and>
     evs = [Bootstrapped stats_empty] \<and> num_bootstrapped evs = 1 \<and> rd_bootstrapped d"
proof -
  obtain d0 where d0: "with_config sample_rpc sample_env [1] [2] 5 (replicate 32 3) 0 dht_config_default = Inr d0"
    "rd_queued_events d0 = [Bootstrapped stats_empty]" "rd_bootstrapped d0" "rd_bootstrap_nodes d0 = []"
    by (simp add: with_config_def rpc_bootstrap_def push_event_def dht_config_default_def Let_def)
  then have run: "rpc_run sample_rpc [RCall (CallBootstrap sample_env), RPoll 1 False False sample_env []] d0 =
      Inr (Some ([Bootstrapped stats_empty], d0\<lparr>rd_queued_events := []\<rparr>))"
    by (simp add: rpc_bootstrap_def rpc_poll_next_def job_poll_def pop_event_def)
  show ?thesis using d0(1) run bootstrapped_once [OF d0(1) run] by simp
qed



end
