(* ===== verification/Rpc_Term.thy ===== *)
theory Rpc_Term
  imports Rpc_Run
begin

text \<open>
  Termination of \<^verbatim>\<open>RpcDht::poll_next\<close>.  The loop of \<^verbatim>\<open>poll_next\<close> in \<^verbatim>\<open>src/rpc/mod.rs\<close> ends only when
  there is an event to return or nothing is left to do, so it goes on for as long as datagrams
  arrive.  Here a measure of the work that is left is given: the messages to send and the peers
  that the running queries may still ask.  Every round in which no datagram arrives either returns
  or makes the measure smaller.
\<close>

section \<open>The work left in a query\<close>

text \<open>The peers in the backlog of the current phase, and at most all known peers in each of the
  phases that are left.\<close>

definition query_effort :: "query_stream \<Rightarrow> nat" where
  "query_effort q =
     length (fp_iter (peer_iter_of (qs_peer_iter q))) + phase_rank (qs_peer_iter q) * length (qt_peers (qs_inner q))"

text \<open>The events that the end of the query gives: the result, and at most a change of the routing
  table for each known peer.\<close>

definition query_events :: "query_stream \<Rightarrow> nat" where
  "query_events q = 1 + length (qt_peers (qs_inner q))"

lemma fixed_next_loop_backlog:
  "fixed_next_loop n ps it = (s, it') \<Longrightarrow>
     length (fp_iter it') \<le> length ps \<and> (s = IterWaiting (Some p) \<longrightarrow> length (fp_iter it') < length ps)"
  by (induction n ps it rule: fixed_next_loop.induct) (auto split: if_splits option.splits)

lemma fixed_next_backlog:
  assumes "fixed_next it = (s, it')"
  shows "length (fp_iter it') \<le> length (fp_iter it)" and "s = IterWaiting (Some p) \<Longrightarrow> length (fp_iter it') < length (fp_iter it)"
  using assms fixed_next_loop_backlog [of _ "fp_iter it" it s it' p]
  by (auto simp: fixed_next_def split: fixed_state.splits if_splits)

lemma new_backlogs:
  assumes "mset (order (qt_peers t)) = mset (qt_peers t)"
  shows "length (fp_iter (unverified_peers_iter order t n)) \<le> length (qt_peers t)"
    and "length (fp_iter (closest_peers_iter order t n)) \<le> length (qt_peers t)"
proof -
  have "length (filter P (order (qt_peers t))) \<le> length (qt_peers t)" for P
    using length_filter_le [of P "order (qt_peers t)"] mset_eq_length [OF assms] by simp
  note this [of "\<lambda>e. ps_is_not_contacted (snd (snd e))"] this [of "\<lambda>e. ps_is_verified (snd (snd e))"]
  then show "length (fp_iter (unverified_peers_iter order t n)) \<le> length (qt_peers t)"
    "length (fp_iter (closest_peers_iter order t n)) \<le> length (qt_peers t)"
    by (simp_all add: unverified_peers_iter_def closest_peers_iter_def fixed_new_def Let_def min.coboundedI1 min.coboundedI2)
qed

lemma send_ready_effort:
  assumes "send_ready order p update q = Inr (r, q')"
  shows "query_effort q' = query_effort q"
proof -
  have "fp_iter (peer_iter_of it') = fp_iter (peer_iter_of it) \<and> phase_rank it' = phase_rank it"
    if "iter_on_failure p it = Inr (b, it')" for b it it'
    using that by (cases it) (auto simp: fixed_on_failure_def res_bind_Inr_iff split: fixed_state.splits if_splits)
  then show ?thesis using assms
    by (auto simp: send_ready_def qs_send_def Let_def query_effort_def elim!: res_bind_InrE split: if_splits option.splits)
qed

lemma phase_effort:
  assumes nxt: "fixed_next (peer_iter_of (qs_peer_iter q)) = (s, it')"
    and c: "peer_iter_of c = it'" "phase_rank c = phase_rank (qs_peer_iter q)"
  shows "query_effort (q\<lparr>qs_peer_iter := c\<rparr>) \<le> query_effort q"
    and "s = IterWaiting (Some p) \<Longrightarrow> send_ready order p update (q\<lparr>qs_peer_iter := c\<rparr>) = Inr (r, q') \<Longrightarrow>
      query_effort q' < query_effort q"
  using fixed_next_backlog [OF nxt] c send_ready_effort [of order p update "q\<lparr>qs_peer_iter := c\<rparr>" r q']
  by (simp_all add: query_effort_def)

text \<open>A poll of a query hands out a peer of a backlog, which only gets shorter.\<close>

lemma qs_poll_effort:
  "qs_poll_iter order q = Inr (r, q') \<Longrightarrow> (\<And>m. mset (order m) = mset m) \<Longrightarrow>
    query_effort q' \<le> query_effort q \<and> (r = Ready (Some ev) \<longrightarrow> query_effort q' < query_effort q)"
proof (induction order q arbitrary: r q' rule: qs_poll_iter.induct)
  case (1 order q)
  let ?move = "q\<lparr>qs_peer_iter := MovingCloser (unverified_peers_iter order (qs_inner q) (qs_parallelism q))\<rparr>"
  let ?upd = "q\<lparr>qs_peer_iter := Updating (closest_peers_iter order (qs_inner q) (qs_parallelism q))\<rparr>"
  note lists = new_backlogs [where order = order and t = "qs_inner q" and n = "qs_parallelism q", OF "1.prems"(2)]
  obtain s it' where nxt: "fixed_next (peer_iter_of (qs_peer_iter q)) = (s, it')" by fastforce
  note ph = phase_effort [OF nxt]
  show ?case
  proof (cases "qs_peer_iter q")
    case (Bootstrap it)
    have "query_effort ?move \<le> query_effort q" using lists Bootstrap by (simp add: query_effort_def)
    moreover have "query_effort q' \<le> query_effort ?move \<and> (r = Ready (Some ev) \<longrightarrow> query_effort q' < query_effort ?move)"
      if "s = IterFinished" "qs_poll_iter order ?move = Inr (r, q')"
      using "1.IH"(1) [OF Bootstrap _ _ that(2) "1.prems"(2)] nxt that(1) Bootstrap by simp
    ultimately show ?thesis using "1.prems"(1) ph [of "Bootstrap it'"] nxt Bootstrap
      by (subst (asm) qs_poll_iter.simps) (fastforce split: peers_iter_state.splits option.splits)
  next
    case (MovingCloser it)
    have "query_effort ?upd \<le> query_effort q" using lists MovingCloser by (simp add: query_effort_def)
    moreover have "query_effort q' \<le> query_effort ?upd \<and> (r = Ready (Some ev) \<longrightarrow> query_effort q' < query_effort ?upd)"
      if "s = IterFinished" "qtype_is_update (qs_ty q)" "qs_poll_iter order ?upd = Inr (r, q')"
      using "1.IH"(2) [OF MovingCloser _ _ that(2,3) "1.prems"(2)] nxt that(1) MovingCloser by simp
    ultimately show ?thesis using "1.prems"(1) ph [of "MovingCloser it'"] nxt MovingCloser
      by (subst (asm) qs_poll_iter.simps) (fastforce split: peers_iter_state.splits option.splits if_splits)
  next
    case (Updating it)
    then show ?thesis using "1.prems"(1) ph [of "Updating it'"] nxt
      by (subst (asm) qs_poll_iter.simps) (fastforce split: peers_iter_state.splits option.splits)
  qed
qed

lemma qs_poll_inner: "qs_poll_iter order q = Inr (r, q') \<Longrightarrow> qs_inner q' = qs_inner q"
proof (induction order q arbitrary: r q' rule: qs_poll_iter.induct)
  case (1 order q)
  have send: "qs_inner q2 = qs_inner q1" if "send_ready order p u q1 = Inr (r1, q2)" for p u q1 r1 q2
    using that by (auto simp: send_ready_def qs_send_def Let_def elim!: res_bind_InrE split: if_splits option.splits)
  obtain s it' where nxt: "fixed_next (peer_iter_of (qs_peer_iter q)) = (s, it')" by fastforce
  show ?case
  proof (cases "qs_peer_iter q")
    case (Bootstrap it)
    then show ?thesis using "1.prems" "1.IH"(1) [OF Bootstrap] nxt
      by (subst (asm) qs_poll_iter.simps) (auto dest!: send split: peers_iter_state.splits option.splits)
  next
    case (MovingCloser it)
    then show ?thesis using "1.prems" "1.IH"(2) [OF MovingCloser] nxt
      by (subst (asm) qs_poll_iter.simps) (auto dest!: send split: peers_iter_state.splits option.splits if_splits)
  next
    case (Updating it)
    then show ?thesis using "1.prems" nxt
      by (subst (asm) qs_poll_iter.simps) (auto dest!: send split: peers_iter_state.splits option.splits)
  qed
qed

section \<open>The work left in the pool and in the node\<close>

text \<open>A measure of queries that the polls of a query do not make larger.\<close>

definition poll_measure :: "peer_order \<Rightarrow> (query_stream \<Rightarrow> nat) \<Rightarrow> bool" where
  "poll_measure order f \<longleftrightarrow>
     (\<forall>q st. f (q\<lparr>qs_stats := st\<rparr>) = f q) \<and> (\<forall>q r q'. qs_poll_iter order q = Inr (r, q') \<longrightarrow> f q' \<le> f q)"

definition strict_measure :: "peer_order \<Rightarrow> (query_stream \<Rightarrow> nat) \<Rightarrow> bool" where
  "strict_measure order f \<longleftrightarrow> (\<forall>q ev q'. qs_poll_iter order q = Inr (Ready (Some ev), q') \<longrightarrow> f q' < f q)"

lemma effort_measure:
  assumes "\<And>m. mset (order m) = mset m"
  shows "poll_measure order query_effort" and "strict_measure order query_effort" and "poll_measure order query_events"
  using qs_poll_effort [OF _ assms] qs_poll_inner
  by (auto simp: poll_measure_def strict_measure_def query_events_def) (simp_all add: query_effort_def)

lemma pool_loop_measure:
  assumes f: "poll_measure order f"
  shows "pool_loop order now timeout ids qs = Inr (hit, qs') \<Longrightarrow> hm_ok qs \<Longrightarrow>
    hm_ok qs' \<and> hm_sum f qs' \<le> hm_sum f qs \<and> (strict_measure order f \<and> hit = Some (HitWaiting ev i) \<longrightarrow> hm_sum f qs' < hm_sum f qs)"
proof (induction ids arbitrary: qs)
  case (Cons j ids)
  from Cons.prems(1) obtain q0 where q0: "hm_get qs j = Some q0" by (auto simp: expect_def split: option.splits)
  define start where "start = (case st_start (qs_stats q0) of Some s \<Rightarrow> s | None \<Rightarrow> now)"
  let ?q = "q0\<lparr>qs_stats := (qs_stats q0)\<lparr>st_start := Some start\<rparr>\<rparr>"
  obtain r q' where r: "qs_poll_iter order ?q = Inr (r, q')"
    using Cons.prems(1) q0 by (auto simp: Let_def start_def elim!: res_bind_InrE)
  have e: "f q' \<le> f q0" "strict_measure order f \<Longrightarrow> r = Ready (Some ev') \<Longrightarrow> f q' < f q0" for ev'
    using f r unfolding poll_measure_def strict_measure_def by metis+
  note ins = hm_sum_insert [OF Cons.prems(2), of f j q']
  have ok: "hm_ok (hm_insert j q' qs)" using Cons.prems(2) by simp
  have rest: "pool_loop order now timeout (j # ids) qs =
      (case r of Ready (Some ev) \<Rightarrow> Inr (Some (HitWaiting ev j), hm_insert j q' qs) | Ready None \<Rightarrow> Inr (Some (HitFinished j), hm_insert j q' qs)
       | Pending \<Rightarrow> res_bind (usize_sub now start) (\<lambda>elapsed.
           if timeout \<le> elapsed then Inr (Some (HitTimeout j), hm_insert j q' qs) else pool_loop order now timeout ids (hm_insert j q' qs)))"
    using q0 r by (simp add: Let_def start_def split: poll.splits option.splits)
  show ?case using Cons.prems(1) Cons.IH [OF _ ok] ins q0 e ok unfolding rest
    by (fastforce elim!: res_bind_InrE split: poll.splits option.splits if_splits)
qed simp

lemma pool_poll_measure:
  assumes "pool_poll order qorder now p = Inr (r, p')" and f: "poll_measure order f" and "hm_ok (qp_queries p)"
  shows "hm_sum f (qp_queries p') + (case r of PoolFinished q \<Rightarrow> f q | PoolTimeout q \<Rightarrow> f q | _ \<Rightarrow> 0) \<le> hm_sum f (qp_queries p)"
    and "strict_measure order f \<Longrightarrow> r = PoolWaiting (Some (i, ev)) \<Longrightarrow> hm_sum f (qp_queries p') < hm_sum f (qp_queries p)"
proof -
  obtain hit qs where l: "pool_loop order now (qc_timeout (qp_config p)) (qorder (qp_queries p)) (qp_queries p) = Inr (hit, qs)"
    using assms(1) by (auto simp: pool_poll_def elim!: res_bind_InrE)
  note e = pool_loop_measure [OF f l assms(3)]
  have rm: "hm_sum f (hm_remove j qs) + f (q\<lparr>qs_stats := st\<rparr>) \<le> hm_sum f (qp_queries p)" if "hm_get qs j = Some q" for j q st
    using hm_sum_remove [of qs f j] e f that by (simp add: poll_measure_def)
  show "hm_sum f (qp_queries p') + (case r of PoolFinished q \<Rightarrow> f q | PoolTimeout q \<Rightarrow> f q | _ \<Rightarrow> 0) \<le> hm_sum f (qp_queries p)"
    using assms(1) l e rm
    by (auto simp: pool_poll_def pool_take_def expect_def Let_def elim!: res_bind_InrE split: option.splits pool_hit.splits)
  show "hm_sum f (qp_queries p') < hm_sum f (qp_queries p)" if "strict_measure order f" "r = PoolWaiting (Some (i, ev))"
    using assms(1) l e that by (auto simp: pool_poll_def Let_def elim!: res_bind_InrE split: option.splits pool_hit.splits if_splits)
qed

text \<open>What is queued and what is being sent.\<close>

definition io_effort :: "'u io_handler \<Rightarrow> nat" where
  "io_effort io = length (io_pending_send io) + (if io_pending_flush io = None then 0 else 1)"

text \<open>Each peer that is asked costs one request, and a second message if it is asked through a
  referrer.\<close>

definition node_effort :: "rpc_dht \<Rightarrow> nat" where
  "node_effort d = 3 * hm_sum query_effort (qp_queries (rd_queries d)) + io_effort (rd_io d)"

text \<open>The events that the node may still report without receiving anything.\<close>

definition event_budget :: "rpc_dht \<Rightarrow> nat" where
  "event_budget d = length (rd_queued_events d) + hm_sum query_events (qp_queries (rd_queries d))"

lemma start_send_next_effort: "io_effort (snd (start_send_next x io)) \<le> io_effort io"
  by (auto simp: start_send_next_def io_effort_def Let_def split: option.splits list.splits prod.splits sum.splits)

text \<open>Without a datagram, the handler reports that a message is sent or has nothing to report.\<close>

fun is_sent_event :: "'u io_event \<Rightarrow> bool" where
  "is_sent_event (OutRequest _) = True"
| "is_sent_event (OutResponse _ _) = True"
| "is_sent_event _ = False"

lemma io_read_quiet:
  assumes "io_ok x io" and "pe_recv env = RecvPending" and "io_read x env io = Inr (r, io')"
  shows "r = Pending \<and> io_effort io' = io_effort io"
proof -
  have "udp_ok (io_socket io)" using assms(1) by (simp add: io_ok_def)
  then obtain socket where "udp_poll_next (codec_decode (rl_decode x)) RecvPending (io_socket io) = Inr (Pending, socket)"
    using udp_poll_next_ok [of "io_socket io" RecvPending "codec_decode (rl_decode x)"] by auto
  then show ?thesis using assms(2,3) by (auto simp: io_read_def Let_def io_effort_def rotate_secrets_def split: if_splits)
qed

lemma io_poll_quiet:
  assumes ok: "io_ok x io" and quiet: "pe_recv env = RecvPending" and poll: "io_poll_next x env io = Inr (r, io')"
  shows "io_effort io' \<le> io_effort io \<and> (\<forall>ev. r = Ready ev \<longrightarrow> is_sent_event ev \<and> io_effort io' < io_effort io)"
proof -
  obtain io1 where io1: "start_send_next x io = (Inr (), io1)" "io_ok x io1" using start_send_next_ok [OF ok] by metis
  then have le: "io_effort io1 \<le> io_effort io" using start_send_next_effort [of x io] by simp
  show ?thesis
  proof (cases "io_pending_flush io1")
    case None
    then show ?thesis using poll io1 io_read_quiet [OF io1(2) quiet] le by (auto simp: io_poll_next_def)
  next
    case (Some ev)
    obtain r' u where u: "udp_poll_flush (pe_send env) (io_socket io1) = Inr (r', u)" "udp_ok u"
      "udp_outgoing u = (if r' = Pending then udp_outgoing (io_socket io1) else None)"
    proof -
      have "udp_ok (io_socket io1)" using io1(2) by (simp add: io_ok_def)
      then show ?thesis using udp_poll_flush_ok that by metis
    qed
    let ?io = "io1\<lparr>io_socket := u\<rparr>"
    show ?thesis
    proof (cases "r' = Pending")
      case True
      then have ok1: "io_ok x ?io" using io1(2) u by (simp add: io_ok_def)
      have "io_effort ?io = io_effort io1" by (simp add: io_effort_def)
      moreover have "io_read x env ?io = Inr (r, io')" using poll True io1(1) Some u(1) by (simp add: io_poll_next_def udp_poll_ready_def)
      ultimately show ?thesis using io_read_quiet [OF ok1 quiet] le by auto
    next
      case False
      then show ?thesis using poll io1(1) Some u(1) le
        by (cases ev) (auto simp: io_poll_next_def udp_poll_ready_def io_effort_def)
    qed
  qed
qed

lemma inject_query_event_effort:
  assumes "inject_query_event x e i ev d = Inr d'"
  shows "rd_queries d' = rd_queries d \<and> rd_queued_events d' = rd_queued_events d \<and> io_effort (rd_io d') \<le> io_effort (rd_io d) + 2"
proof -
  have req: "io_effort (io_request x ev io) \<le> io_effort io + 2" for ev :: "u64 message_event" and io
    by (cases ev) (auto simp: io_request_def next_req_id_def io_holepunch_def send_message_def io_effort_def Let_def split: option.splits)
  show ?thesis using assms req
    by (cases ev) (auto simp: io_query_def io_update_def remove_peer_def Let_def elim!: res_bind_InrE split: prod.splits entry.splits)
qed

lemma add_node_frame:
  assumes "add_node x e j i p tok to d = Inr d'"
  shows "rd_io d' = rd_io d \<and> rd_commands d' = rd_commands d \<and> rd_queries d' = rd_queries d \<and>
    rd_queued_events d' \<in> {rd_queued_events d, rd_queued_events d @ [RoutingUpdated p None]}"
  using assms by (auto simp: add_node_def push_event_def Let_def elim!: res_bind_InrE split: prod.splits entry.splits insert_result.splits)

lemma remove_peer_frame:
  "remove_peer e j k d = Inr (v, d') \<Longrightarrow> rd_io d' = rd_io d \<and> rd_queries d' = rd_queries d \<and> rd_queued_events d' = rd_queued_events d"
  by (auto simp: remove_peer_def Let_def elim!: res_bind_InrE split: prod.splits entry.splits)

lemma add_results_frame:
  "add_results x e j ps d = Inr d' \<Longrightarrow> rd_io d' = rd_io d \<and> rd_queries d' = rd_queries d \<and>
     length (rd_queued_events d') \<le> length (rd_queued_events d) + length ps"
proof (induction ps arbitrary: j d)
  case (Cons p ps)
  obtain pid st where p: "p = (pid, st)" by fastforce
  obtain d1 where d1: "add_results x e (j + 1) ps d1 = Inr d'"
    "(case st of FailedPeer \<Rightarrow> res_bind (remove_peer e j (id_key x (pid_id pid)) d) (\<lambda>(_, d'). Inr d')
      | SucceededPeer tok to \<Rightarrow> add_node x e j (pid_id pid) (peer_from (pid_addr pid)) (Some tok) to d | _ \<Rightarrow> Inr d) = Inr d1"
    using Cons.prems p by (auto elim!: res_bind_InrE)
  have "rd_io d1 = rd_io d \<and> rd_queries d1 = rd_queries d \<and> length (rd_queued_events d1) \<le> length (rd_queued_events d) + 1"
    using d1(2) by (cases st) (auto elim!: res_bind_InrE dest: remove_peer_frame dest!: add_node_frame)
  then show ?case using Cons.IH [OF d1(1)] by auto
qed simp

lemma query_finished_frame:
  assumes "query_finished x e q d = Inr (ev, d')" and "env_ok e"
  shows "rd_io d' = rd_io d \<and> rd_queries d' = rd_queries d \<and> length (rd_queued_events d') < length (rd_queued_events d) + query_events q"
proof -
  have "length (re_order e (qt_peers (qs_inner q))) = length (qt_peers (qs_inner q))"
    using assms(2) by (metis env_ok_def mset_eq_length)
  then show ?thesis using assms(1)
    by (auto simp: query_finished_def qs_into_result_def qt_into_result_def query_events_def Let_def elim!: res_bind_InrE
        dest!: add_results_frame split: if_splits)
qed

lemma pop_event_budget:
  "pop_event d = Some (ev, d') \<Longrightarrow> event_budget d' < event_budget d \<and> node_effort d' = node_effort d"
  by (auto simp: pop_event_def event_budget_def node_effort_def split: list.splits)

text \<open>One round of the loop: it returns, or it goes on with a node that is well formed.  If no
  datagram arrived, then the work left is no more in the first case and less in the second, and an event is
  reported at the expense of the events left.\<close>

definition round_stops :: "rpc_lib \<Rightarrow> instant \<Rightarrow> nat \<Rightarrow> poll_env \<times> rpc_env \<Rightarrow> rpc_dht \<Rightarrow> rpc_event poll \<Rightarrow> rpc_dht \<Rightarrow> bool" where
  "round_stops x now n pe_e d ev d' \<longleftrightarrow>
     (\<forall>es. rpc_loop x now (pe_e # es) d = Inr (Some (ev, d'))) \<and>
     (pe_recv (fst pe_e) = RecvPending \<longrightarrow>
        rpc_ok x now n d' \<and> node_effort d' \<le> node_effort d \<and> (ev \<noteq> Pending \<longrightarrow> event_budget d' < event_budget d))"

definition round_goes_on :: "rpc_lib \<Rightarrow> instant \<Rightarrow> nat \<Rightarrow> poll_env \<times> rpc_env \<Rightarrow> rpc_dht \<Rightarrow> rpc_dht \<Rightarrow> bool" where
  "round_goes_on x now n pe_e d d' \<longleftrightarrow>
     (\<forall>es. rpc_loop x now (pe_e # es) d = rpc_loop x now es d') \<and> rpc_ok x now (n + 1) d' \<and>
     (pe_recv (fst pe_e) = RecvPending \<longrightarrow> rpc_ok x now n d' \<and> node_effort d' < node_effort d \<and> event_budget d' \<le> event_budget d)"

lemma rpc_round_pool:
  assumes ok: "rpc_ok x now n d" and sha: "sha_32 x" and e: "env_ok e"
    and io: "io_poll_next x pe (rd_io d) = Inr (Pending, io)" "io_ok x io" and le: "pe_recv pe = RecvPending \<Longrightarrow> io_effort io \<le> io_effort (rd_io d)"
  shows "(\<exists>ev d'. round_stops x now n (pe, e) d ev d') \<or> (\<exists>d'. round_goes_on x now n (pe, e) d d')"
proof -
  let ?d1 = "d\<lparr>rd_io := io\<rparr>"
  obtain ps pool where ps: "pool_poll (re_order e) (re_qorder e) now (rd_queries d) = Inr (ps, pool)"
    "rpc_ok x now n (?d1\<lparr>rd_queries := pool\<rparr>)" "\<forall>i ev. ps = PoolWaiting (Some (i, ev)) \<longrightarrow> (\<exists>q. pool_get pool i = Some q)"
    using pool_poll_inv [OF rpc_ok_io [OF ok io(2)] e] by fastforce
  let ?d2 = "?d1\<lparr>rd_queries := pool\<rparr>" and ?sum = "\<lambda>f p. hm_sum f (qp_queries p)"
  have hm: "hm_ok (qp_queries (rd_queries d))" using ok by (simp add: rpc_ok_def pool_inv_def pool_ok_def)
  have meas: "poll_measure (re_order e) query_effort" "strict_measure (re_order e) query_effort" "poll_measure (re_order e) query_events"
    using effort_measure e by (simp_all add: env_ok_def)
  note eff = pool_poll_measure [OF ps(1) meas(1) hm] and evs = pool_poll_measure(1) [OF ps(1) meas(3) hm]
  have le2: "node_effort ?d2 \<le> node_effort d" if "pe_recv pe = RecvPending" using le [OF that] eff(1) by (simp add: node_effort_def)
  have idle: "\<exists>ev d'. round_stops x now n (pe, e) d ev d'" if "ps = PoolIdle \<or> ps = PoolWaiting None"
  proof -
    have "event_budget ?d2 \<le> event_budget d" using evs that by (auto simp: event_budget_def)
    then show ?thesis using io(1) ps(1,2) that le2 pop_event_budget [of ?d2] pop_event_ok [OF ps(2)]
      by (cases "pop_event ?d2") (fastforce simp: round_stops_def Let_def)+
  qed
  have fin: "\<exists>ev d'. round_stops x now n (pe, e) d ev d'" if "ps = PoolFinished q \<or> ps = PoolTimeout q" for q
  proof -
    obtain ev d' where d': "query_finished x e q ?d2 = Inr (ev, d')" "rpc_ok x now n d'" using query_finished_ok [OF ps(2) sha] by blast
    note fr = query_finished_frame [OF d'(1) e]
    have "event_budget d' < event_budget d" "node_effort d' = node_effort ?d2"
      using fr evs that by (auto simp: event_budget_def node_effort_def)
    then have "round_stops x now n (pe, e) d (Ready ev) d'"
      using io(1) ps(1) that d' le2 by (auto simp: round_stops_def query_timeout_def Let_def)
    then show ?thesis by blast
  qed
  have wait: "\<exists>d'. round_goes_on x now n (pe, e) d d'" if p: "ps = PoolWaiting (Some (i, ev))" for i ev
  proof -
    obtain q where q: "pool_get pool i = Some q" using ps(3) p by blast
    obtain d' where d': "inject_query_event x e (qs_id q) ev ?d2 = Inr d'" "rpc_ok x now n d'" using inject_query_event_ok [OF ps(2) sha] by blast
    note inj = inject_query_event_effort [OF d'(1)]
    have "node_effort d' < node_effort d" if "pe_recv pe = RecvPending"
      using inj eff(2) [OF meas(2) p] le [OF that] by (simp add: node_effort_def)
    moreover have "event_budget d' \<le> event_budget d" using inj evs p by (simp add: event_budget_def)
    ultimately have "round_goes_on x now n (pe, e) d d'"
      using io(1) ps(1) p q d' rpc_ok_mono [OF d'(2) order_refl, of "n + 1"] by (simp add: round_goes_on_def Let_def)
    then show ?thesis by blast
  qed
  show ?thesis using idle fin wait by (cases ps) (metis option.exhaust prod.exhaust)+
qed

lemma rpc_round:
  assumes ok: "rpc_ok x now n d" and sha: "sha_32 x" and env: "round_ok (pe, e)" and n: "n + 1 < 2 ^ 32"
  shows "(\<exists>ev d'. round_stops x now n (pe, e) d ev d') \<or> (\<exists>d'. round_goes_on x now n (pe, e) d d')"
proof -
  have e: "recv_contract (pe_recv pe)" "env_ok e" using env by (simp_all add: round_ok_def)
  have io_ok: "io_ok x (rd_io d)" using ok by (simp add: rpc_ok_def)
  obtain r io where io: "io_poll_next x pe (rd_io d) = Inr (r, io)" "io_ok x io"
    using io_poll_next_ok [OF io_ok e(1)] by (auto simp: io_step_ok_def)
  note quiet = io_poll_quiet [OF io_ok _ io(1)]
  let ?d1 = "d\<lparr>rd_io := io\<rparr>"
  have d1: "rpc_ok x now n ?d1" by (rule rpc_ok_io [OF ok io(2)])
  show ?thesis
  proof (cases r)
    case (Ready ev)
    obtain d2 where d2: "inject_event x e ev ?d1 = Inr d2" "rpc_ok x now (n + 1) d2"
      using inject_event_ok [OF d1 sha e(2) n] by blast
    have same: "d2 = ?d1" "node_effort ?d1 < node_effort d" "event_budget ?d1 = event_budget d" if "pe_recv pe = RecvPending"
      using quiet [OF that] Ready d2(1) by (cases ev; auto simp: node_effort_def event_budget_def)+
    show ?thesis
    proof (cases "pop_event d2")
      case None
      then have "round_goes_on x now n (pe, e) d d2" using io(1) Ready d2 same d1 by (auto simp: round_goes_on_def)
      then show ?thesis by blast
    next
      case (Some evd)
      obtain ev' d3 where evd: "evd = (ev', d3)" by fastforce
      then have "round_stops x now n (pe, e) d (Ready ev') d3"
        using io(1) Ready d2 same d1 Some pop_event_budget [of d2 ev' d3] pop_event_ok [OF d1, of ev' d3] by (auto simp: round_stops_def)
      then show ?thesis by blast
    qed
  next
    case Pending
    then show ?thesis using rpc_round_pool [OF ok sha e(2) _ io(2)] io(1) quiet by blast
  qed
qed

section \<open>The loop ends\<close>

text \<open>A round in which the socket has no datagram.\<close>

definition quiet_round :: "poll_env \<times> rpc_env \<Rightarrow> bool" where
  "quiet_round r \<longleftrightarrow> env_ok (snd r) \<and> pe_recv (fst r) = RecvPending"

lemma quiet_round_ok: "quiet_round r \<Longrightarrow> round_ok r"
  by (simp add: quiet_round_def round_ok_def)

lemma quiet_loop_returns:
  assumes sha: "sha_32 x" and n: "n + 1 < 2 ^ 32"
  shows "rpc_ok x now n d \<Longrightarrow> list_all quiet_round es \<Longrightarrow> node_effort d < length es \<Longrightarrow>
    \<exists>ev d'. rpc_loop x now es d = Inr (Some (ev, d')) \<and> rpc_ok x now n d' \<and> node_effort d' \<le> node_effort d \<and>
      (ev \<noteq> Pending \<longrightarrow> event_budget d' < event_budget d)"
proof (induction es arbitrary: d)
  case (Cons r es)
  obtain pe e where r: "r = (pe, e)" by fastforce
  have env: "round_ok (pe, e)" "pe_recv pe = RecvPending" using Cons.prems(2) r quiet_round_ok by (simp_all add: quiet_round_def)
  from rpc_round [OF Cons.prems(1) sha env(1) n] consider
      (stop) ev d' where "round_stops x now n (pe, e) d ev d'" | (go) d' where "round_goes_on x now n (pe, e) d d'" by blast
  then show ?case
  proof cases
    case stop
    then show ?thesis using env(2) r unfolding round_stops_def by (intro exI [of _ ev] exI [of _ d']) simp
  next
    case go
    then have d': "rpc_loop x now (r # es) d = rpc_loop x now es d'" "rpc_ok x now n d'" "node_effort d' < node_effort d"
      "event_budget d' \<le> event_budget d" using env(2) r unfolding round_goes_on_def by simp_all
    then show ?thesis using Cons.IH [OF d'(2)] Cons.prems(2,3) by fastforce
  qed
qed simp

lemma rpc_loop_returns:
  assumes sha: "sha_32 x"
  shows "rpc_ok x now n d \<Longrightarrow> list_all round_ok es \<Longrightarrow> n + length es + 1 < 2 ^ 32 \<Longrightarrow>
    \<exists>m. \<forall>es'. list_all quiet_round es' \<and> m \<le> length es' \<longrightarrow> (\<exists>r. rpc_loop x now (es @ es') d = Inr (Some r))"
proof (induction es arbitrary: n d)
  case Nil
  then show ?case using quiet_loop_returns [OF sha _ Nil.prems(1)] by (intro exI [of _ "node_effort d + 1"]) fastforce
next
  case (Cons r es)
  obtain pe e where r: "r = (pe, e)" by fastforce
  have env: "round_ok (pe, e)" "n + 1 < 2 ^ 32" using Cons.prems(2,3) r by simp_all
  from rpc_round [OF Cons.prems(1) sha env] consider
      (stop) ev d' where "round_stops x now n (pe, e) d ev d'" | (go) d' where "round_goes_on x now n (pe, e) d d'" by blast
  then show ?case
  proof cases
    case go
    then have d': "\<And>es. rpc_loop x now (r # es) d = rpc_loop x now es d'" "rpc_ok x now (n + 1) d'" using r unfolding round_goes_on_def by simp_all
    then show ?thesis using Cons.IH [OF d'(2)] Cons.prems(2,3) by simp
  qed (simp add: r round_stops_def)
qed

text \<open>A poll in which no job is due and nothing arrives.\<close>

lemma quiet_poll_returns:
  assumes sha: "sha_32 x" and n: "n + 1 < 2 ^ 32" and ok: "rpc_ok x now n d" and es: "list_all quiet_round es" "node_effort d < length es"
  shows "\<exists>ev d'. rpc_poll_next x now False False e es d = Inr (Some (ev, d')) \<and> rpc_ok x now n d' \<and> node_effort d' \<le> node_effort d \<and>
    (ev \<noteq> Pending \<longrightarrow> event_budget d' < event_budget d)"
proof -
  have eq: "rpc_poll_next x now False False e es d =
      (case pop_event d of Some (ev, d6) \<Rightarrow> Inr (Some (Ready ev, d6)) | None \<Rightarrow> rpc_loop x now es d)"
    by (simp add: rpc_poll_next_def job_poll_def)
  show ?thesis
  proof (cases "pop_event d")
    case None
    then show ?thesis using eq quiet_loop_returns [OF sha n ok es] by simp
  next
    case (Some evd)
    then show ?thesis using eq pop_event_budget pop_event_ok [OF ok] by (cases evd) fastforce
  qed
qed

section \<open>Properties\<close>

text \<open>C8. A poll of the node returns.  After any run, whatever the first rounds \<open>es\<close> of the poll receive, the
  poll returns an event or \<^verbatim>\<open>Pending\<close> within a bounded number of further rounds in which no datagram
  arrives, whether the socket takes the messages in these rounds or not.\<close>

theorem poll_terminates:
  assumes "sha_32 x" and "with_config x e0 k1 k2 first random_id now config = Inr d0"
    and "run_adm now ops" "rpc_run x ops d0 = Inr (Some (evs, d))"
    and "run_end now ops \<le> t" "list_all round_ok es" "run_rounds ops + length es + 1 < 2 ^ 32"
  shows "\<exists>m. \<forall>es'. list_all quiet_round es' \<and> m \<le> length es' \<longrightarrow>
    (\<exists>ev d'. rpc_poll_next x t bf pf e (es @ es') d = Inr (Some (ev, d')))"
proof -
  have "rpc_ok x now 0 d0" using with_config_ok [OF assms(1), of e0 k1 k2 first random_id now config] assms(2) by auto
  from rpc_run_ok [OF assms(1) this assms(3)] assms(4,7) have "rpc_ok x (run_end now ops) (run_rounds ops) d" by auto
  then have "rpc_ok x t (run_rounds ops) d" using assms(5) by (rule rpc_ok_mono) simp
  then obtain d5 where d5: "rpc_ok x t (run_rounds ops) d5"
    "\<And>es. rpc_poll_next x t bf pf e es d =
       (case pop_event d5 of Some (ev, d6) \<Rightarrow> Inr (Some (Ready ev, d6)) | None \<Rightarrow> rpc_loop x t es d5)"
    using rpc_poll_next_jobs [OF _ assms(1)] by metis
  then show ?thesis using rpc_loop_returns [OF assms(1) d5(1) assms(6,7)] by (cases "pop_event d5") auto
qed

text \<open>A node that has a request to send, polled with a socket that takes nothing.\<close>

theorem poll_terminates_witness:
  "\<exists>d0 d m ev d'. with_config sample_rpc sample_env [1] [2] 5 (replicate 32 3) 0 dht_config_default = Inr d0 \<and>
     rpc_run sample_rpc [RPoll 1 False False sample_env [],
       RCall (CallPing \<lparr>pid_addr = SockV4 (10, 0, 0, 2) 53, pid_id = replicate 32 7\<rparr>)] d0 = Inr (Some ([Bootstrapped stats_empty], d)) \<and>
     rpc_poll_next sample_rpc 2 False False sample_env (replicate m (sample_poll SendPending RecvPending, sample_env)) d = Inr (Some (ev, d'))"
proof -
  let ?ping = "CallPing \<lparr>pid_addr = SockV4 (10, 0, 0, 2) 53, pid_id = replicate 32 7\<rparr>"
  let ?ops = "[RPoll 1 False False sample_env [], RCall ?ping]"
  let ?q = "(sample_poll SendPending RecvPending, sample_env)"
  obtain d0 where d0: "with_config sample_rpc sample_env [1] [2] 5 (replicate 32 3) 0 dht_config_default = Inr d0"
    "rd_queued_events d0 = [Bootstrapped stats_empty]"
    by (simp add: with_config_def rpc_bootstrap_def push_event_def dht_config_default_def Let_def)
  then obtain d where d: "rpc_run sample_rpc ?ops d0 = Inr (Some ([Bootstrapped stats_empty], d))"
    by (simp add: rpc_poll_next_def job_poll_def pop_event_def)
  have adm: "run_adm 0 ?ops" "run_end 0 ?ops \<le> 2" "run_rounds ?ops + length ([] :: (poll_env \<times> rpc_env) list) + 1 < 2 ^ 32" by simp_all
  obtain m where m: "\<forall>es'. list_all quiet_round es' \<and> m \<le> length es' \<longrightarrow>
      (\<exists>ev d'. rpc_poll_next sample_rpc 2 False False sample_env ([] @ es') d = Inr (Some (ev, d')))"
    using poll_terminates [OF sample_rpc_sha d0(1) adm(1) d adm(2) _ adm(3), of False False sample_env] by auto
  have "list_all quiet_round (replicate m ?q)" using sample_env_ok by (simp add: list_all_length quiet_round_def sample_poll_def)
  then show ?thesis using m [rule_format, of "replicate m ?q"] d0(1) d by auto
qed

end
