(* ===== verification/Rpc_Exchange.thy ===== *)
theory Rpc_Exchange
  imports Rpc_Term
begin

text \<open>
  Two nodes and the wire between them.  A request of one node is encoded, sent, received and
  decoded by another node, handed on as a command, answered, and the answer travels back to the
  query that asked.  Each step is a round of the loop of \<^verbatim>\<open>RpcDht::poll_next\<close> or one of its
  handlers; the message codec is the generated one, of which only the law \<open>wire_law\<close> is used.
\<close>

section \<open>Rounds and datagrams\<close>

text \<open>The first half of a round: the IO handler is polled and its event is handled.\<close>

definition io_round :: "rpc_lib \<Rightarrow> poll_env \<Rightarrow> rpc_env \<Rightarrow> rpc_dht \<Rightarrow> rpc_dht res" where
  "io_round x pe e d =
     res_bind (io_poll_next x pe (rd_io d)) (\<lambda>(r, io).
       case r of Ready ev \<Rightarrow> inject_event x e ev (d\<lparr>rd_io := io\<rparr>) | Pending \<Rightarrow> Inr (d\<lparr>rd_io := io\<rparr>))"

lemma rpc_loop_io_round:
  assumes "io_poll_next x pe (rd_io d) = Inr (Ready ev, io)"
  shows "rpc_loop x now ((pe, e) # es) d =
    res_bind (io_round x pe e d) (\<lambda>d2. case pop_event d2 of Some (ev', d3) \<Rightarrow> Inr (Some (Ready ev', d3)) | None \<Rightarrow> rpc_loop x now es d2)"
  using assms by (simp add: io_round_def)

text \<open>The codec decodes what it encodes, for the three types of messages.\<close>

definition wire_law :: "rpc_lib \<Rightarrow> bool" where
  "wire_law x \<longleftrightarrow> (\<forall>m. msg_type m \<in> {1, 2, 3} \<longrightarrow> rl_decode x (rl_encode x m) = Some m)"

text \<open>The message arrives in a datagram from the address \<open>a\<close>; \<open>pad\<close> is what is left in the buffer
  of the socket.\<close>

definition datagram :: "rpc_lib \<Rightarrow> bytes \<Rightarrow> message \<Rightarrow> socket_addr \<Rightarrow> recv_poll" where
  "datagram x pad m a = RecvDone (rl_encode x m @ pad) (Inr (length (rl_encode x m), a))"

text \<open>A poll in which this datagram arrives and the socket takes nothing.\<close>

definition arrival :: "rpc_lib \<Rightarrow> bytes \<Rightarrow> message \<Rightarrow> socket_addr \<Rightarrow> poll_env \<Rightarrow> poll_env" where
  "arrival x pad m a pe = pe\<lparr>pe_send := SendPending, pe_recv := datagram x pad m a\<rparr>"

lemma arrival_simps [simp]: "pe_send (arrival x pad m a pe) = SendPending" "pe_recv (arrival x pad m a pe) = datagram x pad m a"
  by (simp_all add: arrival_def)

text \<open>The messages that the node has yet to send, in their order.\<close>

definition outbox :: "'u io_handler \<Rightarrow> 'u message_event list" where
  "outbox io = (case io_pending_flush io of Some ev \<Rightarrow> [ev] | None \<Rightarrow> []) @ io_pending_send io"

lemma outbox_simps [simp]:
  "outbox (send_message ev io) = outbox io @ [ev]" "outbox (io\<lparr>io_socket := s\<rparr>) = outbox io"
  "outbox (io\<lparr>io_pending_recv := w\<rparr>) = outbox io" "outbox (io\<lparr>io_next_req_id := i\<rparr>) = outbox io"
  by (simp_all add: outbox_def send_message_def)

text \<open>What a round that does not send leaves alone.\<close>

definition same_io :: "'u io_handler \<Rightarrow> 'u io_handler \<Rightarrow> bool" where
  "same_io io io' \<longleftrightarrow>
     outbox io' = outbox io \<and> io_pending_recv io' = io_pending_recv io \<and> io_id io' = io_id io \<and> io_secrets io' = io_secrets io"

lemma start_send_same:
  assumes "start_send_next x io = (Inr (), io')"
  shows "same_io io io'"
  using assms by (auto simp: start_send_next_def same_io_def outbox_def Let_def split: option.splits list.splits prod.splits sum.splits)

lemma io_read_receives:
  assumes ok: "io_ok x io" and law: "wire_law x" "msg_type m \<in> {1, 2, 3}" and pe: "pe_recv pe = datagram x pad m a"
  shows "\<exists>u. io_ok x (io\<lparr>io_socket := u\<rparr>) \<and>
    (\<forall>ev io2. io_on_message x m a (io\<lparr>io_socket := u\<rparr>) = (Some ev, io2) \<longrightarrow> io_read x pe io = Inr (Ready ev, io2))"
proof -
  have "rl_decode x (rl_encode x m) = Some m" using law by (auto simp: wire_law_def)
  then have rcv: "received (codec_decode (rl_decode x)) (datagram x pad m a) = Some (Inr (m, a))"
    by (simp add: datagram_def codec_decode_def)
  have udp: "udp_ok (io_socket io)" "recv_contract (datagram x pad m a)" using ok by (simp_all add: io_ok_def datagram_def)
  obtain u where "udp_poll_next (codec_decode (rl_decode x)) (datagram x pad m a) (io_socket io) =
      Inr (case received (codec_decode (rl_decode x)) (datagram x pad m a) of None \<Rightarrow> Pending | Some out \<Rightarrow> Ready (Some out), u)"
    "udp_ok u" "udp_outgoing u = udp_outgoing (io_socket io)"
    using udp_poll_next_ok [OF udp] by metis
  note u = this [unfolded rcv option.case]
  show ?thesis using ok pe u by (intro exI [of _ u]) (simp add: io_read_def io_ok_def)
qed

lemma io_poll_receives:
  assumes ok: "io_ok x io" and law: "wire_law x" "msg_type m \<in> {1, 2, 3}"
    and pe: "pe_send pe = SendPending" "pe_recv pe = datagram x pad m a"
  shows "\<exists>io1. io_ok x io1 \<and> same_io io io1 \<and>
    (\<forall>ev io2. io_on_message x m a io1 = (Some ev, io2) \<longrightarrow> io_poll_next x pe io = Inr (Ready ev, io2))"
proof -
  obtain io1 where io1: "start_send_next x io = (Inr (), io1)" "io_ok x io1" using start_send_next_ok [OF ok] by metis
  have udp: "udp_ok (io_socket io1)" using io1(2) by (simp add: io_ok_def)
  have "\<exists>u. io_ok x (io1\<lparr>io_socket := u\<rparr>) \<and> io_poll_next x pe io = io_read x pe (io1\<lparr>io_socket := u\<rparr>)"
  proof (cases "io_pending_flush io1")
    case None
    then show ?thesis using io1 by (intro exI [of _ "io_socket io1"]) (simp add: io_poll_next_def)
  next
    case (Some ev)
    then have "\<not> uf_flushed (io_socket io1)" using udp_outgoing_flushed [OF udp] io1(2) by (auto simp: io_ok_def)
    then obtain u where "udp_poll_flush SendPending (io_socket io1) = Inr (Pending, u)" "udp_ok u" "udp_outgoing u = udp_outgoing (io_socket io1)"
      using udp_poll_flush_ok [OF udp, of SendPending] by metis
    then show ?thesis using io1 Some pe(1) by (intro exI [of _ u]) (simp add: io_poll_next_def udp_poll_ready_def io_ok_def)
  qed
  then obtain u where u: "io_ok x (io1\<lparr>io_socket := u\<rparr>)" "io_poll_next x pe io = io_read x pe (io1\<lparr>io_socket := u\<rparr>)" by blast
  obtain u' where "io_ok x (io1\<lparr>io_socket := u'\<rparr>)"
    "\<forall>ev io2. io_on_message x m a (io1\<lparr>io_socket := u'\<rparr>) = (Some ev, io2) \<longrightarrow> io_read x pe (io1\<lparr>io_socket := u\<rparr>) = Inr (Ready ev, io2)"
    using io_read_receives [OF u(1) law pe(2)] by auto
  then show ?thesis using u(2) start_send_same [OF io1(1)] by (intro exI [of _ "io1\<lparr>io_socket := u'\<rparr>"]) (simp add: same_io_def)
qed

section \<open>The request\<close>

definition query_message :: "bytes option \<Rightarrow> u64 \<Rightarrow> string \<Rightarrow> id_bytes \<Rightarrow> bytes option \<Rightarrow> socket_addr \<Rightarrow> message" where
  "query_message sender rid s target val b =
     \<lparr>msg_version = Some VERSION, msg_type = type_id TQuery, msg_rid = rid, msg_to = Some (encode_addr b),
      msg_id = sender, msg_target = Some target, msg_closer_nodes = None, msg_roundtrip_token = None,
      msg_command = Some s, msg_error = None, msg_value = val\<rparr>"

text \<open>A query event of the pool puts one request with a new id into the outbox.\<close>

lemma request_queued:
  "\<exists>d'. inject_query_event x e i (EvQuery (peer_from b) (UnknownCmd s) target val) d = Inr d' \<and>
     outbox (rd_io d') = outbox (rd_io d) @
       [MQuery (query_message (io_msg_id (rd_io d)) (io_next_req_id (rd_io d)) s target val b) (peer_from b) i] \<and>
     d' = d\<lparr>rd_io := rd_io d'\<rparr>"
  by (simp add: io_query_def io_request_def next_req_id_def query_message_def outbox_def encode_peer_def peer_from_def Let_def)

text \<open>The socket takes the only message; the node waits for its response from then on.\<close>

lemma request_sent:
  assumes ok: "rpc_ok x now n d" and box: "outbox (rd_io d) = [MQuery m p i]" and pe: "pe_send pe = SendDone sent"
  shows "\<exists>d'. io_round x pe e d = Inr d' \<and> rpc_ok x now n d' \<and> outbox (rd_io d') = [] \<and> d' = d\<lparr>rd_io := rd_io d'\<rparr> \<and>
    io_pending_recv (rd_io d') = hm_insert (msg_rid m)
      \<lparr>rq_message = m, rq_peer = p, rq_timestamp = pe_sent_at pe, rq_user_data = i\<rparr> (io_pending_recv (rd_io d)) \<and>
    (\<exists>ev io. io_poll_next x pe (rd_io d) = Inr (Ready ev, io))"
proof -
  have io_ok: "io_ok x (rd_io d)" using ok by (simp add: rpc_ok_def)
  obtain io1 where io1: "start_send_next x (rd_io d) = (Inr (), io1)" "io_ok x io1" using start_send_next_ok [OF io_ok] by metis
  note same = start_send_same [OF io1(1)]
  have fl: "io_pending_flush io1 = Some (MQuery m p i)" "io_pending_send io1 = []"
    using io1(1) box by (auto simp: start_send_next_def outbox_def Let_def split: option.splits list.splits prod.splits sum.splits)
  have udp: "udp_ok (io_socket io1)" "\<not> uf_flushed (io_socket io1)"
    using udp_outgoing_flushed [of "io_socket io1"] io1(2) fl(1) by (auto simp: io_ok_def)
  obtain r u where u: "udp_poll_flush (SendDone sent) (io_socket io1) = Inr (r, u)" "udp_ok u" "r \<noteq> Pending" "udp_outgoing u = None"
    using udp_poll_flush_ok [OF udp(1), of "SendDone sent"] by (metis send_poll.distinct(1))
  let ?io = "io1\<lparr>io_socket := u, io_pending_flush := None, io_pending_recv := hm_insert (msg_rid m)
      \<lparr>rq_message = m, rq_peer = p, rq_timestamp = pe_sent_at pe, rq_user_data = i\<rparr> (io_pending_recv io1)\<rparr>"
  have eq: "io_poll_next x pe (rd_io d) = Inr (Ready (OutRequest (msg_rid m)), ?io)"
    using io1(1) fl u pe by (simp add: io_poll_next_def udp_poll_ready_def)
  have "io_ok x ?io" using io1(2) u by (simp add: io_ok_def)
  then have "rpc_ok x now n (d\<lparr>rd_io := ?io\<rparr>)" by (rule rpc_ok_io [OF ok])
  then show ?thesis using eq same fl by (simp add: io_round_def outbox_def same_io_def)
qed

text \<open>A command starts a query in the pool and sends nothing yet.\<close>

lemma run_command_starts:
  assumes "run_command x e cmd target val ty d = Inr (i, d')"
  shows "\<exists>q. pool_get (rd_queries d') i = Some q \<and> qs_ty q = ty \<and> qs_cmd q = cmd \<and> rd_io d' = rd_io d \<and>
    rd_queued_events d' = rd_queued_events d \<and> rd_commands d' = rd_commands d \<and> rd_bootstrap_nodes d' = rd_bootstrap_nodes d \<and>
    qp_config (rd_queries d') = qp_config (rd_queries d)"
  using assms by (auto simp: run_command_def pool_add_stream_def pool_next_query_id_def pool_get_def qs_bootstrap_def Let_def elim!: res_bind_InrE)

section \<open>The answer\<close>

text \<open>A request for a registered command is handed on, after the sender is added to the table.\<close>

lemma on_request_command:
  assumes ok: "rpc_ok x now n d" and sha: "sha_32 x" and m: "sender_ok (msg_id m)" "get_command m = Some (UnknownCmd s)"
    "msg_target m = Some target" "length target = 32" and s: "s \<in> rd_commands d"
  shows "\<exists>d' evs. on_request x e m p ty d = Inr d' \<and> rpc_ok x now n d' \<and> rd_io d' = rd_io d \<and>
    set evs \<subseteq> {RoutingUpdated p None} \<and> rd_queued_events d' = rd_queued_events d @ evs @
      [RequestResult (Inr \<lparr>cq_rid = msg_rid m, cq_ty = ty, cq_command = s, cq_peer = p, cq_target = target, cq_value = msg_value m\<rparr>)]"
proof -
  obtain d' where d': "on_request x e m p ty d = Inr d'" "rpc_ok x now n d'" using on_request_ok [OF ok sha] by blast
  obtain d1 where d1: "(case msg_id m of Some i \<Rightarrow> add_node x e 0 i p None (msg_decode_to_peer m) d | None \<Rightarrow> Inr d) = Inr d1"
    "d' = push_event (RequestResult (Inr \<lparr>cq_rid = msg_rid m, cq_ty = ty, cq_command = s, cq_peer = p, cq_target = target, cq_value = msg_value m\<rparr>)) d1
       \<or> s \<notin> rd_commands d1"
    using d'(1) m by (auto simp: on_request_def on_command_req_def valid_id_bytes_def valid_target_id_bytes_def sender_ok_def
        split: option.splits elim!: res_bind_InrE)
  then have "rd_io d1 = rd_io d" "rd_commands d1 = rd_commands d" "rd_queued_events d1 \<in> {rd_queued_events d, rd_queued_events d @ [RoutingUpdated p None]}"
    using add_node_frame by (fastforce split: option.splits)+
  moreover from this(3) obtain evs where "rd_queued_events d1 = rd_queued_events d @ evs" "set evs \<subseteq> {RoutingUpdated p None}" by force
  ultimately show ?thesis using d' d1(2) s by (intro exI [of _ d'] exI [of _ evs]) (auto simp: push_event_def)
qed

lemma request_arrives:
  assumes ok: "rpc_ok x now n d" and lib: "sha_32 x" "wire_law x"
    and m: "m = query_message sender rid s target val b" "sender_ok sender" "command_from s = UnknownCmd s" "length target = 32"
    and s: "s \<in> rd_commands d"
  shows "\<exists>d' evs. io_round x (arrival x pad m a pe) e d = Inr d' \<and> rpc_ok x now n d' \<and> same_io (rd_io d) (rd_io d') \<and>
    set evs \<subseteq> {RoutingUpdated (peer_from a) None} \<and> rd_queued_events d' = rd_queued_events d @ evs @
      [RequestResult (Inr \<lparr>cq_rid = rid, cq_ty = TQuery, cq_command = s, cq_peer = peer_from a, cq_target = target, cq_value = val\<rparr>)]"
proof -
  have "io_ok x (rd_io d)" using ok by (simp add: rpc_ok_def)
  moreover have "msg_type m \<in> {1, 2, 3}" using m(1) by (simp add: query_message_def)
  ultimately obtain io1 where io1: "io_ok x io1" "same_io (rd_io d) io1"
    "\<And>ev io2. io_on_message x m a io1 = (Some ev, io2) \<Longrightarrow> io_poll_next x (arrival x pad m a pe) (rd_io d) = Inr (Ready ev, io2)"
    using io_poll_receives [OF _ lib(2) _ arrival_simps] by blast
  have "io_on_message x m a io1 = (Some (InRequest m (peer_from a) TQuery), io1)"
    using m(1,2) by (auto simp: io_on_message_def query_message_def get_type_def sender_ok_def split: option.splits)
  then have eq: "io_round x (arrival x pad m a pe) e d = on_request x e m (peer_from a) TQuery (d\<lparr>rd_io := io1\<rparr>)" using io1(3) by (simp add: io_round_def)
  have "get_command m = Some (UnknownCmd s)" "msg_target m = Some target" "sender_ok (msg_id m)" using m by (simp_all add: query_message_def get_command_def)
  then show ?thesis
    using eq on_request_command [OF rpc_ok_io [OF ok io1(1)] lib(1), where m = m and s = s and target = target and e = e and p = "peer_from a" and ty = TQuery] m(1,4) s io1(2)
    by (fastforce simp: query_message_def)
qed

text \<open>The node puts its answer to the command into the outbox.\<close>

lemma reply_queued:
  assumes ok: "rpc_ok x now n d"
  shows "\<exists>d' r. reply_command x e (response_from q) d = Inr d' \<and> rpc_ok x now n d' \<and>
    outbox (rd_io d') = outbox (rd_io d) @ [MResponse r (cq_peer q)] \<and>
    msg_type r = type_id TResponse \<and> msg_version r = Some VERSION \<and> msg_rid r = cq_rid q \<and> msg_value r = cq_value q \<and>
    msg_error r = None \<and> msg_id r = io_msg_id (rd_io d)"
proof -
  obtain d' where d': "reply_command x e (response_from q) d = Inr d'" "rpc_ok x now n d'" using rpc_reply_ok [OF ok] by (fastforce simp: reply_command_def)
  then show ?thesis
    by (auto simp: reply_command_def rpc_reply_def closer_nodes_def response_from_def io_reply_def io_msg_id_def Let_def elim!: res_bind_InrE)
qed

lemma inject_response_answer:
  assumes "qs_inject_response sha r p q = Inr (resp, q')" and "msg_error r = None" and "qtype_is_query (qs_ty q)"
  shows "\<exists>rs. resp = Some rs \<and> rs_query rs = qs_id q \<and> rs_value rs = msg_value r \<and> rs_peer rs = peer_addr p"
proof -
  have "\<not> msg_is_error r" using assms(2) by (simp add: msg_is_error_def)
  then show ?thesis using assms(1,3)
    apply (clarsimp simp: qs_inject_response_def res_bind_Inr_iff Let_def)
    subgoal for k s b it nodes by (cases it) (auto simp: valid_id_bytes_def)
    done
qed

text \<open>The answer is matched with the request that waits and reaches the query that asked.\<close>

lemma response_arrives:
  assumes ok: "rpc_ok x now n d" "n + 1 < 2 ^ 32" and lib: "sha_32 x" "wire_law x"
    and r: "msg_type r = type_id TResponse" "msg_version r = Some VERSION" "sender_ok (msg_id r)" "msg_error r = None"
    and req: "hm_get (io_pending_recv (rd_io d)) (msg_rid r) = Some req" "\<not> msg_is_ping (rq_message req)"
    and query: "pool_get (rd_queries d) (rq_user_data req) = Some q" "qtype_is_query (qs_ty q)"
  shows "\<exists>d' resp. io_round x (arrival x pad r b pe) e d = Inr d' \<and> rpc_ok x now (n + 1) d' \<and>
    rd_queued_events d' = rd_queued_events d @ [ResponseResult (Inr (ResponseOk resp))] \<and>
    rs_query resp = rq_user_data req \<and> rs_value resp = msg_value r \<and> rs_peer resp = b \<and>
    hm_get (io_pending_recv (rd_io d')) (msg_rid r) = None \<and>
    (\<exists>ev io. io_poll_next x (arrival x pad r b pe) (rd_io d) = Inr (Ready ev, io))"
proof -
  have "io_ok x (rd_io d)" using ok(1) by (simp add: rpc_ok_def)
  moreover have "msg_type r \<in> {1, 2, 3}" using r(1) by simp
  ultimately obtain io1 where io1: "io_ok x io1" "same_io (rd_io d) io1"
    "\<And>ev io2. io_on_message x r b io1 = (Some ev, io2) \<Longrightarrow> io_poll_next x (arrival x pad r b pe) (rd_io d) = Inr (Ready ev, io2)"
    using io_poll_receives [OF _ lib(2) _ arrival_simps] by blast
  let ?io2 = "io1\<lparr>io_pending_recv := hm_remove (msg_rid r) (io_pending_recv io1)\<rparr>"
  have msg: "io_on_message x r b io1 = (Some (InResponse (rq_message req) r (peer_from b) (rq_user_data req)), ?io2)"
    using r req(1) io1(2) by (auto simp: io_on_message_def io_on_response_def get_type_def sender_ok_def same_io_def split: option.splits)
  have io2: "io_ok x ?io2" using io_on_message_ok [OF io1(1) msg] by simp
  note d1 = rpc_ok_io [OF ok(1) io2]
  have eq: "io_round x (arrival x pad r b pe) e d = rpc_on_response x e (rq_message req) r (peer_from b) (rq_user_data req) (d\<lparr>rd_io := ?io2\<rparr>)"
    using io1(3) [OF msg] by (simp add: io_round_def)
  obtain d' where d': "rpc_on_response x e (rq_message req) r (peer_from b) (rq_user_data req) (d\<lparr>rd_io := ?io2\<rparr>) = Inr d'" "rpc_ok x now (n + 1) d'"
    using rpc_on_response_ok [OF d1 lib(1) ok(2)] by blast
  then obtain resp q' where q': "qs_inject_response (rl_sha x) r (peer_from b) q = Inr (resp, q')"
    "d' = (case resp of Some rsp \<Rightarrow> push_event (ResponseResult (Inr (ResponseOk rsp))) (put_query (rq_user_data req) q' (d\<lparr>rd_io := ?io2\<rparr>))
           | None \<Rightarrow> put_query (rq_user_data req) q' (d\<lparr>rd_io := ?io2\<rparr>))"
    using req(2) query(1) by (auto simp: rpc_on_response_def Let_def elim!: res_bind_InrE)
  have "qs_id q = rq_user_data req" using ok(1) query(1) by (auto simp: rpc_ok_def pool_inv_def pool_ok_def query_good_def pool_get_def)
  moreover obtain rs where "resp = Some rs" "rs_query rs = qs_id q" "rs_value rs = msg_value r" "rs_peer rs = b"
    using inject_response_answer [OF q'(1) r(4) query(2)] by (auto simp: peer_from_def)
  ultimately show ?thesis using eq d' q'(2) io1(3) [OF msg] by (intro exI [of _ d'] exI [of _ rs]) (simp add: push_event_def put_query_def)
qed

section \<open>A codec for the witnesses\<close>

text \<open>A codec of records of optional byte strings: the length in unary, then the bytes.\<close>

definition opt_enc :: "bytes option \<Rightarrow> bytes" where
  "opt_enc v = (case v of Some b \<Rightarrow> replicate (length b) 1 @ 0 # b | None \<Rightarrow> [2])"

definition opt_dec :: "bytes \<Rightarrow> bytes option \<times> bytes" where
  "opt_dec bs =
     (let n = length (takeWhile (\<lambda>w. w = 1) bs); r = drop (Suc n) bs
      in if bs ! 0 = 2 then (None, drop 1 bs) else (Some (take n r), drop n r))"

lemma opt_dec_enc [simp]: "opt_dec (opt_enc v @ r) = (v, r)" "opt_dec (opt_enc v) = (v, [])"
proof -
  have "takeWhile (\<lambda>w. w = 1) (replicate n (1 :: u8) @ 0 # b) = replicate n 1" for n b by (induction n) auto
  moreover have "(replicate n (1 :: u8) @ 0 # b) ! 0 \<noteq> 2" for n b by (cases n) auto
  ultimately show 1: "opt_dec (opt_enc v @ r) = (v, r)" for r
    by (cases v) (simp_all add: opt_dec_def opt_enc_def Let_def)
  show "opt_dec (opt_enc v) = (v, [])" using 1 [of "[]"] by simp
qed

definition num_enc :: "'a::len word option \<Rightarrow> bytes" where
  "num_enc v = opt_enc (map_option (\<lambda>n. replicate (unat n) 0) v)"

definition num_dec :: "bytes option \<Rightarrow> 'a::len word option" where
  "num_dec v = map_option (\<lambda>b. of_nat (length b)) v"

lemma num_dec_enc [simp]: "num_dec (map_option (\<lambda>n. replicate (unat n) (0 :: u8)) v) = v"
  by (cases v) (simp_all add: num_dec_def)

definition text_bytes :: "string \<Rightarrow> bytes" where
  "text_bytes s = map (\<lambda>c. of_nat (of_char c)) s"

definition bytes_text :: "bytes \<Rightarrow> string" where
  "bytes_text b = map (\<lambda>w. char_of (unat w)) b"

lemma bytes_text_bytes [simp]: "bytes_text (text_bytes s) = s"
proof -
  have "unat (of_nat (of_char c) :: u8) = of_char c" for c :: char
    using nat_of_char_less_256 [of c] by (simp add: unat_of_nat take_bit_eq_mod)
  then show ?thesis by (induction s) (simp_all add: bytes_text_def text_bytes_def)
qed

definition sample_wire :: rpc_lib where
  "sample_wire = sample_rpc\<lparr>
     rl_encode := (\<lambda>m. num_enc (msg_version m) @ opt_enc (Some (replicate (nat (msg_type m)) 0)) @ num_enc (Some (msg_rid m)) @
       opt_enc (msg_to m) @ opt_enc (msg_id m) @ opt_enc (msg_target m) @ opt_enc (msg_closer_nodes m) @
       opt_enc (msg_roundtrip_token m) @ opt_enc (map_option text_bytes (msg_command m)) @
       opt_enc (map_option text_bytes (msg_error m)) @ opt_enc (msg_value m)),
     rl_decode := (\<lambda>b0.
       let (ver, b1) = opt_dec b0; (ty, b2) = opt_dec b1; (rid, b3) = opt_dec b2; (to, b4) = opt_dec b3; (i, b5) = opt_dec b4;
           (target, b6) = opt_dec b5; (closer, b7) = opt_dec b6; (tok, b8) = opt_dec b7; (cmd, b9) = opt_dec b8;
           (err, b10) = opt_dec b9; (val, _) = opt_dec b10
       in Some \<lparr>msg_version = num_dec ver, msg_type = int (length (the ty)), msg_rid = the (num_dec rid), msg_to = to, msg_id = i,
                msg_target = target, msg_closer_nodes = closer, msg_roundtrip_token = tok, msg_command = map_option bytes_text cmd,
                msg_error = map_option bytes_text err, msg_value = val\<rparr>)\<rparr>"

lemma sample_wire_laws: "sha_32 sample_wire" "wire_law sample_wire"
proof -
  have txt_map: "map_option bytes_text (map_option text_bytes v) = v" for v by (cases v) simp_all
  show "wire_law sample_wire"
    unfolding wire_law_def
  proof (intro allI impI)
    fix m :: message
    assume ty: "msg_type m \<in> {1, 2, 3}"
    have "num_dec (Some (replicate (unat (msg_rid m)) 0)) = Some (msg_rid m)" "0 \<le> msg_type m"
      using num_dec_enc [of "Some (msg_rid m)"] ty by auto
    then show "rl_decode sample_wire (rl_encode sample_wire m) = Some m"
      using ty by (simp add: sample_wire_def num_enc_def txt_map del: option.map_comp)
  qed
qed (use sample_rpc_sha in \<open>simp add: sample_wire_def sha_32_def\<close>)

section \<open>Properties\<close>

text \<open>C9. A command and its answer cross the wire.  A node whose query \<open>i\<close> asks another node, and that has nothing
  else to send, encodes one request with a fresh id and, once the socket has taken it, waits under
  this id.  The other node, when the datagram arrives, hands on the command with its target,
  value and sender (after at most an update of its routing table), and whatever value \<open>v\<close> it answers, the
  answer is the last message in its outbox.  When that datagram arrives, the first node returns the value
  \<open>v\<close> for the query \<open>i\<close>, with the address of the sender, and no longer waits under the id.\<close>

theorem command_exchange:
  assumes lib: "sha_32 x" "wire_law x"
    and A: "rpc_ok x now n dA" "n + 1 < 2 ^ 32" "outbox (rd_io dA) = []" "sender_ok (io_msg_id (rd_io dA))"
    and B: "rpc_ok x now' n' dB" "sender_ok (io_msg_id (rd_io dB))" "s \<in> rd_commands dB"
    and query: "pool_get (rd_queries dA) i = Some qa" "qtype_is_query (qs_ty qa)" "command_from s = UnknownCmd s" "length target = 32"
    and sent: "pe_send pe = SendDone sent"
  shows "\<exists>m dA1 dA2 dB1 evs q dB2 r dA3 resp.
    inject_query_event x e i (EvQuery (peer_from b) (UnknownCmd s) target val) dA = Inr dA1 \<and>
    outbox (rd_io dA1) = [MQuery m (peer_from b) i] \<and> msg_rid m = io_next_req_id (rd_io dA) \<and>
    io_round x pe e1 dA1 = Inr dA2 \<and> outbox (rd_io dA2) = [] \<and>
    io_round x (arrival x pad2 m a pe2) e2 dB = Inr dB1 \<and>
    rd_queued_events dB1 = rd_queued_events dB @ evs @ [RequestResult (Inr q)] \<and> set evs \<subseteq> {RoutingUpdated (peer_from a) None} \<and>
    cq_ty q = TQuery \<and> cq_command q = s \<and> cq_peer q = peer_from a \<and> cq_target q = target \<and> cq_value q = val \<and>
    reply_command x e3 (response_from (q\<lparr>cq_value := v\<rparr>)) dB1 = Inr dB2 \<and>
    outbox (rd_io dB2) = outbox (rd_io dB) @ [MResponse r (peer_from a)] \<and>
    io_round x (arrival x pad3 r b pe3) e4 dA2 = Inr dA3 \<and>
    rd_queued_events dA3 = rd_queued_events dA @ [ResponseResult (Inr (ResponseOk resp))] \<and>
    rs_query resp = i \<and> rs_value resp = v \<and> rs_peer resp = b \<and> hm_get (io_pending_recv (rd_io dA3)) (msg_rid m) = None"
proof -
  let ?m = "query_message (io_msg_id (rd_io dA)) (io_next_req_id (rd_io dA)) s target val b"
  obtain dA1 where A1: "inject_query_event x e i (EvQuery (peer_from b) (UnknownCmd s) target val) dA = Inr dA1"
    "outbox (rd_io dA1) = [MQuery ?m (peer_from b) i]" "dA1 = dA\<lparr>rd_io := rd_io dA1\<rparr>"
    using request_queued [of x e i b s target val dA] A(3) by auto
  then have okA1: "rpc_ok x now n dA1" using inject_query_event_ok [OF A(1) lib(1)] by (metis sum.inject(2))
  obtain dA2 where A2: "io_round x pe e1 dA1 = Inr dA2" "rpc_ok x now n dA2" "outbox (rd_io dA2) = []" "dA2 = dA1\<lparr>rd_io := rd_io dA2\<rparr>"
    "io_pending_recv (rd_io dA2) = hm_insert (msg_rid ?m)
      \<lparr>rq_message = ?m, rq_peer = peer_from b, rq_timestamp = pe_sent_at pe, rq_user_data = i\<rparr> (io_pending_recv (rd_io dA1))"
    using request_sent [OF okA1 A1(2) sent] by blast
  let ?q = "\<lparr>cq_rid = io_next_req_id (rd_io dA), cq_ty = TQuery, cq_command = s, cq_peer = peer_from a, cq_target = target, cq_value = val\<rparr>"
  obtain dB1 evs where B1: "io_round x (arrival x pad2 ?m a pe2) e2 dB = Inr dB1" "rpc_ok x now' n' dB1"
    "same_io (rd_io dB) (rd_io dB1)" "set evs \<subseteq> {RoutingUpdated (peer_from a) None}"
    "rd_queued_events dB1 = rd_queued_events dB @ evs @ [RequestResult (Inr ?q)]"
    using request_arrives [OF B(1) lib refl A(4) query(3,4) B(3), of pad2 "io_next_req_id (rd_io dA)" val b a pe2 e2] by (elim exE conjE)
  obtain dB2 r where B2: "reply_command x e3 (response_from (?q\<lparr>cq_value := v\<rparr>)) dB1 = Inr dB2"
    "outbox (rd_io dB2) = outbox (rd_io dB1) @ [MResponse r (peer_from a)]" "msg_type r = type_id TResponse" "msg_version r = Some VERSION"
    "msg_rid r = io_next_req_id (rd_io dA)" "msg_value r = v" "msg_error r = None" "msg_id r = io_msg_id (rd_io dB1)"
    using reply_queued [OF B1(2), of e3 "?q\<lparr>cq_value := v\<rparr>"] by auto
  have r_id: "sender_ok (msg_id r)" using B(2) B1(3) B2(8) by (simp add: same_io_def io_msg_id_def)
  have recv: "hm_get (io_pending_recv (rd_io dA2)) (msg_rid r) =
      Some \<lparr>rq_message = ?m, rq_peer = peer_from b, rq_timestamp = pe_sent_at pe, rq_user_data = i\<rparr>"
    using A2(5) B2(5) by (simp add: query_message_def)
  have "\<not> msg_is_ping ?m" using query(3) by (auto simp: msg_is_ping_def cmd_eq_def query_message_def command_from_def)
  moreover have "pool_get (rd_queries dA2) i = Some qa" "rd_queued_events dA2 = rd_queued_events dA"
    using query(1) arg_cong [OF A1(3), of rd_queries] arg_cong [OF A1(3), of rd_queued_events]
      arg_cong [OF A2(4), of rd_queries] arg_cong [OF A2(4), of rd_queued_events] by simp_all
  ultimately obtain dA3 resp where "io_round x (arrival x pad3 r b pe3) e4 dA2 = Inr dA3"
    "rd_queued_events dA3 = rd_queued_events dA @ [ResponseResult (Inr (ResponseOk resp))]" "rs_query resp = i" "rs_value resp = v" "rs_peer resp = b"
    "hm_get (io_pending_recv (rd_io dA3)) (msg_rid r) = None"
    using response_arrives [OF A2(2) A(2) lib B2(3,4) r_id B2(7) recv, of qa pad3 b pe3 e4] query(2) B2(6) by auto
  moreover have "msg_rid ?m = msg_rid r" using B2(5) by (simp add: query_message_def)
  moreover have "outbox (rd_io dB2) = outbox (rd_io dB) @ [MResponse r (peer_from a)]" using B1(3) B2(2) by (simp add: same_io_def)
  ultimately show ?thesis using A1(1,2) A2(1,3) B1(1,4,5) B2(1,5)
    by (intro exI [of _ ?m] exI [of _ dA1] exI [of _ dA2] exI [of _ dB1] exI [of _ evs] exI [of _ ?q] exI [of _ dB2] exI [of _ r]
        exI [of _ dA3] exI [of _ resp]) simp
qed

theorem command_exchange_witness:
  "\<exists>d0 i dA m dA1 dA2 dB1 q dB2 r dA3 resp.
     with_config sample_wire sample_env [1] [2] 5 (replicate 32 3) 0 (register_commands [''get''] dht_config_default) = Inr d0 \<and>
     rpc_query sample_wire sample_env (UnknownCmd ''get'') (id_key sample_wire (replicate 32 9)) None d0 = Inr (i, dA) \<and>
     inject_query_event sample_wire sample_env i (EvQuery (peer_from (SockV4 (10, 0, 0, 2) 53)) (UnknownCmd ''get'') (replicate 32 9) None) dA = Inr dA1 \<and>
     io_round sample_wire (sample_poll (SendDone (Inr 1)) RecvPending) sample_env dA1 = Inr dA2 \<and>
     io_round sample_wire (arrival sample_wire [] m (SockV4 (10, 0, 0, 1) 53) (sample_poll SendPending RecvPending)) sample_env d0 = Inr dB1 \<and>
     reply_command sample_wire sample_env (response_from (q\<lparr>cq_value := Some [42]\<rparr>)) dB1 = Inr dB2 \<and>
     io_round sample_wire (arrival sample_wire [] r (SockV4 (10, 0, 0, 2) 53) (sample_poll SendPending RecvPending)) sample_env dA2 = Inr dA3 \<and>
     last (rd_queued_events dA3) = ResponseResult (Inr (ResponseOk resp)) \<and> rs_query resp = i \<and> rs_value resp = Some [42]"
proof -
  let ?c = "register_commands [''get''] dht_config_default" and ?t = "replicate 32 9 :: bytes"
  obtain d0 where d0: "with_config sample_wire sample_env [1] [2] 5 (replicate 32 3) 0 ?c = Inr d0" "rpc_ok sample_wire 0 0 d0"
    using with_config_ok [OF sample_wire_laws(1)] by blast
  obtain i dA where dA: "rpc_query sample_wire sample_env (UnknownCmd ''get'') (id_key sample_wire ?t) None d0 = Inr (i, dA)" "rpc_ok sample_wire 0 0 dA"
    using run_command_ok [OF d0(2)] unfolding rpc_query_def by blast
  obtain q where q: "pool_get (rd_queries dA) i = Some q" "qs_ty q = QTQuery" "rd_io dA = rd_io d0"
    using run_command_starts dA(1) unfolding rpc_query_def by blast
  have io: "outbox (rd_io d0) = []" "sender_ok (io_msg_id (rd_io d0))" "''get'' \<in> rd_commands d0"
    using d0(1) by (auto simp: with_config_def rpc_bootstrap_def push_event_def dht_config_default_def register_commands_def Let_def io_new_def outbox_def
        sender_ok_def io_msg_id_def id_key_def key_new_def)
  have "qtype_is_query (qs_ty q)" "command_from ''get'' = UnknownCmd ''get''" "length ?t = 32" "(0 :: nat) + 1 < 2 ^ 32"
    by (simp_all add: q(2) qtype_is_query_def command_from_def)
  note ex = command_exchange [OF sample_wire_laws dA(2) this(4) _ _ d0(2) io(2,3) q(1) this(1,2,3), unfolded q(3), OF io(1,2),
      of "sample_poll (SendDone (Inr 1)) RecvPending" "Inr 1" sample_env "SockV4 (10, 0, 0, 2) 53" None sample_env "[]" "SockV4 (10, 0, 0, 1) 53"
        "sample_poll SendPending RecvPending" sample_env sample_env "Some [42]" "[]" "sample_poll SendPending RecvPending" sample_env]
  have "pe_send (sample_poll (SendDone (Inr 1)) RecvPending) = SendDone (Inr 1)" by (simp add: sample_poll_def)
  note ex [OF this]
  then obtain m dA1 dA2 dB1 q dB2 r dA3 resp where
    "inject_query_event sample_wire sample_env i (EvQuery (peer_from (SockV4 (10, 0, 0, 2) 53)) (UnknownCmd ''get'') ?t None) dA = Inr dA1"
    "io_round sample_wire (sample_poll (SendDone (Inr 1)) RecvPending) sample_env dA1 = Inr dA2"
    "io_round sample_wire (arrival sample_wire [] m (SockV4 (10, 0, 0, 1) 53) (sample_poll SendPending RecvPending)) sample_env d0 = Inr dB1"
    "reply_command sample_wire sample_env (response_from (q\<lparr>cq_value := Some [42]\<rparr>)) dB1 = Inr dB2"
    "io_round sample_wire (arrival sample_wire [] r (SockV4 (10, 0, 0, 2) 53) (sample_poll SendPending RecvPending)) sample_env dA2 = Inr dA3"
    "rd_queued_events dA3 = rd_queued_events dA @ [ResponseResult (Inr (ResponseOk resp))]" "rs_query resp = i" "rs_value resp = Some [42]"
    by (elim exE conjE)
  moreover from this(6) have "last (rd_queued_events dA3) = ResponseResult (Inr (ResponseOk resp))" by simp
  ultimately show ?thesis using d0(1) dA(1)
    by (intro exI [of _ d0] exI [of _ i] exI [of _ dA] exI [of _ m] exI [of _ dA1] exI [of _ dA2] exI [of _ dB1] exI [of _ q] exI [of _ dB2]
        exI [of _ r] exI [of _ dA3] exI [of _ resp] conjI)
qed

end
