(* ===== verification/Peer_Cache.thy ===== *)
theory Peer_Cache
  imports Peers_Codec
begin

text \<open>
  Model of \<^verbatim>\<open>src/lru.rs\<close>: the cache of announced peers, a map from topics to address caches with
  a list of the topics in the order of their use, and each address cache again a map from
  addresses to expiration times with a list in the order of insertion.

  The invariant says that each map and its list have the same keys, without repetition, and
  that the counter is the number of stored addresses.  Under it no \<^verbatim>\<open>unwrap\<close>, index, assertion or
  counter subtraction of the file can fail, and the eviction loop, which is a partial function
  because it does not end for a capacity of zero, returns.
\<close>

section \<open>Data\<close>

type_synonym local_addr = "u8 \<times> u8 \<times> u8 \<times> u8"

datatype address = ARemote socket_addr | ALocal local_addr

datatype cache_key =
    KLocal (key_id: id_bytes) (key_prefix: "u8 \<times> u8")
  | KRemote (key_id: id_bytes)

record 'a cache_entry =
  ce_inner :: "('a, instant) hmap"
  ce_list :: "'a list"
  ce_expiration :: instant

datatype address_cache =
    CRemote "socket_addr cache_entry"
  | CLocal "local_addr cache_entry"

record peer_cache =
  pc_map :: "(cache_key, address_cache) hmap"
  pc_list :: "cache_key list"
  pc_capacity :: nat
  pc_cnt :: nat
  pc_age :: duration

text \<open>\<^verbatim>\<open>Ord for CacheKey\<close>; byte arrays compare lexicographically.\<close>

datatype ordering = OLess | OEqual | OGreater

fun bytes_cmp :: "bytes \<Rightarrow> bytes \<Rightarrow> ordering" where
  "bytes_cmp [] [] = OEqual"
| "bytes_cmp [] (_ # _) = OLess"
| "bytes_cmp (_ # _) [] = OGreater"
| "bytes_cmp (a # as) (b # bs) = (if a < b then OLess else if b < a then OGreater else bytes_cmp as bs)"

definition ordering_then :: "ordering \<Rightarrow> ordering \<Rightarrow> ordering" where
  "ordering_then a b = (if a = OEqual then b else a)"

fun cache_key_cmp :: "cache_key \<Rightarrow> cache_key \<Rightarrow> ordering" where
  "cache_key_cmp (KLocal id1 (p1, q1)) (KLocal id2 (p2, q2)) =
     ordering_then (bytes_cmp id1 id2) (bytes_cmp [p1, q1] [p2, q2])"
| "cache_key_cmp a b = bytes_cmp (key_id a) (key_id b)"

section \<open>Cache entries\<close>

definition ce_new :: "'a \<Rightarrow> instant \<Rightarrow> 'a cache_entry" where
  "ce_new v expiration =
     \<lparr>ce_inner = hm_insert v expiration [], ce_list = [v], ce_expiration = expiration\<rparr>"

definition ce_is_expired :: "instant \<Rightarrow> 'a cache_entry \<Rightarrow> bool" where
  "ce_is_expired now c \<longleftrightarrow> ce_expiration c < now"

fun ce_expire_loop ::
  "instant \<Rightarrow> 'a list \<Rightarrow> ('a, instant) hmap \<Rightarrow> 'a list \<Rightarrow> (('a, instant) hmap \<times> 'a list) res" where
  "ce_expire_loop now [] inner expired = Inr (inner, expired)"
| "ce_expire_loop now (k # ks) inner expired =
     res_bind (expect (hm_get inner k)) (\<lambda>e.
       if now \<le> e then Inr (inner, expired)
       else case hm_get inner k of
              Some _ \<Rightarrow> ce_expire_loop now ks (hm_remove k inner) (expired @ [k])
            | None \<Rightarrow> ce_expire_loop now ks inner expired)"

definition ce_remove_expired :: "instant \<Rightarrow> 'a cache_entry \<Rightarrow> ('a list \<times> 'a cache_entry) res" where
  "ce_remove_expired now c =
     res_bind (ce_expire_loop now (ce_list c) (ce_inner c) []) (\<lambda>(inner, expired).
       if length expired \<le> length (ce_list c)
       then Inr (expired, c\<lparr>ce_inner := inner, ce_list := drop (length expired) (ce_list c)\<rparr>)
       else Inl IndexOutOfBounds)"

definition ce_remove_lru :: "'a cache_entry \<Rightarrow> 'a option \<times> 'a cache_entry" where
  "ce_remove_lru c =
     (case ce_list c of
        k # ks \<Rightarrow> (Some k, c\<lparr>ce_list := ks, ce_inner := hm_remove k (ce_inner c)\<rparr>)
      | [] \<Rightarrow> (None, c))"

definition ce_remove :: "'a \<Rightarrow> 'a cache_entry \<Rightarrow> 'a option \<times> 'a cache_entry" where
  "ce_remove key c =
     (case hm_get (ce_inner c) key of
        None \<Rightarrow> (None, c)
      | Some _ \<Rightarrow>
          (Some key,
           c\<lparr>ce_inner := hm_remove key (ce_inner c),
             ce_list := (case position_of (\<lambda>l. l = key) (ce_list c) of
                           Some p \<Rightarrow> remove_at p (ce_list c)
                         | None \<Rightarrow> ce_list c)\<rparr>))"

definition ce_is_empty :: "'a cache_entry \<Rightarrow> bool" where
  "ce_is_empty c \<longleftrightarrow> ce_inner c = []"

definition ce_len :: "'a cache_entry \<Rightarrow> nat" where
  "ce_len c = length (ce_inner c)"

text \<open>\<^verbatim>\<open>PeerCache::update_key\<close>: moves a key to the back of the list.\<close>

definition update_key :: "'a \<Rightarrow> 'a list \<Rightarrow> 'a list" where
  "update_key key l =
     (case position_of (\<lambda>k. k = key) l of
        Some p \<Rightarrow> remove_at p l @ [l ! p]
      | None \<Rightarrow> l)"

text \<open>The branch of \<^verbatim>\<open>AddressCache::insert\<close> for an address of the kind of the cache.\<close>

definition ce_insert :: "'a \<Rightarrow> instant \<Rightarrow> 'a cache_entry \<Rightarrow> bool \<times> 'a cache_entry" where
  "ce_insert addr expiration c =
     (let present = (hm_get (ce_inner c) addr \<noteq> None)
      in (\<not> present,
          c\<lparr>ce_expiration := expiration,
            ce_list := (if present then update_key addr (ce_list c) else ce_list c @ [addr]),
            ce_inner := hm_insert addr expiration (ce_inner c)\<rparr>))"

section \<open>Address caches\<close>

fun ac_new :: "address \<Rightarrow> instant \<Rightarrow> address_cache" where
  "ac_new (ARemote a) expiration = CRemote (ce_new a expiration)"
| "ac_new (ALocal a) expiration = CLocal (ce_new a expiration)"

fun ac_is_expired :: "instant \<Rightarrow> address_cache \<Rightarrow> bool" where
  "ac_is_expired now (CRemote c) = ce_is_expired now c"
| "ac_is_expired now (CLocal c) = ce_is_expired now c"

fun ac_remove :: "address \<Rightarrow> address_cache \<Rightarrow> address option \<times> address_cache" where
  "ac_remove (ARemote a) (CRemote c) = (let (r, c') = ce_remove a c in (map_option ARemote r, CRemote c'))"
| "ac_remove (ALocal a) (CLocal c) = (let (r, c') = ce_remove a c in (map_option ALocal r, CLocal c'))"
| "ac_remove _ c = (None, c)"

fun ac_insert :: "address \<Rightarrow> instant \<Rightarrow> address_cache \<Rightarrow> bool \<times> address_cache" where
  "ac_insert (ARemote a) expiration (CRemote c) = (let (r, c') = ce_insert a expiration c in (r, CRemote c'))"
| "ac_insert (ALocal a) expiration (CLocal c) = (let (r, c') = ce_insert a expiration c in (r, CLocal c'))"
| "ac_insert _ expiration c = (False, c)"

fun ac_remove_lru :: "address_cache \<Rightarrow> bool \<times> address_cache" where
  "ac_remove_lru (CRemote c) = (let (r, c') = ce_remove_lru c in (r \<noteq> None, CRemote c'))"
| "ac_remove_lru (CLocal c) = (let (r, c') = ce_remove_lru c in (r \<noteq> None, CLocal c'))"

fun ac_is_empty :: "address_cache \<Rightarrow> bool" where
  "ac_is_empty (CRemote c) = ce_is_empty c"
| "ac_is_empty (CLocal c) = ce_is_empty c"

fun ac_set_expiration :: "instant \<Rightarrow> address_cache \<Rightarrow> address_cache" where
  "ac_set_expiration expiration (CRemote c) = CRemote (c\<lparr>ce_expiration := expiration\<rparr>)"
| "ac_set_expiration expiration (CLocal c) = CLocal (c\<lparr>ce_expiration := expiration\<rparr>)"

fun ac_len :: "address_cache \<Rightarrow> nat" where
  "ac_len (CRemote c) = ce_len c"
| "ac_len (CLocal c) = ce_len c"

fun ac_remove_expired :: "instant \<Rightarrow> address_cache \<Rightarrow> (nat \<times> address_cache) res" where
  "ac_remove_expired now (CRemote c) =
     res_bind (ce_remove_expired now c) (\<lambda>(vs, c'). Inr (length vs, CRemote c'))"
| "ac_remove_expired now (CLocal c) =
     res_bind (ce_remove_expired now c) (\<lambda>(vs, c'). Inr (length vs, CLocal c'))"

fun iter_locals :: "address_cache \<Rightarrow> local_addr list option" where
  "iter_locals (CLocal c) = Some (ce_list c)"
| "iter_locals (CRemote c) = None"

fun iter_remotes :: "address_cache \<Rightarrow> socket_addr list option" where
  "iter_remotes (CRemote c) = Some (ce_list c)"
| "iter_remotes (CLocal c) = None"

section \<open>The peer cache\<close>

definition pc_new :: "nat \<Rightarrow> duration \<Rightarrow> peer_cache" where
  "pc_new capacity age =
     \<lparr>pc_map = [], pc_list = [], pc_capacity = capacity, pc_cnt = 0, pc_age = age\<rparr>"

fun pc_expire_loop ::
  "instant \<Rightarrow> cache_key list \<Rightarrow> (cache_key, address_cache) hmap \<Rightarrow> nat \<Rightarrow> nat
     \<Rightarrow> ((cache_key, address_cache) hmap \<times> nat \<times> nat) res" where
  "pc_expire_loop now [] m cnt expired_keys = Inr (m, cnt, expired_keys)"
| "pc_expire_loop now (key # keys) m cnt expired_keys =
     res_bind (expect (hm_get m key)) (\<lambda>addrs.
       if \<not> ac_is_expired now addrs
       then res_bind (ac_remove_expired now addrs) (\<lambda>(n, addrs').
            res_bind (usize_sub cnt n) (\<lambda>cnt'.
              if ac_is_empty addrs' then Inr (hm_remove key m, cnt', expired_keys + 1)
              else Inr (hm_insert key addrs' m, cnt', expired_keys)))
       else case hm_get m key of
              Some a \<Rightarrow> res_bind (usize_sub cnt (ac_len a)) (\<lambda>cnt'.
                          pc_expire_loop now keys (hm_remove key m) cnt' (expired_keys + 1))
            | None \<Rightarrow> pc_expire_loop now keys m cnt expired_keys)"

definition pc_remove_expired :: "instant \<Rightarrow> peer_cache \<Rightarrow> peer_cache res" where
  "pc_remove_expired now c =
     res_bind (pc_expire_loop now (pc_list c) (pc_map c) (pc_cnt c) 0) (\<lambda>(m, cnt, n).
       if n \<le> length (pc_list c)
       then Inr (c\<lparr>pc_map := m, pc_cnt := cnt, pc_list := drop n (pc_list c)\<rparr>)
       else Inl IndexOutOfBounds)"

definition pc_clear :: "peer_cache \<Rightarrow> peer_cache" where
  "pc_clear c = c\<lparr>pc_map := [], pc_list := [], pc_cnt := 0\<rparr>"

definition pc_is_empty :: "peer_cache \<Rightarrow> bool" where
  "pc_is_empty c \<longleftrightarrow> pc_cnt c = 0"

definition pc_len :: "peer_cache \<Rightarrow> nat" where
  "pc_len c = pc_cnt c"

text \<open>The eviction loop; \<open>None\<close> is a loop that does not end.\<close>

partial_function (option) pc_remove_lru :: "peer_cache \<Rightarrow> peer_cache res option" where
  "pc_remove_lru c =
     (if pc_capacity c \<le> pc_cnt c
      then case pc_list c of
             [] \<Rightarrow> pc_remove_lru c
           | key # keys \<Rightarrow>
               (case hm_get (pc_map c) key of
                  None \<Rightarrow> Some (Inl ExpectFailed)
                | Some addrs \<Rightarrow>
                    (case ac_remove_lru addrs of (removed, addrs') \<Rightarrow>
                       if removed
                       then (case usize_sub (pc_cnt c) 1 of
                               Inl e \<Rightarrow> Some (Inl e)
                             | Inr cnt \<Rightarrow>
                                 pc_remove_lru (c\<lparr>pc_map := hm_insert key addrs' (pc_map c), pc_cnt := cnt\<rparr>))
                       else pc_remove_lru (c\<lparr>pc_map := hm_remove key (pc_map c), pc_list := keys\<rparr>)))
      else Some (Inr c))"

declare pc_remove_lru.simps [code]

definition pc_insert :: "instant \<Rightarrow> cache_key \<Rightarrow> address \<Rightarrow> peer_cache \<Rightarrow> peer_cache res" where
  "pc_insert now key addr c =
     res_bind (pc_remove_expired now c) (\<lambda>c1.
       case hm_get (pc_map c1) key of
         Some addrs \<Rightarrow>
           (let (new, addrs') = ac_insert addr (now + pc_age c1) addrs
            in Inr (c1\<lparr>pc_list := update_key key (pc_list c1),
                      pc_map := hm_insert key addrs' (pc_map c1),
                      pc_cnt := (if new then pc_cnt c1 + 1 else pc_cnt c1)\<rparr>))
       | None \<Rightarrow>
           res_bind (returned (pc_remove_lru c1)) (\<lambda>c2.
             Inr (c2\<lparr>pc_list := pc_list c2 @ [key],
                    pc_map := hm_insert key (ac_new addr (now + pc_age c2)) (pc_map c2),
                    pc_cnt := pc_cnt c2 + 1\<rparr>)))"

definition pc_get :: "instant \<Rightarrow> cache_key \<Rightarrow> peer_cache \<Rightarrow> (address_cache option \<times> peer_cache) res" where
  "pc_get now key c =
     res_bind (pc_remove_expired now c) (\<lambda>c1.
       case hm_get (pc_map c1) key of
         None \<Rightarrow> Inr (None, c1)
       | Some addrs \<Rightarrow>
           (let addrs' = ac_set_expiration (now + pc_age c1) addrs
            in Inr (Some addrs',
                    c1\<lparr>pc_list := update_key key (pc_list c1),
                       pc_map := hm_insert key addrs' (pc_map c1)\<rparr>)))"

definition pc_remove_addr :: "cache_key \<Rightarrow> address \<Rightarrow> peer_cache \<Rightarrow> (address option \<times> peer_cache) res" where
  "pc_remove_addr key addr c =
     (case hm_get (pc_map c) key of
        None \<Rightarrow> Inr (None, c)
      | Some addrs \<Rightarrow>
          (case ac_remove addr addrs of
             (None, addrs') \<Rightarrow> Inr (None, c\<lparr>pc_map := hm_insert key addrs' (pc_map c)\<rparr>)
           | (Some v, addrs') \<Rightarrow>
               res_bind (usize_sub (pc_cnt c) 1) (\<lambda>cnt.
                 Inr (Some v, c\<lparr>pc_map := hm_insert key addrs' (pc_map c), pc_cnt := cnt\<rparr>))))"

definition pc_remove :: "cache_key \<Rightarrow> peer_cache \<Rightarrow> (address_cache option \<times> peer_cache) res" where
  "pc_remove key c =
     (case hm_get (pc_map c) key of
        None \<Rightarrow> Inr (None, c)
      | Some addrs \<Rightarrow>
          res_bind (usize_sub (pc_cnt c) (ac_len addrs)) (\<lambda>cnt.
            Inr (Some addrs,
                 c\<lparr>pc_map := hm_remove key (pc_map c),
                   pc_list := (case position_of (\<lambda>l. l = key) (pc_list c) of
                                 Some p \<Rightarrow> remove_at p (pc_list c)
                               | None \<Rightarrow> pc_list c),
                   pc_cnt := cnt\<rparr>)))"

section \<open>Invariant\<close>

definition ce_ok :: "'a cache_entry \<Rightarrow> bool" where
  "ce_ok c \<longleftrightarrow> synced (ce_inner c) (ce_list c)"

fun ac_ok :: "address_cache \<Rightarrow> bool" where
  "ac_ok (CRemote c) = ce_ok c"
| "ac_ok (CLocal c) = ce_ok c"

definition pc_ok :: "peer_cache \<Rightarrow> bool" where
  "pc_ok c \<longleftrightarrow>
     synced (pc_map c) (pc_list c) \<and> pc_cnt c = hm_sum ac_len (pc_map c) \<and>
     (\<forall>k a. hm_get (pc_map c) k = Some a \<longrightarrow> ac_ok a)"

lemma mset_update_key [simp]: "mset (update_key k l) = mset l"
  by (auto simp: update_key_def mset_remove_at split: option.splits dest!: position_of_SomeD)

lemma set_update_key [simp]: "set (update_key k l) = set l"
  by (metis mset_eq_setD mset_update_key)

lemma ce_len_list: "ce_ok c \<Longrightarrow> ce_len c = length (ce_list c)"
  by (simp add: ce_ok_def ce_len_def synced_length)

lemma ce_is_empty_len: "ce_is_empty c \<longleftrightarrow> ce_len c = 0"
  by (simp add: ce_is_empty_def ce_len_def)

lemma ce_new_ok [simp, inv_intros]: "ce_ok (ce_new v e)" "ce_len (ce_new v e) = 1"
  using synced_insert_new [of "[]" "[]" v e] by (simp_all add: ce_ok_def ce_new_def ce_len_def hm_insert_def)

lemma ce_insert_ok:
  assumes "ce_ok c" and "ce_insert a e c = (r, c')"
  shows "ce_ok c' \<and> ce_len c' = ce_len c + (if r then 1 else 0) \<and> (r \<longleftrightarrow> hm_get (ce_inner c) a = None)"
proof (cases "hm_get (ce_inner c) a")
  case None
  then have "ce_ok c'" "ce_list c' = ce_list c @ [a]" "r"
    using assms synced_insert_new [of "ce_inner c" "ce_list c" a e]
    by (auto simp: ce_ok_def ce_insert_def)
  with assms(1) None show ?thesis by (simp add: ce_len_list)
next
  case (Some e')
  have "synced (hm_insert a e (ce_inner c)) (update_key a (ce_list c))"
    using assms(1) Some synced_perm [OF synced_update [of "ce_inner c" "ce_list c" a e' e]]
    by (simp add: ce_ok_def)
  then have "ce_ok c'" "mset (ce_list c') = mset (ce_list c)" "\<not> r"
    using assms(2) Some by (auto simp: ce_ok_def ce_insert_def)
  with assms(1) Some show ?thesis by (simp add: ce_len_list) (metis size_mset)
qed

lemma ce_remove_lru_ok:
  assumes "ce_ok c" and "ce_remove_lru c = (r, c')"
  shows "ce_ok c' \<and> ce_len c = ce_len c' + (if r = None then 0 else 1) \<and> (r = None \<longleftrightarrow> ce_len c = 0)"
proof (cases "ce_list c")
  case Nil
  then show ?thesis using assms ce_len_list [OF assms(1)] by (auto simp: ce_remove_lru_def)
next
  case (Cons k ks)
  then have "ce_ok c'" "ce_list c' = ks" "r = Some k"
    using assms synced_pop [of "ce_inner c" k ks] by (auto simp: ce_ok_def ce_remove_lru_def)
  with assms(1) Cons show ?thesis by (simp add: ce_len_list)
qed

lemma ce_remove_ok:
  assumes "ce_ok c" and "ce_remove a c = (r, c')"
  shows "ce_ok c' \<and> ce_len c = ce_len c' + (if r = None then 0 else 1)"
proof (cases "hm_get (ce_inner c) a")
  case None
  then show ?thesis using assms by (auto simp: ce_remove_def)
next
  case (Some e)
  then obtain p where p: "p < length (ce_list c)" "position_of (\<lambda>x. x = a) (ce_list c) = Some p" "ce_list c ! p = a"
    using assms(1) synced_position [of "ce_inner c" "ce_list c" a e] by (auto simp: ce_ok_def)
  then have "ce_ok c'" "ce_list c' = remove_at p (ce_list c)" "r = Some a"
    using assms Some synced_remove [of "ce_inner c" "ce_list c" p] by (auto simp: ce_ok_def ce_remove_def)
  with assms(1) p show ?thesis by (simp add: ce_len_list)
qed

text \<open>The expiration loop removes a prefix of the list and stops at the first address that is
  still valid.\<close>

lemma ce_expire_loop_ok:
  assumes "synced inner ks"
  shows "\<exists>n inner'. ce_expire_loop now ks inner expired = Inr (inner', expired @ take n ks) \<and> n \<le> length ks \<and>
    synced inner' (drop n ks) \<and> (\<forall>k \<in> set (take n ks). the (hm_get inner k) < now) \<and>
    (n < length ks \<longrightarrow> now \<le> the (hm_get inner (ks ! n))) \<and>
    (\<forall>k \<in> set (drop n ks). hm_get inner' k = hm_get inner k)"
  using assms
proof (induction ks arbitrary: inner expired)
  case (Cons k ks)
  obtain e where e: "hm_get inner k = Some e" using synced_get [OF Cons.prems] by auto
  show ?case
  proof (cases "now \<le> e")
    case True
    with e Cons.prems show ?thesis by (intro exI [of _ 0]) auto
  next
    case False
    have nk: "k \<notin> set ks" using Cons.prems by (simp add: synced_def)
    from Cons.IH [OF synced_pop [OF Cons.prems], of "expired @ [k]"] obtain n inner' where n:
      "ce_expire_loop now ks (hm_remove k inner) (expired @ [k]) = Inr (inner', (expired @ [k]) @ take n ks)"
      "n \<le> length ks" "synced inner' (drop n ks)" "\<forall>x \<in> set (take n ks). the (hm_get (hm_remove k inner) x) < now"
      "n < length ks \<longrightarrow> now \<le> the (hm_get (hm_remove k inner) (ks ! n))"
      "\<forall>x \<in> set (drop n ks). hm_get inner' x = hm_get (hm_remove k inner) x"
      by blast
    have "x \<noteq> k" if "x \<in> set (take n ks) \<or> x \<in> set (drop n ks)" for x
      using that nk by (auto dest: in_set_takeD in_set_dropD)
    moreover have "ks ! n \<noteq> k" if "n < length ks" using that nk by (metis nth_mem)
    ultimately show ?thesis using n e False by (intro exI [of _ "Suc n"] exI [of _ inner']) auto
  qed
qed simp

lemma ce_remove_expired_ok:
  assumes "ce_ok c"
  obtains n c' where "ce_remove_expired now c = Inr (take n (ce_list c), c')" "n \<le> length (ce_list c)" "ce_ok c'"
    "ce_list c' = drop n (ce_list c)" "ce_len c = ce_len c' + n" "ce_expiration c' = ce_expiration c"
    "\<And>k. k \<in> set (take n (ce_list c)) \<Longrightarrow> the (hm_get (ce_inner c) k) < now"
    "\<And>k. k \<in> set (ce_list c') \<Longrightarrow> hm_get (ce_inner c') k = hm_get (ce_inner c) k"
    "ce_list c' \<noteq> [] \<Longrightarrow> now \<le> the (hm_get (ce_inner c') (hd (ce_list c')))"
proof -
  from ce_expire_loop_ok [of "ce_inner c" "ce_list c" now "[]"] assms obtain n inner' where n:
    "ce_expire_loop now (ce_list c) (ce_inner c) [] = Inr (inner', take n (ce_list c))" "n \<le> length (ce_list c)"
    "synced inner' (drop n (ce_list c))" "\<forall>k \<in> set (take n (ce_list c)). the (hm_get (ce_inner c) k) < now"
    "n < length (ce_list c) \<longrightarrow> now \<le> the (hm_get (ce_inner c) (ce_list c ! n))"
    "\<forall>k \<in> set (drop n (ce_list c)). hm_get inner' k = hm_get (ce_inner c) k"
    by (auto simp: ce_ok_def)
  define c' where "c' = c\<lparr>ce_inner := inner', ce_list := drop n (ce_list c)\<rparr>"
  have eq: "ce_remove_expired now c = Inr (take n (ce_list c), c')"
    using n(1,2) by (simp add: ce_remove_expired_def c'_def min_def)
  have ok: "ce_ok c'" using n(3) by (simp add: ce_ok_def c'_def)
  have len: "ce_len c = ce_len c' + n" using ok assms n(2) by (simp add: ce_len_list) (simp add: c'_def)
  have "now \<le> the (hm_get inner' (hd (drop n (ce_list c))))" if "drop n (ce_list c) \<noteq> []"
  proof -
    have lt: "n < length (ce_list c)" using that by simp
    then have "ce_list c ! n \<in> set (drop n (ce_list c))" by (simp add: Cons_nth_drop_Suc [symmetric])
    with n(5,6) lt show ?thesis by (simp add: hd_drop_conv_nth)
  qed
  then show thesis using that [OF eq n(2) ok] len n(4,6) by (simp add: c'_def)
qed

text \<open>The expiration time stored for an address.\<close>

fun ac_time :: "address \<Rightarrow> address_cache \<Rightarrow> instant option" where
  "ac_time (ARemote a) (CRemote c) = hm_get (ce_inner c) a"
| "ac_time (ALocal a) (CLocal c) = hm_get (ce_inner c) a"
| "ac_time _ _ = None"

lemma ac_new_ok [simp]: "ac_ok (ac_new a e)" "ac_len (ac_new a e) = 1" "ac_time a (ac_new a e) = Some e"
  "ac_is_expired now (ac_new a e) \<longleftrightarrow> e < now"
  by (cases a; simp add: ce_new_def ce_is_expired_def; simp flip: ce_new_def)+

lemma ac_is_empty_len: "ac_is_empty c \<longleftrightarrow> ac_len c = 0"
  by (cases c) (simp_all add: ce_is_empty_len)

lemma ac_insert_ok:
  "ac_ok c \<Longrightarrow> ac_insert a e c = (r, c') \<Longrightarrow> ac_ok c' \<and> ac_len c' = ac_len c + (if r then 1 else 0)"
  by (cases "(a, e, c)" rule: ac_insert.cases) (auto split: prod.splits dest: ce_insert_ok)

lemma ac_remove_ok:
  "ac_ok c \<Longrightarrow> ac_remove a c = (r, c') \<Longrightarrow> ac_ok c' \<and> ac_len c = ac_len c' + (if r = None then 0 else 1)"
  by (cases "(a, c)" rule: ac_remove.cases) (auto split: prod.splits dest: ce_remove_ok)

lemma ac_remove_lru_ok:
  "ac_ok c \<Longrightarrow> ac_remove_lru c = (r, c') \<Longrightarrow>
     ac_ok c' \<and> ac_len c = ac_len c' + (if r then 1 else 0) \<and> (r \<longleftrightarrow> ac_len c \<noteq> 0)"
  by (cases c) (auto split: prod.splits dest: ce_remove_lru_ok)

lemma ac_set_expiration_simps [simp]:
  "ac_ok (ac_set_expiration e c) = ac_ok c" "ac_len (ac_set_expiration e c) = ac_len c"
  "ac_time a (ac_set_expiration e c) = ac_time a c" "ac_is_expired now (ac_set_expiration e c) \<longleftrightarrow> e < now"
  by (cases c; cases a; simp add: ce_ok_def ce_len_def ce_is_expired_def)+

lemma ce_remove_expired_keeps:
  assumes "ce_ok c" and "ce_remove_expired now c = Inr (vs, c')" and "hm_get (ce_inner c) a = Some t" "now \<le> t"
  shows "hm_get (ce_inner c') a = Some t"
proof -
  obtain n c1 where c1: "ce_remove_expired now c = Inr (take n (ce_list c), c1)" "ce_list c1 = drop n (ce_list c)"
    "\<And>k. k \<in> set (take n (ce_list c)) \<Longrightarrow> the (hm_get (ce_inner c) k) < now"
    "\<And>k. k \<in> set (ce_list c1) \<Longrightarrow> hm_get (ce_inner c1) k = hm_get (ce_inner c) k"
    using ce_remove_expired_ok [OF assms(1), of now] by metis
  have "a \<in> set (ce_list c)" using assms(1,3) by (auto simp: ce_ok_def synced_def dest: hm_get_keysD)
  moreover have "a \<notin> set (take n (ce_list c))" using c1(3) [of a] assms(3,4) by auto
  ultimately have "a \<in> set (ce_list c1)" by (metis Un_iff append_take_drop_id c1(2) set_append)
  with c1 assms(2,3) show ?thesis by simp
qed

lemma ac_remove_expired_ok:
  assumes "ac_ok c"
  obtains n c' where "ac_remove_expired now c = Inr (n, c')" "ac_ok c'" "ac_len c = ac_len c' + n"
    "\<And>a t. ac_time a c = Some t \<Longrightarrow> now \<le> t \<Longrightarrow> ac_time a c' = Some t"
proof (cases c)
  case (CRemote e)
  with assms have ok: "ce_ok e" by simp
  from ce_remove_expired_ok [OF ok, of now] obtain n e' where
    e': "ce_remove_expired now e = Inr (take n (ce_list e), e')" "n \<le> length (ce_list e)" "ce_ok e'" "ce_len e = ce_len e' + n"
    by metis
  have "ac_time a (CRemote e') = Some t" if "ac_time a c = Some t" "now \<le> t" for a t
    using that CRemote ce_remove_expired_keeps [OF ok e'(1)] by (cases a) auto
  with CRemote e' show thesis by (intro that [of n "CRemote e'"]) auto
next
  case (CLocal e)
  with assms have ok: "ce_ok e" by simp
  from ce_remove_expired_ok [OF ok, of now] obtain n e' where
    e': "ce_remove_expired now e = Inr (take n (ce_list e), e')" "n \<le> length (ce_list e)" "ce_ok e'" "ce_len e = ce_len e' + n"
    by metis
  have "ac_time a (CLocal e') = Some t" if "ac_time a c = Some t" "now \<le> t" for a t
    using that CLocal ce_remove_expired_keeps [OF ok e'(1)] by (cases a) auto
  with CLocal e' show thesis by (intro that [of n "CLocal e'"]) auto
qed

section \<open>The operations keep the invariant\<close>

text \<open>The invariant of the expiration loop, on the rest of the list.\<close>

definition pc_part :: "(cache_key, address_cache) hmap \<Rightarrow> cache_key list \<Rightarrow> nat \<Rightarrow> bool" where
  "pc_part m ks cnt \<longleftrightarrow> synced m ks \<and> cnt = hm_sum ac_len m \<and> (\<forall>k a. hm_get m k = Some a \<longrightarrow> ac_ok a)"

lemma pc_ok_part: "pc_ok c \<longleftrightarrow> pc_part (pc_map c) (pc_list c) (pc_cnt c)"
  by (simp add: pc_ok_def pc_part_def)

lemma pc_part_hm_ok: "pc_part m ks cnt \<Longrightarrow> hm_ok m"
  by (simp add: pc_part_def synced_def)

lemma pc_part_remove:
  assumes "pc_part m (k # ks) cnt" and "hm_get m k = Some a"
  shows "ac_len a \<le> cnt" "pc_part (hm_remove k m) ks (cnt - ac_len a)"
  using assms hm_sum_remove [of m ac_len k] pc_part_hm_ok [OF assms(1)]
  by (auto simp: pc_part_def synced_pop)

lemma pc_part_put:
  assumes "pc_part m ks cnt" and "hm_get m k = Some a" and "ac_ok a'"
  shows "ac_len a \<le> cnt" "pc_part (hm_insert k a' m) ks (cnt - ac_len a + ac_len a')"
  using assms hm_sum_insert [of m ac_len k a'] hm_sum_remove [of m ac_len k] pc_part_hm_ok [OF assms(1)]
  by (auto simp: pc_part_def synced_update)

lemma pc_expire_loop_ok:
  assumes "pc_part m ks cnt"
  shows "\<exists>n m' cnt'. pc_expire_loop now ks m cnt x = Inr (m', cnt', x + n) \<and> n \<le> length ks \<and>
    pc_part m' (drop n ks) cnt' \<and>
    (\<forall>k c a t. hm_get m k = Some c \<longrightarrow> \<not> ac_is_expired now c \<longrightarrow> ac_time a c = Some t \<longrightarrow> now \<le> t \<longrightarrow>
       (\<exists>c'. hm_get m' k = Some c' \<and> ac_time a c' = Some t))"
  using assms
proof (induction ks arbitrary: m cnt x)
  case (Cons k ks)
  obtain c where c: "hm_get m k = Some c" using Cons.prems synced_get [of m "k # ks" k] by (auto simp: pc_part_def)
  then have ok: "ac_ok c" using Cons.prems by (simp add: pc_part_def)
  note rem = pc_part_remove [OF Cons.prems c]
  show ?case
  proof (cases "ac_is_expired now c")
    case True
    from Cons.IH [OF rem(2), of "x + 1"] obtain n m' cnt' where n:
      "pc_expire_loop now ks (hm_remove k m) (cnt - ac_len c) (x + 1) = Inr (m', cnt', x + 1 + n)" "n \<le> length ks"
      "pc_part m' (drop n ks) cnt'"
      "\<forall>j d a t. hm_get (hm_remove k m) j = Some d \<longrightarrow> \<not> ac_is_expired now d \<longrightarrow> ac_time a d = Some t \<longrightarrow> now \<le> t \<longrightarrow>
         (\<exists>c'. hm_get m' j = Some c' \<and> ac_time a c' = Some t)"
      by blast
    have "\<exists>c'. hm_get m' j = Some c' \<and> ac_time a c' = Some t"
      if "hm_get m j = Some d" "\<not> ac_is_expired now d" "ac_time a d = Some t" "now \<le> t" for j d a t
      using n(4) that True c by (cases "j = k") auto
    with True c rem(1) n(1-3) show ?thesis by (intro exI [of _ "Suc n"] exI [of _ m'] exI [of _ cnt']) simp
  next
    case False
    obtain n c' where c': "ac_remove_expired now c = Inr (n, c')" "ac_ok c'" "ac_len c = ac_len c' + n"
      "\<And>a t. ac_time a c = Some t \<Longrightarrow> now \<le> t \<Longrightarrow> ac_time a c' = Some t"
      using ac_remove_expired_ok [OF ok, of now] by metis
    have empty: "\<not> ac_is_empty c'" if "ac_time a c' = Some t" for a t
      using that by (cases "(a, c')" rule: ac_time.cases) (auto simp: ce_is_empty_def)
    show ?thesis
    proof (cases "ac_is_empty c'")
      case True
      then have "ac_len c = n" using c'(3) by (simp add: ac_is_empty_len)
      moreover have "\<exists>c''. hm_get (hm_remove k m) j = Some c'' \<and> ac_time a c'' = Some t"
        if "hm_get m j = Some d" "ac_time a d = Some t" "now \<le> t" for j d a t
        using that c c'(4) [of a t] empty [of a t] True by (cases "j = k") auto
      ultimately show ?thesis using c False True c'(1) rem
        by (intro exI [of _ 1] exI [of _ "hm_remove k m"] exI [of _ "cnt - n"]) simp
    next
      case nonempty: False
      have "cnt - ac_len c + ac_len c' = cnt - n" using c'(3) rem(1) by simp
      then have "pc_part (hm_insert k c' m) (k # ks) (cnt - n)"
        using pc_part_put(2) [OF Cons.prems c c'(2)] by simp
      moreover have "\<exists>c''. hm_get (hm_insert k c' m) j = Some c'' \<and> ac_time a c'' = Some t"
        if "hm_get m j = Some d" "ac_time a d = Some t" "now \<le> t" for j d a t
        using that c c'(4) [of a t] by (cases "j = k") auto
      ultimately show ?thesis using c False nonempty c'(1,3) rem(1)
        by (intro exI [of _ 0] exI [of _ "hm_insert k c' m"] exI [of _ "cnt - n"]) simp
    qed
  qed
qed simp

lemma pc_remove_expired_ok:
  assumes "pc_ok c"
  obtains c' where "pc_remove_expired now c = Inr c'" "pc_ok c'" "pc_capacity c' = pc_capacity c" "pc_age c' = pc_age c"
    "\<And>k d a t. hm_get (pc_map c) k = Some d \<Longrightarrow> \<not> ac_is_expired now d \<Longrightarrow> ac_time a d = Some t \<Longrightarrow> now \<le> t \<Longrightarrow>
       \<exists>d'. hm_get (pc_map c') k = Some d' \<and> ac_time a d' = Some t"
proof -
  from pc_expire_loop_ok [of "pc_map c" "pc_list c" "pc_cnt c" now 0] assms obtain n m' cnt' where n:
    "pc_expire_loop now (pc_list c) (pc_map c) (pc_cnt c) 0 = Inr (m', cnt', n)" "n \<le> length (pc_list c)"
    "pc_part m' (drop n (pc_list c)) cnt'"
    "\<forall>k c' a t. hm_get (pc_map c) k = Some c' \<longrightarrow> \<not> ac_is_expired now c' \<longrightarrow> ac_time a c' = Some t \<longrightarrow> now \<le> t \<longrightarrow>
       (\<exists>d'. hm_get m' k = Some d' \<and> ac_time a d' = Some t)"
    by (auto simp: pc_ok_part)
  let ?c = "c\<lparr>pc_map := m', pc_cnt := cnt', pc_list := drop n (pc_list c)\<rparr>"
  show thesis
    by (rule that [of ?c]) (use n in \<open>simp_all add: pc_remove_expired_def pc_ok_part\<close>)
qed

text \<open>The users of the cache keep remote addresses under remote keys and LAN addresses under LAN
  keys.\<close>

fun key_kind :: "cache_key \<Rightarrow> address_cache \<Rightarrow> bool" where
  "key_kind (KRemote i) (CRemote c) = True"
| "key_kind (KLocal i p) (CLocal c) = True"
| "key_kind _ _ = False"

definition kinds_ok :: "peer_cache \<Rightarrow> bool" where
  "kinds_ok c \<longleftrightarrow> (\<forall>k d. hm_get (pc_map c) k = Some d \<longrightarrow> key_kind k d)"

lemma key_kind_simps [simp]:
  "key_kind (KRemote i) (ac_new (ARemote r) e)" "key_kind (KLocal i p) (ac_new (ALocal l) e)"
  "key_kind k (snd (ac_insert a e d)) = key_kind k d" "key_kind k (snd (ac_remove a d)) = key_kind k d"
  "key_kind k (snd (ac_remove_lru d)) = key_kind k d" "key_kind k (ac_set_expiration e d) = key_kind k d"
  by (cases d; cases a; cases k; simp split: prod.splits)+

lemma kinds_ok_new [simp]: "kinds_ok (pc_new cap age)"
  by (simp add: kinds_ok_def pc_new_def)

text \<open>One round of the eviction loop.\<close>

lemma remove_lru_step:
  assumes "pc_ok c" and l: "pc_list c = k # ks"
  shows "\<exists>a r a'. hm_get (pc_map c) k = Some a \<and> ac_remove_lru a = (r, a') \<and>
    (r \<longrightarrow> 1 \<le> pc_cnt c \<and> pc_ok (c\<lparr>pc_map := hm_insert k a' (pc_map c), pc_cnt := pc_cnt c - 1\<rparr>)) \<and>
    (\<not> r \<longrightarrow> pc_ok (c\<lparr>pc_map := hm_remove k (pc_map c), pc_list := ks\<rparr>))"
proof -
  obtain a where a: "hm_get (pc_map c) k = Some a"
    using assms synced_get [of "pc_map c" "pc_list c" k] by (auto simp: pc_ok_def)
  have part: "pc_part (pc_map c) (k # ks) (pc_cnt c)" using assms by (simp add: pc_ok_part)
  then have ok: "ac_ok a" using a by (simp add: pc_part_def)
  obtain r a' where r: "ac_remove_lru a = (r, a')" by fastforce
  note lru = ac_remove_lru_ok [OF ok r]
  have "1 \<le> pc_cnt c \<and> pc_ok (c\<lparr>pc_map := hm_insert k a' (pc_map c), pc_cnt := pc_cnt c - 1\<rparr>)" if r
  proof -
    have a': "ac_ok a'" "ac_len a = ac_len a' + 1" using lru that by simp_all
    note put = pc_part_put [OF part a a'(1)]
    have "1 \<le> pc_cnt c" "pc_cnt c - ac_len a + ac_len a' = pc_cnt c - 1" using put(1) a'(2) by linarith+
    then show ?thesis using put(2) l by (simp add: pc_ok_part)
  qed
  moreover have "pc_ok (c\<lparr>pc_map := hm_remove k (pc_map c), pc_list := ks\<rparr>)" if "\<not> r"
  proof -
    have "ac_len a = 0" using lru that by simp
    then show ?thesis using pc_part_remove(2) [OF part a] by (simp add: pc_ok_part)
  qed
  ultimately show ?thesis using a r by blast
qed

lemma pc_remove_lru_ok:
  assumes "pc_ok c" and "0 < pc_capacity c"
  shows "\<exists>c'. pc_remove_lru c = Some (Inr c') \<and> pc_ok c' \<and> pc_cnt c' < pc_capacity c' \<and>
    pc_capacity c' = pc_capacity c \<and> pc_age c' = pc_age c \<and> hm_keys (pc_map c') \<subseteq> hm_keys (pc_map c) \<and>
    (kinds_ok c \<longrightarrow> kinds_ok c')"
  using assms
proof (induction "pc_cnt c + length (pc_list c)" arbitrary: c rule: less_induct)
  case less
  show ?case
  proof (cases "pc_capacity c \<le> pc_cnt c")
    case False
    with less.prems show ?thesis by (subst pc_remove_lru.simps) simp
  next
    case True
    with less.prems have pos: "0 < hm_sum ac_len (pc_map c)" by (simp add: pc_ok_def)
    then have "hm_keys (pc_map c) \<noteq> {}" by (cases "pc_map c") (auto simp: hm_sum_def hm_keys_def)
    then have "pc_list c \<noteq> []" using less.prems(1) by (auto simp: pc_ok_def synced_def)
    then obtain k ks where l: "pc_list c = k # ks" by (cases "pc_list c") auto
    from remove_lru_step [OF less.prems(1) l] obtain a r a' where a: "hm_get (pc_map c) k = Some a" "ac_remove_lru a = (r, a')"
      and r1: "r \<Longrightarrow> 1 \<le> pc_cnt c \<and> pc_ok (c\<lparr>pc_map := hm_insert k a' (pc_map c), pc_cnt := pc_cnt c - 1\<rparr>)"
      and r0: "\<not> r \<Longrightarrow> pc_ok (c\<lparr>pc_map := hm_remove k (pc_map c), pc_list := ks\<rparr>)" by blast
    let ?c1 = "c\<lparr>pc_map := hm_insert k a' (pc_map c), pc_cnt := pc_cnt c - 1\<rparr>"
    let ?c0 = "c\<lparr>pc_map := hm_remove k (pc_map c), pc_list := ks\<rparr>"
    have eq: "pc_remove_lru c = pc_remove_lru (if r then ?c1 else ?c0)"
      using True l a r1 by (subst pc_remove_lru.simps) simp
    have "hm_keys (pc_map ?c1) = hm_keys (pc_map c)" using a(1) by (auto dest: hm_get_keysD)
    moreover have "kinds_ok c \<longrightarrow> kinds_ok ?c1 \<and> kinds_ok ?c0"
      using a key_kind_simps(5) [of k a] by (auto simp: kinds_ok_def)
    ultimately show ?thesis using less.hyps [of ?c1] less.hyps [of ?c0] less.prems(2) l r1 r0 unfolding eq by (cases r) fastforce+
  qed
qed

lemma pc_ok_list: "pc_ok c \<Longrightarrow> mset l = mset (pc_list c) \<Longrightarrow> pc_ok (c\<lparr>pc_list := l\<rparr>)"
  using synced_perm [of "pc_map c" "pc_list c" l] by (simp add: pc_ok_def)

lemma pc_ok_put:
  assumes "pc_ok c" and "hm_get (pc_map c) k = Some a" and "ac_ok a'" and "cnt + ac_len a = pc_cnt c + ac_len a'"
  shows "pc_ok (c\<lparr>pc_map := hm_insert k a' (pc_map c), pc_cnt := cnt\<rparr>)"
proof -
  note p = pc_part_put [of "pc_map c" "pc_list c" "pc_cnt c" k a a']
  have "cnt = pc_cnt c - ac_len a + ac_len a'" using p(1) assms by (simp add: pc_ok_part)
  then show ?thesis using p(2) assms by (simp add: pc_ok_part)
qed

lemma pc_insert_ok:
  assumes "pc_ok c" and "0 < pc_capacity c"
  shows "\<exists>c'. pc_insert now k a c = Inr c' \<and> pc_ok c' \<and> pc_capacity c' = pc_capacity c \<and> pc_age c' = pc_age c"
proof -
  obtain c1 where c1: "pc_remove_expired now c = Inr c1" "pc_ok c1" "pc_capacity c1 = pc_capacity c" "pc_age c1 = pc_age c"
    using pc_remove_expired_ok [OF assms(1), of now] by metis
  show ?thesis
  proof (cases "hm_get (pc_map c1) k")
    case None
    obtain c2 where c2: "pc_remove_lru c1 = Some (Inr c2)" "pc_ok c2" "pc_capacity c2 = pc_capacity c1" "pc_age c2 = pc_age c1"
      "hm_keys (pc_map c2) \<subseteq> hm_keys (pc_map c1)"
      using pc_remove_lru_ok [OF c1(2)] c1(3) assms(2) by auto
    have none: "hm_get (pc_map c2) k = None" using None c2(5) by (auto simp: hm_get_None)
    have "pc_ok (c2\<lparr>pc_list := pc_list c2 @ [k], pc_map := hm_insert k (ac_new a (now + pc_age c2)) (pc_map c2),
        pc_cnt := pc_cnt c2 + 1\<rparr>)"
      using c2(2) none hm_sum_insert [of "pc_map c2" ac_len k "ac_new a (now + pc_age c2)"]
      by (auto simp: pc_ok_def synced_insert_new) (simp add: synced_def)
    with c1 c2 None show ?thesis by (auto simp: pc_insert_def)
  next
    case (Some d)
    obtain r d' where r: "ac_insert a (now + pc_age c1) d = (r, d')" by fastforce
    have "ac_ok d" using c1(2) Some by (auto simp: pc_ok_def)
    note ins = ac_insert_ok [OF this r]
    let ?c = "c1\<lparr>pc_map := hm_insert k d' (pc_map c1), pc_cnt := (if r then pc_cnt c1 + 1 else pc_cnt c1)\<rparr>"
    have "pc_ok ?c" using ins by (intro pc_ok_put [OF c1(2) Some]) auto
    then have "pc_ok (?c\<lparr>pc_list := update_key k (pc_list c1)\<rparr>)" by (rule pc_ok_list) simp
    with c1 Some r show ?thesis by (auto simp: pc_insert_def pc_ok_part)
  qed
qed

lemma pc_get_ok:
  assumes "pc_ok c"
  shows "\<exists>r c'. pc_get now k c = Inr (r, c') \<and> pc_ok c' \<and> pc_capacity c' = pc_capacity c \<and> pc_age c' = pc_age c"
proof -
  obtain c1 where c1: "pc_remove_expired now c = Inr c1" "pc_ok c1" "pc_capacity c1 = pc_capacity c" "pc_age c1 = pc_age c"
    using pc_remove_expired_ok [OF assms(1), of now] by metis
  show ?thesis
  proof (cases "hm_get (pc_map c1) k")
    case None
    with c1 show ?thesis by (auto simp: pc_get_def)
  next
    case (Some d)
    let ?c = "c1\<lparr>pc_map := hm_insert k (ac_set_expiration (now + pc_age c1) d) (pc_map c1), pc_cnt := pc_cnt c1\<rparr>"
    have "ac_ok d" using c1(2) Some by (auto simp: pc_ok_def)
    then have "pc_ok ?c" by (intro pc_ok_put [OF c1(2) Some]) simp_all
    then have "pc_ok (?c\<lparr>pc_list := update_key k (pc_list c1)\<rparr>)" by (rule pc_ok_list) simp
    with c1 Some show ?thesis by (auto simp: pc_get_def Let_def pc_ok_part)
  qed
qed

lemma pc_remove_addr_ok:
  assumes "pc_ok c"
  shows "\<exists>r c'. pc_remove_addr k a c = Inr (r, c') \<and> pc_ok c' \<and> pc_capacity c' = pc_capacity c"
proof (cases "hm_get (pc_map c) k")
  case None
  with assms show ?thesis by (auto simp: pc_remove_addr_def)
next
  case (Some d)
  obtain r d' where r: "ac_remove a d = (r, d')" by fastforce
  have "ac_ok d" using assms Some by (auto simp: pc_ok_def)
  note rem = ac_remove_ok [OF this r]
  have le: "ac_len d \<le> pc_cnt c" using assms Some pc_part_put(1) [of "pc_map c" "pc_list c" "pc_cnt c" k d d'] rem by (simp add: pc_ok_part)
  show ?thesis
  proof (cases r)
    case None
    then have "pc_ok (c\<lparr>pc_map := hm_insert k d' (pc_map c), pc_cnt := pc_cnt c\<rparr>)"
      using rem by (intro pc_ok_put [OF assms Some]) auto
    with None Some r show ?thesis by (auto simp: pc_remove_addr_def)
  next
    case (Some v)
    then have "pc_ok (c\<lparr>pc_map := hm_insert k d' (pc_map c), pc_cnt := pc_cnt c - 1\<rparr>)"
      using rem le \<open>hm_get (pc_map c) k = Some d\<close> by (intro pc_ok_put [OF assms]) auto
    with Some r le rem \<open>hm_get (pc_map c) k = Some d\<close> show ?thesis by (auto simp: pc_remove_addr_def)
  qed
qed

lemma pc_remove_ok:
  assumes "pc_ok c"
  shows "\<exists>r c'. pc_remove k c = Inr (r, c') \<and> pc_ok c' \<and> pc_capacity c' = pc_capacity c \<and> hm_get (pc_map c') k = None"
proof (cases "hm_get (pc_map c) k")
  case None
  with assms show ?thesis by (auto simp: pc_remove_def)
next
  case (Some d)
  then obtain p where p: "p < length (pc_list c)" "position_of (\<lambda>x. x = k) (pc_list c) = Some p" "pc_list c ! p = k"
    using assms synced_position [of "pc_map c" "pc_list c" k d] by (auto simp: pc_ok_def)
  have sum: "hm_sum ac_len (hm_remove k (pc_map c)) + ac_len d = pc_cnt c"
    using assms Some hm_sum_remove [of "pc_map c" ac_len k] by (simp add: pc_ok_def synced_def)
  have "pc_ok (c\<lparr>pc_map := hm_remove k (pc_map c), pc_list := remove_at p (pc_list c), pc_cnt := pc_cnt c - ac_len d\<rparr>)"
    using assms p sum synced_remove [of "pc_map c" "pc_list c" p] by (auto simp: pc_ok_def)
  with Some p sum show ?thesis by (auto simp: pc_remove_def)
qed

lemma pc_clear_ok: "pc_ok (pc_clear c)" "pc_capacity (pc_clear c) = pc_capacity c"
  by (simp_all add: pc_ok_def pc_clear_def hm_sum_def)

lemma pc_new_simps [simp]: "pc_map (pc_new cap age) = []" "pc_age (pc_new cap age) = age"
  by (simp_all add: pc_new_def)

lemma pc_new_ok: "pc_ok (pc_new cap age)" "pc_capacity (pc_new cap age) = cap"
  by (simp_all add: pc_ok_def pc_new_def hm_sum_def)

section \<open>Sequences of operations\<close>

datatype cache_op =
    CInsert instant cache_key address
  | CGet instant cache_key
  | CRemoveAddr cache_key address
  | CRemove cache_key
  | CClear

datatype cache_out = OutUnit | OutCache "address_cache option" | OutAddr "address option"

fun cache_step :: "cache_op \<Rightarrow> peer_cache \<Rightarrow> (cache_out \<times> peer_cache) res" where
  "cache_step (CInsert now k a) c = res_bind (pc_insert now k a c) (\<lambda>c'. Inr (OutUnit, c'))"
| "cache_step (CGet now k) c = res_bind (pc_get now k c) (\<lambda>(r, c'). Inr (OutCache r, c'))"
| "cache_step (CRemoveAddr k a) c = res_bind (pc_remove_addr k a c) (\<lambda>(r, c'). Inr (OutAddr r, c'))"
| "cache_step (CRemove k) c = res_bind (pc_remove k c) (\<lambda>(r, c'). Inr (OutCache r, c'))"
| "cache_step CClear c = Inr (OutUnit, pc_clear c)"

interpretation cache: safe_steps cache_step "\<lambda>c. pc_ok c \<and> 0 < pc_capacity c" "\<lambda>_. True"
proof
  fix c op
  assume "pc_ok c \<and> 0 < pc_capacity c"
  then have ok: "pc_ok c" "0 < pc_capacity c" by simp_all
  show "\<exists>r c'. cache_step op c = Inr (r, c') \<and> pc_ok c' \<and> 0 < pc_capacity c'"
  proof (cases op)
    case (CInsert now k a)
    with pc_insert_ok [OF ok, of now k a] ok(2) show ?thesis by auto
  next
    case (CGet now k)
    with pc_get_ok [OF ok(1), of now k] ok(2) show ?thesis by auto
  next
    case (CRemoveAddr k a)
    with pc_remove_addr_ok [OF ok(1), of k a] ok(2) show ?thesis by auto
  next
    case (CRemove k)
    with pc_remove_ok [OF ok(1), of k] ok(2) show ?thesis by auto
  qed (simp add: pc_clear_ok ok)
qed

section \<open>Kinds of address caches\<close>

fun same_kind :: "address \<Rightarrow> address_cache \<Rightarrow> bool" where
  "same_kind (ARemote a) (CRemote c) = True"
| "same_kind (ALocal a) (CLocal c) = True"
| "same_kind _ _ = False"

lemma ac_remove_expired_kind: "ac_remove_expired now c = Inr (n, c') \<Longrightarrow> same_kind a c' = same_kind a c"
  by (cases c; cases a) (auto simp: res_bind_Inr_iff)

lemma pc_expire_loop_entry:
  "pc_expire_loop now ks m cnt x = Inr (m', cnt', n) \<Longrightarrow> hm_get m' k = Some d' \<Longrightarrow>
     \<exists>d. hm_get m k = Some d \<and> (d' = d \<or> (\<exists>j. ac_remove_expired now d = Inr (j, d')))"
proof (induction ks arbitrary: m cnt x)
  case (Cons j ks)
  from Cons.prems(1) obtain c where c: "hm_get m j = Some c" by (cases "hm_get m j") auto
  show ?case
  proof (cases "ac_is_expired now c")
    case True
    with Cons.prems c have "pc_expire_loop now ks (hm_remove j m) (cnt - ac_len c) (x + 1) = Inr (m', cnt', n)"
      by (auto simp: usize_sub_def split: if_splits)
    from Cons.IH [OF this Cons.prems(2)] show ?thesis by (auto split: if_splits)
  next
    case False
    with Cons.prems c show ?thesis by (auto simp: res_bind_Inr_iff usize_sub_def split: if_splits)
  qed
qed auto

lemma pc_remove_expired_entry:
  "pc_remove_expired now c = Inr c' \<Longrightarrow> hm_get (pc_map c') k = Some d' \<Longrightarrow>
     \<exists>d. hm_get (pc_map c) k = Some d \<and> (d' = d \<or> (\<exists>j. ac_remove_expired now d = Inr (j, d')))"
  by (auto simp: pc_remove_expired_def res_bind_Inr_iff dest: pc_expire_loop_entry split: if_splits)

lemma pc_remove_expired_kind:
  assumes "pc_remove_expired now c = Inr c'" and "hm_get (pc_map c') k = Some d'"
  shows "\<exists>d. hm_get (pc_map c) k = Some d \<and> same_kind a d' = same_kind a d"
  using pc_remove_expired_entry [OF assms] ac_remove_expired_kind by blast

lemma ac_insert_kind:
  assumes "same_kind a d" and "ac_insert a e d = (r, d')"
  shows "ac_time a d' = Some e \<and> \<not> ac_is_expired e d'"
  using assms by (cases "(a, d)" rule: same_kind.cases) (auto simp: ce_insert_def ce_is_expired_def Let_def)

lemma ac_is_expired_mono: "now \<le> now' \<Longrightarrow> \<not> ac_is_expired now' c \<Longrightarrow> \<not> ac_is_expired now c"
  by (cases c) (auto simp: ce_is_expired_def)

lemma key_kind_same: "same_kind a d' = same_kind a d \<Longrightarrow> key_kind k d' = key_kind k d"
  by (cases d; cases d'; cases a; cases k) auto

lemma kinds_ok_remove_expired:
  assumes "pc_remove_expired now c = Inr c'" and "kinds_ok c"
  shows "kinds_ok c'"
  unfolding kinds_ok_def
proof (intro allI impI)
  fix k d' assume "hm_get (pc_map c') k = Some d'"
  from pc_remove_expired_kind [OF assms(1) this, of "ALocal (0, 0, 0, 0)"] obtain d where
    "hm_get (pc_map c) k = Some d" "same_kind (ALocal (0, 0, 0, 0)) d' = same_kind (ALocal (0, 0, 0, 0)) d" by blast
  note d = this
  have "key_kind k d" using d(1) assms(2) by (simp add: kinds_ok_def)
  then show "key_kind k d'" using key_kind_same [OF d(2)] by simp
qed

lemma kinds_ok_insert:
  assumes ins: "pc_insert now k a c = Inr c'" and ok: "pc_ok c" "0 < pc_capacity c" "kinds_ok c" and "\<And>e. key_kind k (ac_new a e)"
  shows "kinds_ok c'"
proof -
  obtain c1 where c1: "pc_remove_expired now c = Inr c1" "pc_ok c1" "pc_capacity c1 = pc_capacity c"
    using pc_remove_expired_ok [OF ok(1), of now] by metis
  then have k1: "kinds_ok c1" using kinds_ok_remove_expired ok(3) by blast
  show ?thesis
  proof (cases "hm_get (pc_map c1) k")
    case None
    obtain c2 where "pc_remove_lru c1 = Some (Inr c2)" "kinds_ok c2"
      using pc_remove_lru_ok [OF c1(2)] c1(3) ok(2) k1 by auto
    then show ?thesis using None c1(1) ins assms(5) by (auto simp: pc_insert_def kinds_ok_def split: if_splits)
  next
    case (Some d)
    obtain b d' where r: "ac_insert a (now + pc_age c1) d = (b, d')" by fastforce
    then have "key_kind k d'" using key_kind_simps(3) [of k a "now + pc_age c1" d] Some k1 by (auto simp: kinds_ok_def)
    with r show ?thesis using Some ins c1(1) k1 by (auto simp: pc_insert_def kinds_ok_def split: prod.splits if_splits)
  qed
qed

lemma kinds_ok_get: "pc_get now k c = Inr (r, c') \<Longrightarrow> kinds_ok c \<Longrightarrow> kinds_ok c'"
  by (auto simp: pc_get_def Let_def res_bind_Inr_iff dest!: kinds_ok_remove_expired split: option.splits) (auto simp: kinds_ok_def)

lemma kinds_ok_remove_addr:
  assumes "pc_remove_addr k a c = Inr (r, c')" and "kinds_ok c"
  shows "kinds_ok c'"
proof (cases "hm_get (pc_map c) k")
  case (Some d)
  obtain b d' where r: "ac_remove a d = (b, d')" by fastforce
  then have "key_kind k d'" using key_kind_simps(4) [of k a d] Some assms(2) by (auto simp: kinds_ok_def)
  with r show ?thesis using Some assms
    by (auto simp: pc_remove_addr_def kinds_ok_def res_bind_Inr_iff split: prod.splits option.splits if_splits)
qed (use assms in \<open>simp add: pc_remove_addr_def\<close>)

text \<open>The remote addresses under a key: an insertion adds at most one, a lookup none.\<close>

definition remotes_of :: "cache_key \<Rightarrow> peer_cache \<Rightarrow> socket_addr list" where
  "remotes_of k c = (case Option.bind (hm_get (pc_map c) k) iter_remotes of Some rs \<Rightarrow> rs | None \<Rightarrow> [])"

lemma ac_remove_expired_remotes:
  "ac_remove_expired now d = Inr (n, d') \<Longrightarrow> iter_remotes d' = Some rs' \<Longrightarrow> \<exists>rs. iter_remotes d = Some rs \<and> length rs' \<le> length rs"
  by (cases d) (auto simp: res_bind_Inr_iff ce_remove_expired_def split: if_splits)

lemma remove_expired_remotes:
  assumes "pc_remove_expired now c = Inr c'"
  shows "length (remotes_of k c') \<le> length (remotes_of k c)"
proof (cases "Option.bind (hm_get (pc_map c') k) iter_remotes")
  case (Some rs')
  then obtain d' where d': "hm_get (pc_map c') k = Some d'" "iter_remotes d' = Some rs'" by (auto simp: bind_eq_Some_conv)
  obtain d where d: "hm_get (pc_map c) k = Some d" "d' = d \<or> (\<exists>j. ac_remove_expired now d = Inr (j, d'))"
    using pc_remove_expired_entry [OF assms d'(1)] by blast
  obtain rs where "iter_remotes d = Some rs" "length rs' \<le> length rs"
    using d(2) d'(2) ac_remove_expired_remotes by blast
  then show ?thesis using Some d(1) by (simp add: remotes_of_def)
qed (simp add: remotes_of_def)

lemma length_update_key [simp]: "length (update_key k l) = length l"
  by (metis mset_update_key size_mset)

lemma ac_insert_remotes:
  "ac_insert a e d = (r, d') \<Longrightarrow> iter_remotes d' = Some rs' \<Longrightarrow> \<exists>rs. iter_remotes d = Some rs \<and> length rs' \<le> length rs + 1"
  by (cases d; cases a) (auto simp: ce_insert_def Let_def)

lemma insert_remotes:
  assumes "pc_insert now k a c = Inr c'"
  shows "length (remotes_of k c') \<le> length (remotes_of k c) + 1"
proof -
  obtain c1 where c1: "pc_remove_expired now c = Inr c1" using assms by (auto simp: pc_insert_def res_bind_Inr_iff)
  have "length (remotes_of k c') \<le> length (remotes_of k c1) + 1"
  proof (cases "hm_get (pc_map c1) k")
    case None
    then have "hm_get (pc_map c') k = Some (ac_new a (now + pc_age c'))"
      using assms c1 by (auto simp: pc_insert_def res_bind_Inr_iff)
    then show ?thesis by (cases a) (simp_all add: remotes_of_def ce_new_def)
  next
    case (Some d)
    obtain r d' where r: "ac_insert a (now + pc_age c1) d = (r, d')" by fastforce
    then have "hm_get (pc_map c') k = Some d'" using Some assms c1 by (auto simp: pc_insert_def)
    then show ?thesis using ac_insert_remotes [OF r] Some by (cases "iter_remotes d'") (auto simp: remotes_of_def)
  qed
  then show ?thesis using remove_expired_remotes [OF c1, of k] by simp
qed

lemma get_remotes:
  assumes "pc_get now k c = Inr (Some d, c')" and "iter_remotes d = Some rs"
  shows "length rs \<le> length (remotes_of k c)"
proof -
  obtain c1 d1 where c1: "pc_remove_expired now c = Inr c1" "hm_get (pc_map c1) k = Some d1" "d = ac_set_expiration (now + pc_age c1) d1"
    using assms(1) by (auto simp: pc_get_def Let_def res_bind_Inr_iff split: option.splits)
  then have "remotes_of k c1 = rs" using assms(2) by (cases d1) (auto simp: remotes_of_def)
  then show ?thesis using remove_expired_remotes [OF c1(1), of k] by simp
qed

text \<open>An inserted address is found by a lookup within its age.\<close>

lemma pc_insert_then_get:
  assumes ok: "pc_ok c" "0 < pc_capacity c" and kind: "\<forall>d. hm_get (pc_map c) k = Some d \<longrightarrow> same_kind a d"
    and ins: "pc_insert now k a c = Inr c1" and time: "now \<le> now'" "now' \<le> now + pc_age c"
  shows "\<exists>d c2. pc_get now' k c1 = Inr (Some d, c2) \<and> ac_time a d = Some (now + pc_age c)"
proof -
  obtain c0 where c0: "pc_remove_expired now c = Inr c0" "pc_ok c0" "pc_capacity c0 = pc_capacity c" "pc_age c0 = pc_age c"
    using pc_remove_expired_ok [OF ok(1), of now] by metis
  let ?e = "now + pc_age c"
  have ok1: "pc_ok c1" "pc_age c1 = pc_age c" using pc_insert_ok [OF ok, of now k a] ins by auto
  have "\<exists>d. hm_get (pc_map c1) k = Some d \<and> ac_time a d = Some ?e \<and> \<not> ac_is_expired ?e d"
  proof (cases "hm_get (pc_map c0) k")
    case None
    obtain c2 where "pc_remove_lru c0 = Some (Inr c2)" "pc_age c2 = pc_age c0"
      using pc_remove_lru_ok [OF c0(2)] c0(3) ok(2) by auto
    with c0 None ins show ?thesis by (auto simp: pc_insert_def)
  next
    case (Some d)
    then have "same_kind a d" using pc_remove_expired_kind [OF c0(1) Some, of a] kind by auto
    moreover obtain r d' where r: "ac_insert a ?e d = (r, d')" by fastforce
    ultimately have "ac_time a d' = Some ?e \<and> \<not> ac_is_expired ?e d'" by (rule ac_insert_kind)
    with c0 Some r ins show ?thesis by (auto simp: pc_insert_def)
  qed
  then obtain d where d: "hm_get (pc_map c1) k = Some d" "ac_time a d = Some ?e" "\<not> ac_is_expired now' d"
    using ac_is_expired_mono [OF time(2)] by blast
  obtain c3 d' where "pc_remove_expired now' c1 = Inr c3" "hm_get (pc_map c3) k = Some d'" "ac_time a d' = Some ?e"
    using pc_remove_expired_ok [OF ok1(1), of now'] d time(2) by metis
  then show ?thesis by (auto simp: pc_get_def Let_def)
qed

section \<open>Properties\<close>

text \<open>C22. Any sequence of insertions, lookups and removals on a new cache with a positive
  capacity returns without a panic: every eviction loop ends, no \<^verbatim>\<open>unwrap\<close>, assertion or
  counter subtraction fails.  In the cache it leads to, the order list holds exactly the keys of
  the map, once each, the same holds within every address cache, and the counter is the number
  of stored addresses.\<close>

theorem cache_run_safe:
  assumes "0 < cap"
  shows "\<exists>outs c. run_ops cache_step ops (pc_new cap age) = Inr (outs, c) \<and>
    distinct (pc_list c) \<and> set (pc_list c) = hm_keys (pc_map c) \<and>
    pc_len c = (\<Sum>(k, a) \<leftarrow> pc_map c. ac_len a) \<and>
    (\<forall>(k, a) \<in> set (pc_map c). case a of
       CRemote e \<Rightarrow> distinct (ce_list e) \<and> set (ce_list e) = hm_keys (ce_inner e)
     | CLocal e \<Rightarrow> distinct (ce_list e) \<and> set (ce_list e) = hm_keys (ce_inner e))"
proof -
  have "pc_ok (pc_new cap age) \<and> 0 < pc_capacity (pc_new cap age)" using assms pc_new_ok by simp
  from cache.run_safe [OF this, of ops] obtain outs c where
    c: "run_ops cache_step ops (pc_new cap age) = Inr (outs, c)" "pc_ok c" by auto
  have "ac_ok a" if "(k, a) \<in> set (pc_map c)" for k a
  proof -
    have "hm_get (pc_map c) k = Some a"
      using c(2) that by (simp add: pc_ok_def synced_def hm_ok_def hm_get_def)
    then show ?thesis using c(2) by (simp add: pc_ok_def)
  qed
  then have "\<forall>(k, a) \<in> set (pc_map c). case a of
       CRemote e \<Rightarrow> distinct (ce_list e) \<and> set (ce_list e) = hm_keys (ce_inner e)
     | CLocal e \<Rightarrow> distinct (ce_list e) \<and> set (ce_list e) = hm_keys (ce_inner e)"
    by (fastforce simp: ce_ok_def synced_def split: address_cache.splits)
  with c show ?thesis by (auto simp: pc_ok_def synced_def pc_len_def hm_sum_def)
qed

definition sample_key :: "u8 \<Rightarrow> cache_key" where
  "sample_key b = KRemote (replicate 32 b)"

definition sample_addr :: "u16 \<Rightarrow> address" where
  "sample_addr port = ARemote (SockV4 (10, 0, 0, 1) port)"

theorem cache_run_safe_witness:
  "\<exists>outs c. run_ops cache_step [CInsert 0 (sample_key 1) (sample_addr 80), CInsert 1 (sample_key 2) (sample_addr 81),
       CGet 2 (sample_key 1)] (pc_new 1 50) = Inr (outs, c) \<and> distinct (pc_list c)"
  using cache_run_safe [of 1 "[CInsert 0 (sample_key 1) (sample_addr 80), CInsert 1 (sample_key 2) (sample_addr 81),
       CGet 2 (sample_key 1)]" 50] by auto

text \<open>An address inserted under a key that is not in the cache keeps the cache within its
  capacity, is the only address of its key, and makes the key the most recently used one.\<close>

lemma insert_new_key_bounded:
  assumes ok: "pc_ok c" "0 < pc_capacity c" and new: "hm_get (pc_map c) k = None"
  shows "\<exists>c'. pc_insert now k a c = Inr c' \<and> pc_len c' \<le> pc_capacity c' \<and> pc_capacity c' = pc_capacity c \<and>
    hm_get (pc_map c') k = Some (ac_new a (now + pc_age c)) \<and> last (pc_list c') = k"
proof -
  obtain c1 where c1: "pc_remove_expired now c = Inr c1" "pc_ok c1" "pc_capacity c1 = pc_capacity c" "pc_age c1 = pc_age c"
    using pc_remove_expired_ok [OF ok(1), of now] by metis
  have none: "hm_get (pc_map c1) k = None"
    using pc_remove_expired_kind [OF c1(1), of k _ a] new by (cases "hm_get (pc_map c1) k") auto
  obtain c2 where c2: "pc_remove_lru c1 = Some (Inr c2)" "pc_cnt c2 < pc_capacity c2" "pc_capacity c2 = pc_capacity c1"
    "pc_age c2 = pc_age c1"
    using pc_remove_lru_ok [OF c1(2)] c1(3) ok(2) by auto
  with c1 none show ?thesis by (simp add: pc_insert_def pc_len_def)
qed

lemma insert_new_key_bounded_witness:
  "\<exists>c'. pc_insert 3 (sample_key 1) (sample_addr 80) (pc_new 5 50) = Inr c' \<and> pc_len c' \<le> pc_capacity c'"
  using insert_new_key_bounded [of "pc_new 5 50" "sample_key 1" 3 "sample_addr 80"]
  by (auto simp: pc_new_ok)

text \<open>C25. Insert and look up: an address inserted under a key is found under that key by every
  lookup within the age of the cache, with the expiration time it was given.  (If the key is
  already in the cache, its cache must be for the same kind of address.)\<close>

theorem insert_get:
  assumes ok: "pc_ok c" "0 < pc_capacity c" and kind: "\<forall>d. hm_get (pc_map c) k = Some d \<longrightarrow> same_kind a d"
    and ins: "pc_insert now k a c = Inr c1" and time: "now \<le> now'" "now' \<le> now + pc_age c"
  shows "\<exists>d c2. pc_get now' k c1 = Inr (Some d, c2) \<and> ac_time a d = Some (now + pc_age c)"
  using pc_insert_then_get [OF assms] .

theorem insert_get_witness:
  "\<exists>c1 d c2. pc_insert 3 (sample_key 1) (sample_addr 80) (pc_new 5 50) = Inr c1 \<and>
     pc_get 53 (sample_key 1) c1 = Inr (Some d, c2) \<and> ac_time (sample_addr 80) d = Some 53"
proof -
  obtain c1 where c1: "pc_insert 3 (sample_key 1) (sample_addr 80) (pc_new 5 50) = Inr c1"
    using pc_insert_ok [of "pc_new 5 50" 3 "sample_key 1" "sample_addr 80"] pc_new_ok by auto
  from insert_get [OF _ _ _ c1, of 53] this show ?thesis by (auto simp: pc_new_ok)
qed

lemma remove_lru_capacity:
  assumes "pc_remove_lru c = Some r" and "pc_ok c"
  shows "0 < pc_capacity c"
proof -
  have "pc_ok c \<longrightarrow> 0 < pc_capacity c"
    using assms(1)
  proof (rule pc_remove_lru.raw_induct [rotated])
    fix f c r
    assume IH: "\<And>c r. f c = Some r \<Longrightarrow> pc_ok c \<longrightarrow> 0 < pc_capacity c"
      and body: "(if pc_capacity c \<le> pc_cnt c
        then case pc_list c of
               [] \<Rightarrow> f c
             | key # keys \<Rightarrow>
                 (case hm_get (pc_map c) key of
                    None \<Rightarrow> Some (Inl ExpectFailed)
                  | Some addrs \<Rightarrow>
                      (case ac_remove_lru addrs of (removed, addrs') \<Rightarrow>
                         if removed
                         then (case usize_sub (pc_cnt c) 1 of
                                 Inl e \<Rightarrow> Some (Inl e)
                               | Inr cnt \<Rightarrow> f (c\<lparr>pc_map := hm_insert key addrs' (pc_map c), pc_cnt := cnt\<rparr>))
                         else f (c\<lparr>pc_map := hm_remove key (pc_map c), pc_list := keys\<rparr>)))
        else Some (Inr c)) = Some r"
    show "pc_ok c \<longrightarrow> 0 < pc_capacity c"
    proof (cases "pc_list c")
      case Nil
      then show ?thesis using body IH [of c] by (auto split: if_splits)
    next
      case (Cons k ks)
      show ?thesis
      proof
        assume ok: "pc_ok c"
        from remove_lru_step [OF ok Cons] obtain a r' a' where "hm_get (pc_map c) k = Some a" "ac_remove_lru a = (r', a')"
          "r' \<Longrightarrow> 1 \<le> pc_cnt c \<and> pc_ok (c\<lparr>pc_map := hm_insert k a' (pc_map c), pc_cnt := pc_cnt c - 1\<rparr>)"
          "\<not> r' \<Longrightarrow> pc_ok (c\<lparr>pc_map := hm_remove k (pc_map c), pc_list := ks\<rparr>)" by blast
        with body Cons show "0 < pc_capacity c" by (cases r') (auto dest!: IH split: if_splits)
      qed
    qed
  qed
  with assms(2) show ?thesis by simp
qed

text \<open>C24. When the eviction loop ends.  It returns exactly for caches with a positive capacity, and
  then the cache has room for another address.  With capacity 0 the loop removes everything
  and then runs for ever, so the first insertion into such a cache does not return.\<close>

theorem eviction_terminates:
  assumes "pc_ok c"
  shows "(pc_remove_lru c = None \<longleftrightarrow> pc_capacity c = 0) \<and>
    (0 < pc_capacity c \<longrightarrow> (\<exists>c'. pc_remove_lru c = Some (Inr c') \<and> pc_ok c' \<and> pc_cnt c' < pc_capacity c'))"
  using pc_remove_lru_ok [OF assms] remove_lru_capacity [OF _ assms] by (cases "pc_remove_lru c") auto

theorem eviction_terminates_witness:
  "pc_remove_lru (pc_new 0 50) = None \<and> (\<exists>c'. pc_remove_lru (pc_new 5 50) = Some (Inr c'))"
  using eviction_terminates [of "pc_new 0 50"] eviction_terminates [of "pc_new 5 50"] by (auto simp: pc_new_ok)

text \<open>The capacity does not bound the cache when addresses are added to a key that is
  already there: a cache of capacity 1 holds two addresses after two insertions.\<close>

lemma capacity_exceeded:
  "res_bind (run_ops cache_step [CInsert 0 (sample_key 1) (sample_addr 80), CInsert 1 (sample_key 1) (sample_addr 81)]
      (pc_new 1 50)) (\<lambda>(outs, c). Inr (pc_len c, pc_capacity c)) = Inr (2, 1)"
  by code_simp

text \<open>A lookup can return an address whose time is over: with an age of 10, an address stored
  at time 0 is still returned at time 12, because a lookup at time 6 renewed the key, and at
  time 12 only the first key of the list is checked.\<close>

lemma expired_address_returned:
  "res_bind (run_ops cache_step [CInsert 0 (sample_key 1) (sample_addr 80), CInsert 5 (sample_key 2) (sample_addr 81),
       CGet 6 (sample_key 1)] (pc_new 8 10))
     (\<lambda>(outs, c). res_bind (pc_get 12 (sample_key 1) c) (\<lambda>(r, c'). Inr (map_option (ac_time (sample_addr 80)) r)))
   = Inr (Some (Some 10))"
  by code_simp

end
