(* ===== verification/Dht_Store.thy ===== *)
theory Dht_Store
  imports Dht_Crypto Query_Stream
begin

text \<open>
  The storage of immutable and mutable values, \<^verbatim>\<open>src/src/store.rs\<close>.  \<^verbatim>\<open>LruCache\<close> of the crate
  \<^verbatim>\<open>lru\<close> is a parameter: its functions are the fields of the record \<open>lru_ops\<close> over a state
  type of its own, and \<open>lru_laws\<close> states what its documentation promises: a lookup returns the
  stored value, a put stores the value and returns the former one, and all that may happen to
  another key is that it is evicted.  The protobuf codec of \<^verbatim>\<open>Mutable\<close> is generated by the
  build: \<open>enc\<close> and \<open>dec\<close>.
\<close>

section \<open>Data\<close>

datatype storage_entry = MutableEntry mutable | ImmutableEntry bytes

datatype storage_key = MutableKey bytes | ImmutableKey id_bytes

record 's lru_ops =
  lru_new :: "nat \<Rightarrow> 's"
  lru_get :: "storage_key \<Rightarrow> 's \<Rightarrow> storage_entry option \<times> 's"
  lru_put :: "storage_key \<Rightarrow> storage_entry \<Rightarrow> 's \<Rightarrow> storage_entry option \<times> 's"

record ('s, 'pk, 'sk, 'sig) store_lib =
  sx_lru :: "'s lru_ops"
  sx_blake :: "nat \<Rightarrow> bytes \<Rightarrow> bytes"
  sx_ed :: "('pk, 'sk, 'sig) ed25519"
  sx_enc :: "mutable \<Rightarrow> bytes"
  sx_dec :: "bytes \<Rightarrow> mutable option"

record 's store =
  st_inner :: 's

definition ERR_INVALID_INPUT :: string where
  "ERR_INVALID_INPUT = ''ERR_INVALID_INPUT''"

definition MUTABLE_STORE_CMD :: string where
  "MUTABLE_STORE_CMD = ''mutable-store''"

definition IMMUTABLE_STORE_CMD :: string where
  "IMMUTABLE_STORE_CMD = ''immutable-store''"

definition PEERS_CMD :: string where
  "PEERS_CMD = ''peers''"

definition PUT_VALUE_MAX_SIZE :: nat where
  "PUT_VALUE_MAX_SIZE = VALUE_MAX_SIZE"

fun as_mutable :: "storage_entry \<Rightarrow> mutable option" where
  "as_mutable (MutableEntry m) = Some m"
| "as_mutable (ImmutableEntry _) = None"

fun as_immutable :: "storage_entry \<Rightarrow> bytes option" where
  "as_immutable (ImmutableEntry i) = Some i"
| "as_immutable (MutableEntry _) = None"

section \<open>Operations\<close>

definition store_new :: "('s, 'pk, 'sk, 'sig) store_lib \<Rightarrow> nat \<Rightarrow> 's store" where
  "store_new x cap = \<lparr>st_inner = lru_new (sx_lru x) cap\<rparr>"

definition store_get ::
  "('s, 'pk, 'sk, 'sig) store_lib \<Rightarrow> storage_key \<Rightarrow> 's store \<Rightarrow> storage_entry option \<times> 's store" where
  "store_get x k s = (let (r, i) = lru_get (sx_lru x) k (st_inner s) in (r, s\<lparr>st_inner := i\<rparr>))"

definition store_put ::
  "('s, 'pk, 'sk, 'sig) store_lib \<Rightarrow> storage_key \<Rightarrow> storage_entry \<Rightarrow> 's store \<Rightarrow> storage_entry option \<times> 's store" where
  "store_put x k e s = (let (r, i) = lru_put (sx_lru x) k e (st_inner s) in (r, s\<lparr>st_inner := i\<rparr>))"

definition put_immutable ::
  "('s, 'pk, 'sk, 'sig) store_lib \<Rightarrow> id_bytes \<Rightarrow> bytes \<Rightarrow> 's store \<Rightarrow> bytes option \<times> 's store" where
  "put_immutable x k val s =
     (let (r, s') = store_put x (ImmutableKey k) (ImmutableEntry val) s in (Option.bind r as_immutable, s'))"

definition put_mutable ::
  "('s, 'pk, 'sk, 'sig) store_lib \<Rightarrow> bytes \<Rightarrow> mutable \<Rightarrow> 's store \<Rightarrow> mutable option \<times> 's store" where
  "put_mutable x k val s =
     (let (r, s') = store_put x (MutableKey k) (MutableEntry val) s in (Option.bind r as_mutable, s'))"

definition get_mut_key :: "mutable \<Rightarrow> id_bytes \<Rightarrow> bytes" where
  "get_mut_key m i = (case mut_salt m of Some slt \<Rightarrow> i @ slt | None \<Rightarrow> i)"

definition verify :: "('s, 'pk, 'sk, 'sig) store_lib \<Rightarrow> id_bytes \<Rightarrow> mutable \<Rightarrow> string + unit" where
  "verify x pk m =
     (case ed_public_from (sx_ed x) pk of
        None \<Rightarrow> Inl ERR_INVALID_INPUT
      | Some public_key \<Rightarrow>
          (case signature (sx_ed x) m of
             None \<Rightarrow> Inl ERR_INVALID_INPUT
           | Some sg \<Rightarrow>
               (case signable_mutable m of
                  None \<Rightarrow> Inl ERR_INVALID_INPUT
                | Some msg \<Rightarrow>
                    if crypto_verify (sx_ed x) public_key msg sg then Inr () else Inl ERR_INVALID_INPUT)))"

definition maybe_seq_error :: "mutable \<Rightarrow> mutable \<Rightarrow> string + unit" where
  "maybe_seq_error a b =
     (let seq_a = unwrap_or_default (mut_seq a); seq_b = unwrap_or_default (mut_seq b)
      in if mut_value a \<noteq> None \<and> seq_a = seq_b \<and> mut_value a \<noteq> mut_value b then Inl ''ERR_INVALID_SEQ''
         else if seq_a \<le> seq_b then Inl ''ERR_SEQ_MUST_EXCEED_CURRENT''
         else Inr ())"

definition query_mut ::
  "('s, 'pk, 'sk, 'sig) store_lib \<Rightarrow> command_query \<Rightarrow> mutable \<Rightarrow> 's store \<Rightarrow> command_query_response \<times> 's store" where
  "query_mut x q m s =
     (let (r, s') = store_get x (MutableKey (get_mut_key m (cq_target q))) s
      in case Option.bind r as_mutable of
           Some val \<Rightarrow>
             if unwrap_or_default (mut_seq m) \<le> unwrap_or_default (mut_seq val)
             then (response_from (q\<lparr>cq_value := Some (sx_enc x val)\<rparr>), s')
             else (response_from q, s')
         | None \<Rightarrow> (response_from q, s'))"

definition update_mut ::
  "('s, 'pk, 'sk, 'sig) store_lib \<Rightarrow> command_query \<Rightarrow> mutable \<Rightarrow> 's store \<Rightarrow> command_query_response \<times> 's store" where
  "update_mut x q m s =
     (if mut_value m = None \<or> mut_signature m = None then (response_from q, s)
      else
        let key = MutableKey (get_mut_key m (cq_target q))
        in case verify x (cq_target q) m of
             Inl err \<Rightarrow> (into_response_with_error err q, s)
           | Inr _ \<Rightarrow>
               let (r, s1) = store_get x key s
               in case (case Option.bind r as_mutable of
                          Some loc \<Rightarrow>
                            (case maybe_seq_error m loc of Inl err \<Rightarrow> Some (err, loc) | Inr _ \<Rightarrow> None)
                        | None \<Rightarrow> None) of
                    Some (err, loc) \<Rightarrow>
                      let resp = into_response_with_error err q
                      in (resp\<lparr>cr_msg := (cr_msg resp)\<lparr>msg_value := Some (sx_enc x loc)\<rparr>\<rparr>, s1)
                  | None \<Rightarrow> (response_from q, snd (store_put x key (MutableEntry m) s1)))"

definition store_query ::
  "('s, 'pk, 'sk, 'sig) store_lib \<Rightarrow> command_query \<Rightarrow> 's store \<Rightarrow> command_query_response \<times> 's store" where
  "store_query x q s =
     (let (r, s') = store_get x (ImmutableKey (cq_target q)) s
      in (response_from (q\<lparr>cq_value := Option.bind r as_immutable\<rparr>), s'))"

definition store_update ::
  "('s, 'pk, 'sk, 'sig) store_lib \<Rightarrow> command_query \<Rightarrow> 's store \<Rightarrow> command_query_response \<times> 's store" where
  "store_update x q s =
     (case cq_value q of
        Some val \<Rightarrow>
          let q' = q\<lparr>cq_value := None\<rparr>; key = hash_id (sx_blake x) val
          in if key \<noteq> cq_target q then (into_response_with_error ERR_INVALID_INPUT q', s)
             else (response_from q', snd (store_put x (ImmutableKey key) (ImmutableEntry val) s))
      | None \<Rightarrow> (response_from q, s))"

definition store_on_command ::
  "('s, 'pk, 'sk, 'sig) store_lib \<Rightarrow> command_query \<Rightarrow> 's store \<Rightarrow> (command_query_response \<times> 's store) res" where
  "store_on_command x q s =
     (if cq_command q \<noteq> IMMUTABLE_STORE_CMD then Inl AssertFailed
      else if cq_ty q = TUpdate then Inr (store_update x q s)
      else Inr (store_query x q s))"

definition store_on_command_mut ::
  "('s, 'pk, 'sk, 'sig) store_lib \<Rightarrow> command_query \<Rightarrow> 's store \<Rightarrow> (command_query_response \<times> 's store) res" where
  "store_on_command_mut x q s =
     (if cq_command q \<noteq> MUTABLE_STORE_CMD then Inl AssertFailed
      else let q' = q\<lparr>cq_value := None\<rparr>
           in case Option.bind (cq_value q) (sx_dec x) of
                Some m \<Rightarrow> Inr (if cq_ty q = TUpdate then update_mut x q' m s else query_mut x q' m s)
              | None \<Rightarrow> Inr (into_response_with_error ERR_INVALID_INPUT q', s))"

section \<open>What the cache promises\<close>

text \<open>\<open>good\<close> holds of the caches with a positive capacity, and \<open>view\<close> gives the entries that a
  cache holds.\<close>

locale lru_cache =
  fixes ops :: "'s lru_ops"
    and good :: "'s \<Rightarrow> bool"
    and view :: "'s \<Rightarrow> storage_key \<Rightarrow> storage_entry option"
  assumes new_good: "0 < cap \<Longrightarrow> good (lru_new ops cap)"
    and new_view: "0 < cap \<Longrightarrow> view (lru_new ops cap) k = None"
    and get_law: "good s \<Longrightarrow> lru_get ops k s = (r, s') \<Longrightarrow> r = view s k \<and> good s' \<and> view s' = view s"
    and put_law: "good s \<Longrightarrow> lru_put ops k e s = (r, s') \<Longrightarrow>
      r = view s k \<and> good s' \<and> view s' k = Some e \<and> (k' = k \<or> view s' k' = view s k' \<or> view s' k' = None)"

text \<open>A cache as the documentation of the crate describes it: the entries from the most to the
  least recently used one, at most as many as the capacity.\<close>

type_synonym list_lru = "nat \<times> (storage_key \<times> storage_entry) list"

definition list_lru_get :: "storage_key \<Rightarrow> list_lru \<Rightarrow> storage_entry option \<times> list_lru" where
  "list_lru_get k s =
     (case map_of (snd s) k of
        Some e \<Rightarrow> (Some e, fst s, (k, e) # filter (\<lambda>p. fst p \<noteq> k) (snd s))
      | None \<Rightarrow> (None, s))"

definition list_lru_put :: "storage_key \<Rightarrow> storage_entry \<Rightarrow> list_lru \<Rightarrow> storage_entry option \<times> list_lru" where
  "list_lru_put k e s =
     (map_of (snd s) k, fst s, take (fst s) ((k, e) # filter (\<lambda>p. fst p \<noteq> k) (snd s)))"

definition list_lru :: "list_lru lru_ops" where
  "list_lru = \<lparr>lru_new = (\<lambda>cap. (cap, [])), lru_get = list_lru_get, lru_put = list_lru_put\<rparr>"

lemma map_of_filter_key: "map_of (filter (\<lambda>p. fst p \<noteq> k) xs) k' = (if k' = k then None else map_of xs k')"
  by (induction xs) auto

lemma map_of_take: "map_of (take n xs) k = map_of xs k \<or> map_of (take n xs) k = None"
  by (induction xs arbitrary: n) (auto simp: take_Cons split: nat.splits)

interpretation list_cache: lru_cache list_lru "\<lambda>s. 0 < fst s" "\<lambda>s. map_of (snd s)"
proof
  show "r = map_of (snd s) k \<and> 0 < fst s' \<and> map_of (snd s') = map_of (snd s)"
    if "0 < fst s" "lru_get list_lru k s = (r, s')" for s k r s'
    using that by (auto simp: list_lru_def list_lru_get_def map_of_filter_key fun_eq_iff split: option.splits)
  show "r = map_of (snd s) k \<and> 0 < fst s' \<and> map_of (snd s') k = Some e \<and>
      (k' = k \<or> map_of (snd s') k' = map_of (snd s) k' \<or> map_of (snd s') k' = None)"
    if "0 < fst s" "lru_put list_lru k e s = (r, s')" for s k e r s' k'
    using that map_of_take [of "fst s" "(k, e) # filter (\<lambda>p. fst p \<noteq> k) (snd s)" k']
    by (auto simp: list_lru_def list_lru_put_def map_of_filter_key take_Cons split: nat.splits)
qed (auto simp: list_lru_def)

section \<open>Stored values are authentic\<close>

text \<open>An immutable value is stored under its hash; a mutable one under the public key that its
  signature was checked with, followed by its salt.\<close>

fun entry_ok :: "('s, 'pk, 'sk, 'sig) store_lib \<Rightarrow> storage_key \<Rightarrow> storage_entry \<Rightarrow> bool" where
  "entry_ok x (ImmutableKey i) (ImmutableEntry val) = (hash_id (sx_blake x) val = i)"
| "entry_ok x (MutableKey k) (MutableEntry m) =
     (k = get_mut_key m (take 32 k) \<and> verify x (take 32 k) m = Inr ())"
| "entry_ok x _ _ = False"

lemma entry_ok_MutableKey: "entry_ok x (MutableKey k) e \<Longrightarrow> \<exists>m. e = MutableEntry m"
  by (cases e) auto

lemma entry_ok_ImmutableKey: "entry_ok x (ImmutableKey i) e \<Longrightarrow> \<exists>val. e = ImmutableEntry val \<and> hash_id (sx_blake x) val = i"
  by (cases e) auto

definition store_ok ::
  "('s, 'pk, 'sk, 'sig) store_lib \<Rightarrow> ('s \<Rightarrow> bool) \<Rightarrow> ('s \<Rightarrow> storage_key \<Rightarrow> storage_entry option) \<Rightarrow> 's store \<Rightarrow> bool" where
  "store_ok x good view s \<longleftrightarrow>
     good (st_inner s) \<and> (\<forall>k e. view (st_inner s) k = Some e \<longrightarrow> entry_ok x k e)"

lemma take_get_mut_key: "length i = 32 \<Longrightarrow> take 32 (get_mut_key m i) = i"
  by (simp add: get_mut_key_def split: option.splits)

lemma entry_ok_mutable: "length i = 32 \<Longrightarrow> verify x i m = Inr () \<Longrightarrow> entry_ok x (MutableKey (get_mut_key m i)) (MutableEntry m)"
  by (simp add: take_get_mut_key)

text \<open>The seq number of the mutable value under a key, and how one command may change an entry.\<close>

definition entry_seq :: "storage_entry \<Rightarrow> u64" where
  "entry_seq e = (case as_mutable e of Some m \<Rightarrow> unwrap_or_default (mut_seq m) | None \<Rightarrow> 0)"

definition entry_step :: "storage_entry option \<Rightarrow> storage_entry option \<Rightarrow> bool" where
  "entry_step old new \<longleftrightarrow>
     (case (old, new) of
        (Some (ImmutableEntry a), Some (ImmutableEntry b)) \<Rightarrow> True
      | (Some a, Some b) \<Rightarrow> a = b \<or> entry_seq a < entry_seq b
      | _ \<Rightarrow> True)"

lemma entry_step_same [simp]: "entry_step old old" "entry_step old None" "entry_step None new"
  by (auto simp: entry_step_def split: option.splits storage_entry.splits)

lemma maybe_seq_error_Inr: "maybe_seq_error a b = Inr () \<longleftrightarrow> unwrap_or_default (mut_seq b) < unwrap_or_default (mut_seq a)"
  by (auto simp: maybe_seq_error_def Let_def)

context lru_cache
begin

lemma store_get_view:
  assumes "good (st_inner s)" and "sx_lru x = ops" and "store_get x k s = (r, s')"
  shows "r = view (st_inner s) k" and "good (st_inner s')" and "view (st_inner s') = view (st_inner s)"
  using assms get_law [of "st_inner s" k] by (auto simp: store_get_def Let_def split: prod.splits)

lemma store_put_view:
  assumes "good (st_inner s)" and "sx_lru x = ops" and "store_put x k e s = (r, s')"
  shows "r = view (st_inner s) k" and "good (st_inner s')" and "view (st_inner s') k = Some e"
    and "k' = k \<or> view (st_inner s') k' = view (st_inner s) k' \<or> view (st_inner s') k' = None"
  using assms put_law [of "st_inner s" k e _ _ k'] by (auto simp: store_put_def Let_def split: prod.splits)

lemma store_get_ok:
  assumes "store_ok x good view s" and "sx_lru x = ops" and "store_get x k s = (r, s')"
  shows "store_ok x good view s'"
  using assms store_get_view [OF _ assms(2,3)] by (simp add: store_ok_def)

lemma store_put_ok:
  assumes "store_ok x good view s" and "sx_lru x = ops" and "store_put x k e s = (r, s')" and "entry_ok x k e"
  shows "store_ok x good view s'"
proof -
  have g: "good (st_inner s)" using assms(1) by (simp add: store_ok_def)
  have "entry_ok x k' e'" if "view (st_inner s') k' = Some e'" for k' e'
    using that assms(1,4) store_put_view(3) [OF g assms(2,3)] store_put_view(4) [OF g assms(2,3), of k']
    by (auto simp: store_ok_def)
  then show ?thesis using store_put_view(2) [OF g assms(2,3)] by (simp add: store_ok_def)
qed

end

section \<open>What the commands do\<close>

lemma verify_Inl: "verify x i m = Inl err \<Longrightarrow> err = ERR_INVALID_INPUT"
  by (auto simp: verify_def split: option.splits if_splits)

lemma verify_cases: "verify x i m = Inr () \<or> verify x i m = Inl ERR_INVALID_INPUT"
  using verify_Inl [of x i m] by (cases "verify x i m") auto

text \<open>The mutable value that the store holds for a request.\<close>

definition held :: "('s \<Rightarrow> storage_key \<Rightarrow> storage_entry option) \<Rightarrow> bytes \<Rightarrow> 's store \<Rightarrow> mutable option" where
  "held view k s = Option.bind (view (st_inner s) (MutableKey k)) as_mutable"

definition stored_only ::
  "('s \<Rightarrow> storage_key \<Rightarrow> storage_entry option) \<Rightarrow> storage_key \<Rightarrow> storage_entry \<Rightarrow> 's store \<Rightarrow> 's store \<Rightarrow> bool" where
  "stored_only view k e s s' \<longleftrightarrow>
     view (st_inner s') k = Some e \<and>
     (\<forall>k'. k' = k \<or> view (st_inner s') k' = view (st_inner s) k' \<or> view (st_inner s') k' = None)"

text \<open>What every command keeps: the store stays authentic, and an entry is evicted, stays, or is
  replaced by one with a greater sequence number.\<close>

definition command_keeps :: 
  "('s, 'pk, 'sk, 'sig) store_lib \<Rightarrow> ('s \<Rightarrow> bool) \<Rightarrow> ('s \<Rightarrow> storage_key \<Rightarrow> storage_entry option) \<Rightarrow> 's store \<Rightarrow> 's store \<Rightarrow> bool" where
  "command_keeps x good view s s' \<longleftrightarrow>
     store_ok x good view s' \<and> (\<forall>k. entry_step (view (st_inner s) k) (view (st_inner s') k))"

context lru_cache
begin

lemma store_put_only:
  assumes "good (st_inner s)" and "sx_lru x = ops"
  shows "stored_only view k e s (snd (store_put x k e s))" and "good (st_inner (snd (store_put x k e s)))"
proof -
  obtain r s' where p: "store_put x k e s = (r, s')" by fastforce
  then show "stored_only view k e s (snd (store_put x k e s))" "good (st_inner (snd (store_put x k e s)))"
    using store_put_view [OF assms p] by (auto simp: stored_only_def)
qed

lemma update_mut_rejected:
  assumes "mut_value m \<noteq> None" "mut_signature m \<noteq> None" "verify x (cq_target q) m = Inr ()"
    and "good (st_inner s)" "sx_lru x = ops" and "update_mut x q m s = (resp, s')"
    and "held view (get_mut_key m (cq_target q)) s = Some loc" "maybe_seq_error m loc = Inl err"
  shows "msg_error (cr_msg resp) = Some err \<and> msg_value (cr_msg resp) = Some (sx_enc x loc) \<and>
    good (st_inner s') \<and> view (st_inner s') = view (st_inner s)"
proof -
  obtain r s1 where g: "store_get x (MutableKey (get_mut_key m (cq_target q))) s = (r, s1)" by fastforce
  note v = store_get_view [OF assms(4,5) g]
  show ?thesis using assms g v by (auto simp: update_mut_def Let_def held_def into_response_with_error_def)
qed

lemma update_mut_stored:
  assumes "mut_value m \<noteq> None" "mut_signature m \<noteq> None" "verify x (cq_target q) m = Inr ()"
    and "good (st_inner s)" "sx_lru x = ops" and "update_mut x q m s = (resp, s')"
    and "\<And>loc. held view (get_mut_key m (cq_target q)) s = Some loc \<Longrightarrow> maybe_seq_error m loc = Inr ()"
  shows "resp = response_from q \<and> good (st_inner s') \<and>
    stored_only view (MutableKey (get_mut_key m (cq_target q))) (MutableEntry m) s s'"
proof -
  obtain r s1 where g: "store_get x (MutableKey (get_mut_key m (cq_target q))) s = (r, s1)" by fastforce
  note v = store_get_view [OF assms(4,5) g]
  have "(resp, s') = (response_from q, snd (store_put x (MutableKey (get_mut_key m (cq_target q))) (MutableEntry m) s1))"
    using assms(1-3,6,7) g v(1) by (auto simp: update_mut_def Let_def held_def split: option.splits)
  then show ?thesis
    using store_put_only [OF v(2) assms(5), of "MutableKey (get_mut_key m (cq_target q))" "MutableEntry m"] v(3)
    by (simp add: stored_only_def)
qed

lemma keeps_same_view:
  assumes "store_ok x good view s" "good (st_inner s')" "view (st_inner s') = view (st_inner s)"
  shows "command_keeps x good view s s'"
  using assms by (simp add: command_keeps_def store_ok_def)

lemma keeps_stored:
  assumes "store_ok x good view s" and "good (st_inner s')" and "stored_only view k e s s'"
    and "entry_ok x k e" and "entry_step (view (st_inner s) k) (Some e)"
  shows "command_keeps x good view s s'"
proof -
  have "entry_ok x k' e' \<and> entry_step (view (st_inner s) k') (Some e')" if "view (st_inner s') k' = Some e'" for k' e'
    using that assms(1,3,4,5) unfolding store_ok_def stored_only_def by (metis entry_step_same(1) option.distinct(1) option.inject)
  then show ?thesis using assms(2) by (simp add: command_keeps_def store_ok_def) (metis entry_step_same(2) option.exhaust)
qed

lemma update_mut_keeps:
  assumes ok: "store_ok x good view s" and x: "sx_lru x = ops" and i: "length (cq_target q) = 32"
    and upd: "update_mut x q m s = (resp, s')"
  shows "command_keeps x good view s s'"
proof -
  have good: "good (st_inner s)" using ok by (simp add: store_ok_def)
  let ?k = "get_mut_key m (cq_target q)"
  consider "mut_value m = None \<or> mut_signature m = None \<or> verify x (cq_target q) m \<noteq> Inr ()"
    | loc err where "mut_value m \<noteq> None" "mut_signature m \<noteq> None" "verify x (cq_target q) m = Inr ()"
        "held view ?k s = Some loc" "maybe_seq_error m loc = Inl err"
    | "mut_value m \<noteq> None" "mut_signature m \<noteq> None" "verify x (cq_target q) m = Inr ()"
        "\<And>loc. held view ?k s = Some loc \<Longrightarrow> maybe_seq_error m loc = Inr ()"
    by (metis obj_sumE old.unit.exhaust)
  then show ?thesis
  proof cases
    case 1
    then have "s' = s" using upd verify_cases [of x "cq_target q" m]
      by (auto simp: update_mut_def Let_def split: if_splits)
    then show ?thesis by (simp add: keeps_same_view [OF ok good])
  next
    case 2
    then show ?thesis using update_mut_rejected [OF _ _ _ good x upd] keeps_same_view [OF ok] by blast
  next
    case 3
    then have st: "good (st_inner s')" "stored_only view (MutableKey ?k) (MutableEntry m) s s'"
      using update_mut_stored [OF _ _ _ good x upd] by simp_all
    have "entry_step (view (st_inner s) (MutableKey ?k)) (Some (MutableEntry m))"
    proof (cases "view (st_inner s) (MutableKey ?k)")
      case (Some e)
      then obtain loc where "e = MutableEntry loc" using ok entry_ok_MutableKey unfolding store_ok_def by blast
      then show ?thesis using Some 3(4) [of loc] by (simp add: held_def entry_step_def entry_seq_def maybe_seq_error_Inr)
    qed simp
    then show ?thesis using keeps_stored [OF ok st] entry_ok_mutable [OF i 3(3)] by simp
  qed
qed

end

text \<open>The two callbacks of the DHT as steps on the store.\<close>

datatype store_op = OnCommand command_query | OnCommandMut command_query

fun store_step ::
  "('s, 'pk, 'sk, 'sig) store_lib \<Rightarrow> store_op \<Rightarrow> 's store \<Rightarrow> (command_query_response \<times> 's store) res" where
  "store_step x (OnCommand q) s = store_on_command x q s"
| "store_step x (OnCommandMut q) s = store_on_command_mut x q s"

fun store_adm :: "store_op \<Rightarrow> bool" where
  "store_adm (OnCommand q) = (cq_command q = IMMUTABLE_STORE_CMD \<and> length (cq_target q) = 32)"
| "store_adm (OnCommandMut q) = (cq_command q = MUTABLE_STORE_CMD \<and> length (cq_target q) = 32)"

context lru_cache
begin

lemma query_mut_keeps:
  assumes ok: "store_ok x good view s" and x: "sx_lru x = ops" and q: "query_mut x q m s = (resp, s')"
  shows "command_keeps x good view s s'"
proof -
  obtain r s1 where g: "store_get x (MutableKey (get_mut_key m (cq_target q))) s = (r, s1)" by fastforce
  have "good (st_inner s)" using ok by (simp add: store_ok_def)
  note v = store_get_view [OF this x g]
  have "s' = s1" using q g by (auto simp: query_mut_def Let_def split: option.splits if_splits)
  then show ?thesis using keeps_same_view [OF ok] v by simp
qed

lemma store_query_keeps:
  assumes ok: "store_ok x good view s" and x: "sx_lru x = ops" and q: "store_query x q s = (resp, s')"
  shows "command_keeps x good view s s'"
    and "\<And>val. msg_value (cr_msg resp) = Some val \<Longrightarrow> hash_id (sx_blake x) val = cq_target q"
proof -
  obtain r s1 where g: "store_get x (ImmutableKey (cq_target q)) s = (r, s1)" by fastforce
  have good: "good (st_inner s)" using ok by (simp add: store_ok_def)
  note v = store_get_view [OF good x g]
  have s': "s' = s1" "resp = response_from (q\<lparr>cq_value := Option.bind r as_immutable\<rparr>)"
    using q g by (auto simp: store_query_def)
  then show "command_keeps x good view s s'" using keeps_same_view [OF ok] v by simp
  fix val assume "msg_value (cr_msg resp) = Some val"
  then obtain e where e: "view (st_inner s) (ImmutableKey (cq_target q)) = Some e" "as_immutable e = Some val"
    using s' v(1) by (auto simp: response_from_def bind_eq_Some_conv)
  then show "hash_id (sx_blake x) val = cq_target q"
    using ok entry_ok_ImmutableKey [of x "cq_target q" e] by (auto simp: store_ok_def)
qed

lemma store_update_keeps:
  assumes ok: "store_ok x good view s" and x: "sx_lru x = ops" and q: "store_update x q s = (resp, s')"
  shows "command_keeps x good view s s'"
proof -
  have good: "good (st_inner s)" using ok by (simp add: store_ok_def)
  show ?thesis
  proof (cases "\<exists>val. cq_value q = Some val \<and> hash_id (sx_blake x) val = cq_target q")
    case True
    then obtain val where val: "cq_value q = Some val" "hash_id (sx_blake x) val = cq_target q" by blast
    have "entry_step (view (st_inner s) (ImmutableKey (cq_target q))) (Some (ImmutableEntry val))"
    proof (cases "view (st_inner s) (ImmutableKey (cq_target q))")
      case (Some e)
      then show ?thesis using ok entry_ok_ImmutableKey [of x "cq_target q" e] by (auto simp: store_ok_def entry_step_def)
    qed simp
    moreover have "s' = snd (store_put x (ImmutableKey (cq_target q)) (ImmutableEntry val) s)"
      using val q by (auto simp: store_update_def Let_def)
    ultimately show ?thesis
      using keeps_stored [OF ok] store_put_only [OF good x, of "ImmutableKey (cq_target q)" "ImmutableEntry val"] val by simp
  next
    case False
    then have "s' = s" using q by (auto simp: store_update_def Let_def split: option.splits if_splits)
    then show ?thesis by (simp add: keeps_same_view [OF ok good])
  qed
qed

lemma store_step_keeps:
  assumes ok: "store_ok x good view s" and x: "sx_lru x = ops" and adm: "store_adm op"
  shows "\<exists>resp s'. store_step x op s = Inr (resp, s') \<and> command_keeps x good view s s'"
proof (cases op)
  case (OnCommand q)
  obtain r1 s1 r2 s2 where "store_update x q s = (r1, s1)" "store_query x q s = (r2, s2)" by fastforce
  with OnCommand adm store_update_keeps [OF ok x] store_query_keeps(1) [OF ok x] show ?thesis
    by (auto simp: store_on_command_def)
next
  case (OnCommandMut q)
  show ?thesis
  proof (cases "Option.bind (cq_value q) (sx_dec x)")
    case None
    then show ?thesis using OnCommandMut adm keeps_same_view [OF ok, of s] ok
      by (simp add: store_on_command_mut_def store_ok_def)
  next
    case (Some m)
    let ?q = "q\<lparr>cq_value := None\<rparr>"
    obtain r1 s1 r2 s2 where c: "update_mut x ?q m s = (r1, s1)" "query_mut x ?q m s = (r2, s2)" by fastforce
    have "command_keeps x good view s s1" "command_keeps x good view s s2"
      using update_mut_keeps [OF ok x _ c(1)] query_mut_keeps [OF ok x c(2)] OnCommandMut adm by simp_all
    then show ?thesis using OnCommandMut adm Some c by (auto simp: store_on_command_mut_def Let_def)
  qed
qed

lemma store_steps:
  assumes "sx_lru x = ops"
  shows "safe_steps (store_step x) (store_ok x good view) store_adm"
  using store_step_keeps [OF _ assms] by unfold_locales (metis command_keeps_def)

lemma store_new_ok:
  assumes "sx_lru x = ops" and "0 < cap"
  shows "store_ok x good view (store_new x cap)"
  using assms new_good new_view by (simp add: store_ok_def store_new_def)

end

section \<open>Properties\<close>

text \<open>C32. Stored values are authentic.  On a cache that keeps its promises, no sequence of
  commands from other nodes makes the store panic; after it every immutable value is stored
  under its own hash, every mutable one under the public key its signature was verified with
  (followed by the salt), and a query for an immutable value is answered with a value that
  hashes to the target, or with none.\<close>

theorem store_run_authentic:
  assumes lru: "lru_cache (sx_lru x) good view" and cap: "0 < cap" and adm: "\<forall>op \<in> set ops. store_adm op"
  shows "\<exists>rs s. run_ops (store_step x) ops (store_new x cap) = Inr (rs, s) \<and> length rs = length ops \<and>
    (\<forall>k e. view (st_inner s) k = Some e \<longrightarrow> entry_ok x k e) \<and>
    (\<forall>q val. cq_ty q \<noteq> TUpdate \<longrightarrow> cq_command q = IMMUTABLE_STORE_CMD \<longrightarrow>
       (\<exists>resp s'. store_on_command x q s = Inr (resp, s') \<and>
          (msg_value (cr_msg resp) = Some val \<longrightarrow> hash_id (sx_blake x) val = cq_target q)))"
proof -
  obtain rs s where run: "run_ops (store_step x) ops (store_new x cap) = Inr (rs, s)" "length rs = length ops"
    and ok: "store_ok x good view s"
    using safe_steps.run_safe [OF lru_cache.store_steps [OF lru refl] lru_cache.store_new_ok [OF lru refl cap] adm] by blast
  have "\<exists>resp s'. store_on_command x q s = Inr (resp, s') \<and>
      (msg_value (cr_msg resp) = Some val \<longrightarrow> hash_id (sx_blake x) val = cq_target q)"
    if "cq_ty q \<noteq> TUpdate" "cq_command q = IMMUTABLE_STORE_CMD" for q val
    using that lru_cache.store_query_keeps(2) [OF lru ok refl] by (cases "store_query x q s") (auto simp: store_on_command_def)
  then show ?thesis using run ok by (auto simp: store_ok_def)
qed

text \<open>A library for the witnesses: the list cache, a hash that keeps the first 32 bytes, and
  signatures that append the message to the key.\<close>

definition sample_lib :: "(list_lru, bytes, bytes, bytes) store_lib" where
  "sample_lib =
     \<lparr>sx_lru = list_lru, sx_blake = (\<lambda>n val. take n (val @ replicate n 0)),
      sx_ed = \<lparr>ed_public_from = Some, ed_public_bytes = (\<lambda>pk. pk), ed_sig_from = Some, ed_sig_bytes = (\<lambda>sg. sg),
               ed_sign = (\<lambda>sk msg pk. sk @ msg), ed_verify = (\<lambda>pk msg sg. sg = pk @ msg)\<rparr>,
      sx_enc = (\<lambda>m. []), sx_dec = (\<lambda>b. None)\<rparr>"

lemma sample_lib_cache: "lru_cache (sx_lru sample_lib) (\<lambda>s. 0 < fst s) (\<lambda>s. map_of (snd s))"
  using list_cache.lru_cache_axioms by (simp add: sample_lib_def)

definition sample_put :: command_query where
  "sample_put = \<lparr>cq_rid = 7, cq_ty = TUpdate, cq_command = IMMUTABLE_STORE_CMD,
     cq_peer = peer_from (SockV4 (127, 0, 0, 1) 80), cq_target = 42 # replicate 31 0, cq_value = Some [42]\<rparr>"

theorem store_run_authentic_witness:
  "\<exists>rs s. run_ops (store_step sample_lib) [OnCommand sample_put] (store_new sample_lib 5000) = Inr (rs, s) \<and>
     (\<exists>resp s'. store_on_command sample_lib (sample_put\<lparr>cq_ty := TQuery\<rparr>) s = Inr (resp, s') \<and>
        msg_value (cr_msg resp) = Some [42])"
proof -
  obtain rs s where run: "run_ops (store_step sample_lib) [OnCommand sample_put] (store_new sample_lib 5000) = Inr (rs, s)"
    using store_run_authentic [OF sample_lib_cache, of 5000 "[OnCommand sample_put]"] by (auto simp: sample_put_def)
  have "hash_id (sx_blake sample_lib) [42] = 42 # replicate 31 0"
    by (simp add: sample_lib_def hash_id_def numeral_eq_Suc)
  then have "s = \<lparr>st_inner = (5000, [(ImmutableKey (42 # replicate 31 0), ImmutableEntry [42])])\<rparr>"
    using run by (auto simp: sample_put_def store_on_command_def store_update_def Let_def store_put_def store_new_def
        sample_lib_def list_lru_def list_lru_put_def)
  then show ?thesis
    using run by (auto simp: sample_put_def store_on_command_def store_query_def store_get_def sample_lib_def list_lru_def
        list_lru_get_def response_from_def)
qed


definition sample_mutable :: "u64 \<Rightarrow> mutable" where
  "sample_mutable n =
     \<lparr>mut_value = Some [1], mut_signature = Some (replicate 32 9 @ the (signable [1] None n)), mut_seq = Some n, mut_salt = None\<rparr>"

definition sample_mut_lib :: "(list_lru, bytes, bytes, bytes) store_lib" where
  "sample_mut_lib = sample_lib\<lparr>sx_dec := (\<lambda>b. Some (sample_mutable (of_nat (length b))))\<rparr>"

definition sample_mut_put :: "nat \<Rightarrow> command_query" where
  "sample_mut_put n = sample_put\<lparr>cq_command := MUTABLE_STORE_CMD, cq_target := replicate 32 9, cq_value := Some (replicate n 0)\<rparr>"

text \<open>C34. What an update of a mutable value does.  Without a value or a signature nothing
  happens; when the signature does not verify for the target, the answer is an error and the
  store is as before.  A value with a sequence number that does not exceed the stored one is
  refused with the error that the two values call for, the answer carries the stored value,
  and every entry is as before.  Otherwise the value is stored, and nothing else is.\<close>

theorem update_mut_outcome:
  assumes lru: "lru_cache (sx_lru x) good view" and good: "good (st_inner s)" and upd: "update_mut x q m s = (resp, s')"
  defines "k \<equiv> get_mut_key m (cq_target q)"
  shows "if mut_value m = None \<or> mut_signature m = None then resp = response_from q \<and> s' = s
    else if verify x (cq_target q) m \<noteq> Inr () then resp = into_response_with_error ERR_INVALID_INPUT q \<and> s' = s
    else (case held view k s of
            Some loc \<Rightarrow>
              if unwrap_or_default (mut_seq m) \<le> unwrap_or_default (mut_seq loc) then
                msg_error (cr_msg resp) =
                  Some (if unwrap_or_default (mut_seq m) = unwrap_or_default (mut_seq loc) \<and> mut_value m \<noteq> mut_value loc
                        then ''ERR_INVALID_SEQ'' else ''ERR_SEQ_MUST_EXCEED_CURRENT'') \<and>
                msg_value (cr_msg resp) = Some (sx_enc x loc) \<and> view (st_inner s') = view (st_inner s)
              else resp = response_from q \<and> stored_only view (MutableKey k) (MutableEntry m) s s'
          | None \<Rightarrow> resp = response_from q \<and> stored_only view (MutableKey k) (MutableEntry m) s s')"
proof (cases "mut_value m = None \<or> mut_signature m = None \<or> verify x (cq_target q) m \<noteq> Inr ()")
  case True
  then show ?thesis using upd verify_cases [of x "cq_target q" m] by (auto simp: update_mut_def Let_def split: if_splits)
next
  case False
  note st = lru_cache.update_mut_stored [OF lru _ _ _ good refl upd] and rj = lru_cache.update_mut_rejected [OF lru _ _ _ good refl upd]
  show ?thesis
  proof (cases "held view k s")
    case None
    then show ?thesis using st False by (auto simp: k_def)
  next
    case (Some loc)
    show ?thesis
    proof (cases "maybe_seq_error m loc")
      case (Inl err)
      then have "unwrap_or_default (mut_seq m) \<le> unwrap_or_default (mut_seq loc)"
        "err = (if unwrap_or_default (mut_seq m) = unwrap_or_default (mut_seq loc) \<and> mut_value m \<noteq> mut_value loc
                then ''ERR_INVALID_SEQ'' else ''ERR_SEQ_MUST_EXCEED_CURRENT'')"
        using False by (auto simp: maybe_seq_error_def Let_def split: if_splits)
      then show ?thesis using rj Inl Some False by (auto simp: k_def)
    next
      case (Inr u)
      then show ?thesis using st Some False maybe_seq_error_Inr [of m loc] by (auto simp: k_def)
    qed
  qed
qed

text \<open>Two updates with the sequence numbers 1 and 0: the second one is refused.\<close>

lemma sample_verify: "verify sample_mut_lib (replicate 32 9) (sample_mutable n) = Inr ()"
  by (simp add: verify_def sample_mut_lib_def sample_lib_def sample_mutable_def signature_def signable_mutable_def
      signable_def crypto_verify_def unwrap_or_default_def Let_def)

lemma sample_mut_cache: "lru_cache (sx_lru sample_mut_lib) (\<lambda>s. 0 < fst s) (\<lambda>s. map_of (snd s))"
  using sample_lib_cache by (simp add: sample_mut_lib_def)

lemma sample_target [simp]: "cq_target (sample_mut_put n) = replicate 32 9"
  by (simp add: sample_mut_put_def)

definition sample_store :: "u64 \<Rightarrow> list_lru store" where
  "sample_store n = \<lparr>st_inner = (5000, [(MutableKey (replicate 32 9), MutableEntry (sample_mutable n))])\<rparr>"

lemma sample_update:
  "held (\<lambda>s. map_of (snd s)) (replicate 32 9) (sample_store n) = Some (sample_mutable n)"
  "get_mut_key (sample_mutable n) (replicate 32 9) = replicate 32 9"
  "mut_value (sample_mutable n) = Some [1]" "mut_seq (sample_mutable n) = Some n"
  "mut_signature (sample_mutable n) \<noteq> None"
  by (simp_all add: held_def sample_store_def get_mut_key_def sample_mutable_def)

theorem update_mut_outcome_witness:
  "\<exists>resp s'. update_mut sample_mut_lib (sample_mut_put 0) (sample_mutable 0) (sample_store 1) = (resp, s') \<and>
     msg_error (cr_msg resp) = Some ''ERR_SEQ_MUST_EXCEED_CURRENT'' \<and>
     map_of (snd (st_inner s')) = map_of (snd (st_inner (sample_store 1)))"
proof -
  obtain resp s' where u: "update_mut sample_mut_lib (sample_mut_put 0) (sample_mutable 0) (sample_store 1) = (resp, s')"
    by fastforce
  have "0 < fst (st_inner (sample_store 1))" by (simp add: sample_store_def)
  from update_mut_outcome [OF sample_mut_cache this u] show ?thesis
    using u by (simp add: sample_update sample_verify unwrap_or_default_def)
qed


end
