(* ===== verification/Hyper_Dht.thy ===== *)
theory Hyper_Dht
  imports Rpc_Exchange Peer_Cache Dht_Store
begin

text \<open>
  The top layer, \<^verbatim>\<open>HyperDht\<close> of \<^verbatim>\<open>src/src/lib.rs\<close>: it answers the commands that the node (\<open>Rpc_Dht\<close>)
  hands on, with the value store (\<open>Dht_Store\<close>) and the cache of announced peers (\<open>Peer_Cache\<close>), and
  it collects the responses to its own queries.  The protobuf codecs of \<^verbatim>\<open>PeersInput\<close> and
  \<^verbatim>\<open>PeersOutput\<close> are generated by the build and therefore parameters, fields of \<open>hyper_lib\<close>
  next to the libraries of the node and of the store.
\<close>

section \<open>Data\<close>

record peers_input =
  pi_port :: "u32 option"
  pi_local_address :: "bytes option"
  pi_unannounce :: "bool option"

record peers_output =
  pu_peers :: "bytes option"
  pu_local_peers :: "bytes option"

record ('s, 'pk, 'sk, 'sig) hyper_lib =
  hx_rpc :: rpc_lib
  hx_store :: "('s, 'pk, 'sk, 'sig) store_lib"
  hx_in_enc :: "peers_input \<Rightarrow> bytes"
  hx_in_dec :: "bytes \<Rightarrow> peers_input option"
  hx_out_enc :: "peers_output \<Rightarrow> bytes"
  hx_out_dec :: "bytes \<Rightarrow> peers_output option"

datatype ('pk, 'sk, 'sig) put_key = KeyPair 'pk 'sk | SignatureKey 'pk 'sig

record ('pk, 'sk, 'sig) put_opts =
  po_key :: "('pk, 'sk, 'sig) put_key"
  po_seq :: u64
  po_salt :: "bytes option"

record get_opts =
  go_key :: id_bytes
  go_seq :: u64
  go_salt :: "bytes option"

record query_opts =
  qo_topic :: id_bytes
  qo_port :: "u32 option"
  qo_local_addr :: "socket_addr option"

record 'a peer_response_item =
  ri_peer :: socket_addr
  ri_peer_id :: "id_bytes option"
  ri_value :: 'a

record 'a get_result =
  gr_key :: id_bytes
  gr_responses :: "'a peer_response_item list"
  gr_query_id :: u64

record peers_found =
  pf_node :: socket_addr
  pf_peer_id :: "id_bytes option"
  pf_peers :: "socket_addr list"
  pf_local_peers :: "socket_addr list"

record lookup_result =
  lk_topic :: id_bytes
  lk_peers :: "peers_found list"

record query_stream_inner =
  qi_topic :: id_bytes
  qi_responses :: "peers_found list"
  qi_local_address :: "socket_addr option"

datatype ('pk, 'sk, 'sig) query_stream_type =
    QLookUp query_stream_inner
  | QAnnounce query_stream_inner
  | QUnAnnounce query_stream_inner
  | QPutImmutable u64 id_bytes
  | QPutMutable u64 "('pk, 'sk, 'sig) put_opts"
  | QGetImmutable "bytes get_result"
  | QGetMutable "mutable get_result" mutable

datatype ('pk, 'sk, 'sig) hyper_event =
    HBootstrapped query_stats
  | AnnounceResult "peers_found list" id_bytes u64
  | LookupResult lookup_result u64
  | UnAnnounceResult "peers_found list" id_bytes u64
  | PutImmutableResult id_bytes u64
  | PutMutableResult "('pk, 'sk, 'sig) put_opts" u64
  | GetImmutableResult "bytes get_result"
  | GetMutableResult "mutable get_result"
  | CustomCommandQuery string message peer

record ('s, 'pk, 'sk, 'sig) hyper_dht =
  hd_inner :: rpc_dht
  hd_queries :: "(u64, ('pk, 'sk, 'sig) query_stream_type) hmap"
  hd_adaptive :: bool
  hd_peers :: peer_cache
  hd_store :: "'s store"
  hd_queued_events :: "('pk, 'sk, 'sig) hyper_event list"

text \<open>The readings of the clock in one callback, besides those of the node.\<close>

record hyper_env =
  he_rpc :: rpc_env
  he_get_local :: instant
  he_get_remote :: instant
  he_insert_remote :: instant
  he_insert_local :: instant

definition DEFAULT_BOOTSTRAP :: "string list" where
  "DEFAULT_BOOTSTRAP = [''bootstrap1.hyperdht.org:49737'', ''bootstrap2.hyperdht.org:49737'', ''bootstrap3.hyperdht.org:49737'']"

section \<open>Options\<close>

definition put_opts_new :: "('pk, 'sk, 'sig) put_key \<Rightarrow> ('pk, 'sk, 'sig) put_opts" where
  "put_opts_new k = \<lparr>po_key = k, po_seq = 0, po_salt = None\<rparr>"

definition put_mutable_of ::
  "('pk, 'sk, 'sig) ed25519 \<Rightarrow> bytes \<Rightarrow> ('pk, 'sk, 'sig) put_opts \<Rightarrow> mutable res" where
  "put_mutable_of ed val opts =
     res_bind (case po_key opts of
                 KeyPair pk sk \<Rightarrow> res_bind (sign ed pk sk val (po_salt opts) (po_seq opts)) (\<lambda>sg. Inr (ed_sig_bytes ed sg))
               | SignatureKey _ sg \<Rightarrow> Inr (ed_sig_bytes ed sg)) (\<lambda>sg.
       Inr \<lparr>mut_value = Some val, mut_signature = Some sg, mut_seq = Some (po_seq opts), mut_salt = po_salt opts\<rparr>)"

definition put_id :: "('pk, 'sk, 'sig) ed25519 \<Rightarrow> ('pk, 'sk, 'sig) put_opts \<Rightarrow> id_bytes" where
  "put_id ed opts = ed_public_bytes ed (case po_key opts of KeyPair pk _ \<Rightarrow> pk | SignatureKey pk _ \<Rightarrow> pk)"

definition with_keypair :: "'pk \<Rightarrow> 'sk \<Rightarrow> ('pk, 'sk, 'sig) put_opts" where
  "with_keypair pk sk = \<lparr>po_key = KeyPair pk sk, po_seq = 0, po_salt = None\<rparr>"

definition with_pk_and_signature :: "'pk \<Rightarrow> 'sig \<Rightarrow> ('pk, 'sk, 'sig) put_opts" where
  "with_pk_and_signature pk sg = \<lparr>po_key = SignatureKey pk sg, po_seq = 0, po_salt = None\<rparr>"

definition put_seq :: "u64 \<Rightarrow> ('pk, 'sk, 'sig) put_opts \<Rightarrow> ('pk, 'sk, 'sig) put_opts" where
  "put_seq n opts = opts\<lparr>po_seq := n\<rparr>"

definition put_salt :: "bytes \<Rightarrow> ('pk, 'sk, 'sig) put_opts \<Rightarrow> ('pk, 'sk, 'sig) put_opts" where
  "put_salt slt opts = opts\<lparr>po_salt := Some slt\<rparr>"

definition get_opts_new :: "id_bytes \<Rightarrow> get_opts" where
  "get_opts_new k = \<lparr>go_key = k, go_seq = 0, go_salt = None\<rparr>"

definition get_with_seq :: "id_bytes \<Rightarrow> u64 \<Rightarrow> get_opts" where
  "get_with_seq k n = \<lparr>go_key = k, go_seq = n, go_salt = None\<rparr>"

definition get_seq :: "u64 \<Rightarrow> get_opts \<Rightarrow> get_opts" where
  "get_seq n opts = opts\<lparr>go_seq := n\<rparr>"

definition get_salt :: "bytes \<Rightarrow> get_opts \<Rightarrow> get_opts" where
  "get_salt slt opts = opts\<lparr>go_salt := Some slt\<rparr>"

definition get_opts_from :: "id_bytes \<Rightarrow> get_opts" where
  "get_opts_from k = get_opts_new k"

definition query_opts_new :: "id_bytes \<Rightarrow> query_opts" where
  "query_opts_new topic = \<lparr>qo_topic = topic, qo_port = None, qo_local_addr = None\<rparr>"

definition with_port :: "id_bytes \<Rightarrow> u32 \<Rightarrow> query_opts" where
  "with_port topic port = \<lparr>qo_topic = topic, qo_port = Some port, qo_local_addr = None\<rparr>"

definition set_port :: "u32 \<Rightarrow> query_opts \<Rightarrow> query_opts" where
  "set_port port opts = opts\<lparr>qo_port := Some port\<rparr>"

definition local_addr_encoded :: "query_opts \<Rightarrow> bytes option" where
  "local_addr_encoded opts = map_option encode_addr (qo_local_addr opts)"

definition set_local_addr :: "('a \<Rightarrow> socket_addr list option) \<Rightarrow> 'a \<Rightarrow> query_opts \<Rightarrow> query_opts" where
  "set_local_addr resolve a opts =
     opts\<lparr>qo_local_addr := (case resolve a of Some (s # _) \<Rightarrow> Some s | _ \<Rightarrow> None)\<rparr>"

definition query_opts_try_from :: "bytes \<Rightarrow> query_opts option" where
  "query_opts_try_from val = map_option query_opts_new (id_bytes_try_from val)"

definition query_opts_from :: "id_bytes \<Rightarrow> query_opts" where
  "query_opts_from topic = \<lparr>qo_topic = topic, qo_port = None, qo_local_addr = None\<rparr>"

definition query_opts_from_key :: "('pk, 'sk, 'sig) ed25519 \<Rightarrow> 'pk \<Rightarrow> query_opts" where
  "query_opts_from_key ed pk = \<lparr>qo_topic = ed_public_bytes ed pk, qo_port = None, qo_local_addr = None\<rparr>"

definition query_opts_from_digest :: "bytes \<Rightarrow> query_opts res" where
  "query_opts_from_digest digest =
     res_bind (expect (id_bytes_try_from digest)) (\<lambda>topic. Inr \<lparr>qo_topic = topic, qo_port = None, qo_local_addr = None\<rparr>)"

section \<open>Results\<close>

definition get_result_new :: "id_bytes \<Rightarrow> u64 \<Rightarrow> 'a get_result" where
  "get_result_new k i = \<lparr>gr_key = k, gr_responses = [], gr_query_id = i\<rparr>"

definition gr_values :: "'a get_result \<Rightarrow> 'a list" where
  "gr_values g = map ri_value (gr_responses g)"

definition gr_len :: "'a get_result \<Rightarrow> nat" where
  "gr_len g = length (gr_responses g)"

definition gr_is_empty :: "'a get_result \<Rightarrow> bool" where
  "gr_is_empty g \<longleftrightarrow> gr_responses g = []"

definition lk_origins :: "lookup_result \<Rightarrow> (socket_addr \<times> id_bytes option) list" where
  "lk_origins l = map (\<lambda>p. (pf_node p, pf_peer_id p)) (lk_peers l)"

definition lk_remotes :: "lookup_result \<Rightarrow> socket_addr list" where
  "lk_remotes l = concat (map pf_peers (lk_peers l))"

definition lk_locals :: "lookup_result \<Rightarrow> socket_addr list" where
  "lk_locals l = concat (map pf_local_peers (lk_peers l))"

definition lk_all_peers :: "lookup_result \<Rightarrow> socket_addr list" where
  "lk_all_peers l = concat (map (\<lambda>p. pf_peers p @ pf_local_peers p) (lk_peers l))"

definition lk_len :: "lookup_result \<Rightarrow> nat" where
  "lk_len l = length (lk_peers l)"

definition lk_is_empty :: "lookup_result \<Rightarrow> bool" where
  "lk_is_empty l \<longleftrightarrow> lk_peers l = []"

fun finalize :: "u64 \<Rightarrow> ('pk, 'sk, 'sig) query_stream_type \<Rightarrow> ('pk, 'sk, 'sig) hyper_event" where
  "finalize i (QLookUp inner) = LookupResult \<lparr>lk_topic = qi_topic inner, lk_peers = qi_responses inner\<rparr> i"
| "finalize i (QAnnounce inner) = AnnounceResult (qi_responses inner) (qi_topic inner) i"
| "finalize i (QUnAnnounce inner) = UnAnnounceResult (qi_responses inner) (qi_topic inner) i"
| "finalize i (QPutImmutable j k) = PutImmutableResult k j"
| "finalize i (QGetImmutable g) = GetImmutableResult g"
| "finalize i (QGetMutable g _) = GetMutableResult g"
| "finalize i (QPutMutable j opts) = PutMutableResult opts j"

definition inner_new :: "id_bytes \<Rightarrow> socket_addr option \<Rightarrow> query_stream_inner" where
  "inner_new topic local = \<lparr>qi_topic = topic, qi_responses = [], qi_local_address = local\<rparr>"

definition inner_inject_response ::
  "('s, 'pk, 'sk, 'sig) hyper_lib \<Rightarrow> response \<Rightarrow> query_stream_inner \<Rightarrow> query_stream_inner res" where
  "inner_inject_response x resp q =
     (case Option.bind (rs_value resp) (hx_out_dec x) of
        None \<Rightarrow> Inr q
      | Some val \<Rightarrow>
          let peers = (case pu_peers val of Some buf \<Rightarrow> decode_peers buf | None \<Rightarrow> [])
          in res_bind (case pu_local_peers val of
                         Some buf \<Rightarrow>
                           (case qi_local_address q of
                              Some (SockV4 ip _) \<Rightarrow> decode_local_peers ip buf
                            | _ \<Rightarrow> Inr [])
                       | None \<Rightarrow> Inr []) (\<lambda>local_peers.
               Inr (if peers = [] \<and> local_peers = [] then q
                    else q\<lparr>qi_responses := qi_responses q @
                             [\<lparr>pf_node = rs_peer resp, pf_peer_id = rs_peer_id resp, pf_peers = peers,
                               pf_local_peers = local_peers\<rparr>]\<rparr>)))"

section \<open>Commands of other nodes\<close>

definition hyper_with_config ::
  "('s, 'pk, 'sk, 'sig) hyper_lib \<Rightarrow> (string \<Rightarrow> socket_addr list option) \<Rightarrow> rpc_env \<Rightarrow> bytes \<Rightarrow> bytes \<Rightarrow> u64 \<Rightarrow> id_bytes
     \<Rightarrow> instant \<Rightarrow> dht_config \<Rightarrow> ('s, 'pk, 'sk, 'sig) hyper_dht res" where
  "hyper_with_config x resolve e k1 k2 first random_id now config =
     (let c1 = register_commands [MUTABLE_STORE_CMD, IMMUTABLE_STORE_CMD, PEERS_CMD] config;
          c2 = (if dc_bootstrap_nodes c1 = None then set_bootstrap_nodes resolve DEFAULT_BOOTSTRAP c1 else c1)
      in res_bind (with_config (hx_rpc x) e k1 k2 first random_id now c2) (\<lambda>d.
           Inr \<lparr>hd_inner = d, hd_queries = [], hd_adaptive = dc_adaptive c2, hd_peers = pc_new 65536 (60 * 25 * 1000),
                hd_store = store_new (hx_store x) 5000, hd_queued_events = []\<rparr>))"

definition push_hyper_event ::
  "('pk, 'sk, 'sig) hyper_event \<Rightarrow> ('s, 'pk, 'sk, 'sig) hyper_dht \<Rightarrow> ('s, 'pk, 'sk, 'sig) hyper_dht" where
  "push_hyper_event ev h = h\<lparr>hd_queued_events := hd_queued_events h @ [ev]\<rparr>"

definition hyper_reply ::
  "('s, 'pk, 'sk, 'sig) hyper_lib \<Rightarrow> hyper_env \<Rightarrow> command_query_response \<Rightarrow> ('s, 'pk, 'sk, 'sig) hyper_dht
     \<Rightarrow> ('s, 'pk, 'sk, 'sig) hyper_dht res" where
  "hyper_reply x e resp h =
     res_bind (reply_command (hx_rpc x) (he_rpc e) resp (hd_inner h)) (\<lambda>d. Inr (h\<lparr>hd_inner := d\<rparr>))"

definition addr_port :: "socket_addr \<Rightarrow> u16" where
  "addr_port a = (case a of SockV4 _ p \<Rightarrow> p | SockV6 _ p _ _ \<Rightarrow> p)"

definition announced_port :: "peers_input \<Rightarrow> socket_addr \<Rightarrow> u16" where
  "announced_port p a =
     (case pi_port p of
        Some n \<Rightarrow> if unat n < 2 ^ 16 then ucast n else addr_port a
      | None \<Rightarrow> addr_port a)"

text \<open>The key of the cache of LAN peers and the four bytes stored there.\<close>

definition local_cache :: "id_bytes \<Rightarrow> peers_input \<Rightarrow> (cache_key \<times> local_addr) option" where
  "local_cache topic p =
     Option.bind (pi_local_address p) (\<lambda>l.
       if length l = 6 then Some (KLocal topic (l ! 0, l ! 1), (l ! 2, l ! 3, l ! 4, l ! 5)) else None)"

fun local_bytes :: "local_addr \<Rightarrow> bytes" where
  "local_bytes (a, b, c, d) = [a, b, c, d]"

definition query_locals ::
  "instant \<Rightarrow> (cache_key \<times> local_addr) option \<Rightarrow> peer_cache \<Rightarrow> (bytes option \<times> peer_cache) res" where
  "query_locals now lc c =
     (case lc of
        Some (k, suffix) \<Rightarrow>
          res_bind (pc_get now k c) (\<lambda>(addrs, c').
            Inr (Option.bind addrs (\<lambda>a. map_option (\<lambda>ls. take 32 (concat (map local_bytes (filter (\<lambda>s. s \<noteq> suffix) ls)))) (iter_locals a)), c'))
      | None \<Rightarrow> Inr (None, c))"

definition query_remotes ::
  "instant \<Rightarrow> cache_key \<Rightarrow> socket_addr \<Rightarrow> bytes option \<Rightarrow> peer_cache \<Rightarrow> (bytes option \<times> peer_cache) res" where
  "query_remotes now k from local_peers c =
     res_bind (pc_get now k c) (\<lambda>(addrs, c').
       case Option.bind addrs iter_remotes of
         Some rs \<Rightarrow>
           res_bind (usize_sub 128 (case local_peers of Some l \<Rightarrow> length l | None \<Rightarrow> 0)) (\<lambda>m.
             let num = min (length rs) m
             in Inr (Some (concat (map encode_addr (take num (filter (\<lambda>a. a \<noteq> from) rs)))), c'))
       | None \<Rightarrow> Inr (None, c'))"

definition on_peers ::
  "('s, 'pk, 'sk, 'sig) hyper_lib \<Rightarrow> hyper_env \<Rightarrow> command_query \<Rightarrow> ('s, 'pk, 'sk, 'sig) hyper_dht
     \<Rightarrow> ('s, 'pk, 'sk, 'sig) hyper_dht res" where
  "on_peers x e q h =
     (case Option.bind (cq_value q) (hx_in_dec x) of
        None \<Rightarrow> Inr h
      | Some p \<Rightarrow>
          (case peer_addr (cq_peer q) of
             SockV6 _ _ _ _ \<Rightarrow> hyper_reply x e (response_from (q\<lparr>cq_value := None\<rparr>)) h
           | SockV4 host _ \<Rightarrow>
               let from = SockV4 host (announced_port p (peer_addr (cq_peer q)));
                   remote = KRemote (cq_target q);
                   lc = local_cache (cq_target q) p
               in if cq_ty q = TQuery then
                    res_bind (query_locals (he_get_local e) lc (hd_peers h)) (\<lambda>(local_peers, c1).
                    res_bind (query_remotes (he_get_remote e) remote from local_peers c1) (\<lambda>(peers, c2).
                      hyper_reply x e
                        (response_from (q\<lparr>cq_value := Some (hx_out_enc x \<lparr>pu_peers = peers, pu_local_peers = local_peers\<rparr>)\<rparr>))
                        (h\<lparr>hd_peers := c2\<rparr>)))
                  else
                    res_bind (if (case pi_unannounce p of Some b \<Rightarrow> b | None \<Rightarrow> False) then
                                res_bind (pc_remove_addr remote (ARemote from) (hd_peers h)) (\<lambda>(_, c1).
                                  case lc of
                                    Some (k, suffix) \<Rightarrow> res_bind (pc_remove_addr k (ALocal suffix) c1) (\<lambda>(_, c2). Inr c2)
                                  | None \<Rightarrow> Inr c1)
                              else
                                res_bind (pc_insert (he_insert_remote e) remote (ARemote from) (hd_peers h)) (\<lambda>c1.
                                  case lc of
                                    Some (k, suffix) \<Rightarrow> pc_insert (he_insert_local e) k (ALocal suffix) c1
                                  | None \<Rightarrow> Inr c1)) (\<lambda>c.
                      hyper_reply x e (response_from (q\<lparr>cq_value := None\<rparr>)) (h\<lparr>hd_peers := c\<rparr>))))"

definition on_command ::
  "('s, 'pk, 'sk, 'sig) hyper_lib \<Rightarrow> hyper_env \<Rightarrow> command_query \<Rightarrow> ('s, 'pk, 'sk, 'sig) hyper_dht
     \<Rightarrow> ('s, 'pk, 'sk, 'sig) hyper_dht res" where
  "on_command x e q h =
     (if cq_command q = MUTABLE_STORE_CMD then
        res_bind (store_on_command_mut (hx_store x) q (hd_store h)) (\<lambda>(resp, s). hyper_reply x e resp (h\<lparr>hd_store := s\<rparr>))
      else if cq_command q = IMMUTABLE_STORE_CMD then
        res_bind (store_on_command (hx_store x) q (hd_store h)) (\<lambda>(resp, s). hyper_reply x e resp (h\<lparr>hd_store := s\<rparr>))
      else if cq_command q = PEERS_CMD then on_peers x e q h
      else
        let resp = response_from q
        in Inr (push_hyper_event (CustomCommandQuery (cq_command q) (cr_msg resp) (cr_peer resp)) h))"

section \<open>Calls\<close>

definition start_query ::
  "('s, 'pk, 'sk, 'sig) hyper_lib \<Rightarrow> rpc_env \<Rightarrow> string \<Rightarrow> id_bytes \<Rightarrow> bytes option \<Rightarrow> query_type
     \<Rightarrow> (u64 \<Rightarrow> ('pk, 'sk, 'sig) query_stream_type) \<Rightarrow> ('s, 'pk, 'sk, 'sig) hyper_dht
     \<Rightarrow> (u64 \<times> ('s, 'pk, 'sk, 'sig) hyper_dht) res" where
  "start_query x e cmd key val ty f h =
     res_bind (run_command (hx_rpc x) e (command_from cmd) (id_key (hx_rpc x) key) val ty (hd_inner h)) (\<lambda>(i, d).
       Inr (i, h\<lparr>hd_inner := d, hd_queries := hm_insert i (f i) (hd_queries h)\<rparr>))"

definition get_immutable ::
  "('s, 'pk, 'sk, 'sig) hyper_lib \<Rightarrow> rpc_env \<Rightarrow> id_bytes \<Rightarrow> ('s, 'pk, 'sk, 'sig) hyper_dht
     \<Rightarrow> ((u64 + id_bytes \<times> bytes) \<times> ('s, 'pk, 'sk, 'sig) hyper_dht) res" where
  "get_immutable x e key h =
     (let (r, s) = store_get (hx_store x) (ImmutableKey key) (hd_store h); h' = h\<lparr>hd_store := s\<rparr>
      in case Option.bind r as_immutable of
           Some val \<Rightarrow> Inr (Inr (key, val), h')
         | None \<Rightarrow>
             res_bind (start_query x e IMMUTABLE_STORE_CMD key None QTQuery (\<lambda>i. QGetImmutable (get_result_new key i)) h') (\<lambda>(i, h'').
               Inr (Inl i, h'')))"

definition get_mutable ::
  "('s, 'pk, 'sk, 'sig) hyper_lib \<Rightarrow> rpc_env \<Rightarrow> get_opts \<Rightarrow> ('s, 'pk, 'sk, 'sig) hyper_dht
     \<Rightarrow> (u64 \<times> ('s, 'pk, 'sk, 'sig) hyper_dht) res" where
  "get_mutable x e g h =
     (if (case go_salt g of Some slt \<Rightarrow> 64 < length slt | None \<Rightarrow> False) then Inl AssertFailed
      else
        let val = \<lparr>mut_value = None, mut_signature = None, mut_seq = Some (go_seq g), mut_salt = go_salt g\<rparr>
        in start_query x e MUTABLE_STORE_CMD (go_key g) (Some (sx_enc (hx_store x) val)) QTQuery
             (\<lambda>i. QGetMutable (get_result_new (go_key g) i) val) h)"

definition hyper_put_immutable ::
  "('s, 'pk, 'sk, 'sig) hyper_lib \<Rightarrow> rpc_env \<Rightarrow> bytes \<Rightarrow> ('s, 'pk, 'sk, 'sig) hyper_dht
     \<Rightarrow> (u64 \<times> ('s, 'pk, 'sk, 'sig) hyper_dht) res" where
  "hyper_put_immutable x e val h =
     (if PUT_VALUE_MAX_SIZE < length val then Inl AssertFailed
      else
        let key = hash_id (sx_blake (hx_store x)) val; (_, s) = put_immutable (hx_store x) key val (hd_store h)
        in start_query x e IMMUTABLE_STORE_CMD key (Some val) QTUpdate (\<lambda>i. QPutImmutable i key) (h\<lparr>hd_store := s\<rparr>))"

definition hyper_put_mutable ::
  "('s, 'pk, 'sk, 'sig) hyper_lib \<Rightarrow> rpc_env \<Rightarrow> bytes \<Rightarrow> ('pk, 'sk, 'sig) put_opts \<Rightarrow> ('s, 'pk, 'sk, 'sig) hyper_dht
     \<Rightarrow> (u64 \<times> ('s, 'pk, 'sk, 'sig) hyper_dht) res" where
  "hyper_put_mutable x e val opts h =
     (if PUT_VALUE_MAX_SIZE < length val then Inl AssertFailed
      else
        res_bind (put_mutable_of (sx_ed (hx_store x)) val opts) (\<lambda>m.
          let key = put_id (sx_ed (hx_store x)) opts;
              (_, s) = put_mutable (hx_store x) (get_mut_key m key) m (hd_store h)
          in start_query x e MUTABLE_STORE_CMD key (Some (sx_enc (hx_store x) m)) QTUpdate (\<lambda>i. QPutMutable i opts)
               (h\<lparr>hd_store := s\<rparr>)))"

definition peers_payload :: "('s, 'pk, 'sk, 'sig) hyper_lib \<Rightarrow> bool option \<Rightarrow> query_opts \<Rightarrow> bytes" where
  "peers_payload x un opts =
     hx_in_enc x \<lparr>pi_port = qo_port opts, pi_local_address = local_addr_encoded opts, pi_unannounce = un\<rparr>"

definition lookup ::
  "('s, 'pk, 'sk, 'sig) hyper_lib \<Rightarrow> rpc_env \<Rightarrow> query_opts \<Rightarrow> ('s, 'pk, 'sk, 'sig) hyper_dht
     \<Rightarrow> (u64 \<times> ('s, 'pk, 'sk, 'sig) hyper_dht) res" where
  "lookup x e opts h =
     start_query x e PEERS_CMD (qo_topic opts) (Some (peers_payload x None opts)) QTQuery
       (\<lambda>_. QLookUp (inner_new (qo_topic opts) (qo_local_addr opts))) h"

definition announce ::
  "('s, 'pk, 'sk, 'sig) hyper_lib \<Rightarrow> rpc_env \<Rightarrow> query_opts \<Rightarrow> ('s, 'pk, 'sk, 'sig) hyper_dht
     \<Rightarrow> (u64 \<times> ('s, 'pk, 'sk, 'sig) hyper_dht) res" where
  "announce x e opts h =
     start_query x e PEERS_CMD (qo_topic opts) (Some (peers_payload x None opts)) QTQueryUpdate
       (\<lambda>_. QAnnounce (inner_new (qo_topic opts) (qo_local_addr opts))) h"

definition unannounce ::
  "('s, 'pk, 'sk, 'sig) hyper_lib \<Rightarrow> rpc_env \<Rightarrow> query_opts \<Rightarrow> ('s, 'pk, 'sk, 'sig) hyper_dht
     \<Rightarrow> (u64 \<times> ('s, 'pk, 'sk, 'sig) hyper_dht) res" where
  "unannounce x e opts h =
     start_query x e PEERS_CMD (qo_topic opts) (Some (peers_payload x (Some True) opts)) QTUpdate
       (\<lambda>_. QUnAnnounce (inner_new (qo_topic opts) (qo_local_addr opts))) h"

section \<open>Responses and polling\<close>

definition set_query ::
  "u64 \<Rightarrow> ('pk, 'sk, 'sig) query_stream_type \<Rightarrow> ('s, 'pk, 'sk, 'sig) hyper_dht \<Rightarrow> ('s, 'pk, 'sk, 'sig) hyper_dht" where
  "set_query i q h = h\<lparr>hd_queries := hm_insert i q (hd_queries h)\<rparr>"

definition push_response :: "response \<Rightarrow> 'a \<Rightarrow> 'a get_result \<Rightarrow> 'a get_result" where
  "push_response resp val g =
     g\<lparr>gr_responses := gr_responses g @ [\<lparr>ri_peer = rs_peer resp, ri_peer_id = rs_peer_id resp, ri_value = val\<rparr>]\<rparr>"

definition hyper_inject_response ::
  "('s, 'pk, 'sk, 'sig) hyper_lib \<Rightarrow> response \<Rightarrow> ('s, 'pk, 'sk, 'sig) hyper_dht \<Rightarrow> ('s, 'pk, 'sk, 'sig) hyper_dht res" where
  "hyper_inject_response x resp h =
     (case hm_get (hd_queries h) (rs_query resp) of
        None \<Rightarrow> Inr h
      | Some q \<Rightarrow>
          (case q of
             QLookUp inner \<Rightarrow> res_bind (inner_inject_response x resp inner) (\<lambda>inner'. Inr (set_query (rs_query resp) (QLookUp inner') h))
           | QAnnounce inner \<Rightarrow> res_bind (inner_inject_response x resp inner) (\<lambda>inner'. Inr (set_query (rs_query resp) (QAnnounce inner') h))
           | QUnAnnounce inner \<Rightarrow> res_bind (inner_inject_response x resp inner) (\<lambda>inner'. Inr (set_query (rs_query resp) (QUnAnnounce inner') h))
           | QGetImmutable g \<Rightarrow>
               (case rs_value resp of
                  None \<Rightarrow> Inr h
                | Some val \<Rightarrow>
                    let key = hash_id (sx_blake (hx_store x)) val
                    in if gr_key g = key then
                         let (_, s) = put_immutable (hx_store x) key val (hd_store h)
                         in Inr (set_query (rs_query resp) (QGetImmutable (push_response resp val g)) (h\<lparr>hd_store := s\<rparr>))
                       else Inr h)
           | QGetMutable g m \<Rightarrow>
               (case Option.bind (rs_value resp) (sx_dec (hx_store x)) of
                  None \<Rightarrow> Inr h
                | Some result \<Rightarrow>
                    if unwrap_or_default (mut_seq m) \<le> unwrap_or_default (mut_seq result) \<and>
                       verify (hx_store x) (gr_key g) result = Inr () then
                      let (_, s) = put_mutable (hx_store x) (get_mut_key result (gr_key g)) result (hd_store h)
                      in Inr (set_query (rs_query resp) (QGetMutable (push_response resp result g) m) (h\<lparr>hd_store := s\<rparr>))
                    else Inr h)
           | _ \<Rightarrow> Inr h))"

definition hyper_query_finished :: "u64 \<Rightarrow> ('s, 'pk, 'sk, 'sig) hyper_dht \<Rightarrow> ('s, 'pk, 'sk, 'sig) hyper_dht" where
  "hyper_query_finished i h =
     (case hm_get (hd_queries h) i of
        Some q \<Rightarrow> push_hyper_event (finalize i q) (h\<lparr>hd_queries := hm_remove i (hd_queries h)\<rparr>)
      | None \<Rightarrow> h)"

definition pop_hyper_event ::
  "('s, 'pk, 'sk, 'sig) hyper_dht \<Rightarrow> (('pk, 'sk, 'sig) hyper_event \<times> ('s, 'pk, 'sk, 'sig) hyper_dht) option" where
  "pop_hyper_event h = (case hd_queued_events h of ev # evs \<Rightarrow> Some (ev, h\<lparr>hd_queued_events := evs\<rparr>) | [] \<Rightarrow> None)"

text \<open>What the environment contributes to one poll of the node, and the clock of the callback that
  follows.\<close>

record inner_poll =
  ip_now :: instant
  ip_bootstrap :: bool
  ip_ping :: bool
  ip_env :: rpc_env
  ip_rounds :: "(poll_env \<times> rpc_env) list"
  ip_callback :: hyper_env

fun hyper_loop ::
  "('s, 'pk, 'sk, 'sig) hyper_lib \<Rightarrow> inner_poll list \<Rightarrow> ('s, 'pk, 'sk, 'sig) hyper_dht
     \<Rightarrow> (('pk, 'sk, 'sig) hyper_event poll \<times> ('s, 'pk, 'sk, 'sig) hyper_dht) option res" where
  "hyper_loop x [] h = Inr None"
| "hyper_loop x (ip # ips) h =
     res_bind (rpc_poll_next (hx_rpc x) (ip_now ip) (ip_bootstrap ip) (ip_ping ip) (ip_env ip) (ip_rounds ip) (hd_inner h)) (\<lambda>r.
       case r of
         None \<Rightarrow> Inr None
       | Some (Pending, d) \<Rightarrow>
           Inr (Some (case pop_hyper_event (h\<lparr>hd_inner := d\<rparr>) of Some (ev, h') \<Rightarrow> (Ready ev, h') | None \<Rightarrow> (Pending, h\<lparr>hd_inner := d\<rparr>)))
       | Some (Ready ev, d) \<Rightarrow>
           (let h' = h\<lparr>hd_inner := d\<rparr>
            in case ev of
                 RequestResult (Inr q) \<Rightarrow> res_bind (on_command x (ip_callback ip) q h') (hyper_loop x ips)
               | ResponseResult (Inr (ResponseOk resp)) \<Rightarrow> res_bind (hyper_inject_response x resp h') (hyper_loop x ips)
               | Bootstrapped st \<Rightarrow> Inr (Some (Ready (HBootstrapped st), h'))
               | QueryResult i _ _ \<Rightarrow> hyper_loop x ips (hyper_query_finished i h')
               | _ \<Rightarrow> hyper_loop x ips h'))"

definition hyper_poll_next ::
  "('s, 'pk, 'sk, 'sig) hyper_lib \<Rightarrow> inner_poll list \<Rightarrow> ('s, 'pk, 'sk, 'sig) hyper_dht
     \<Rightarrow> (('pk, 'sk, 'sig) hyper_event poll \<times> ('s, 'pk, 'sk, 'sig) hyper_dht) option res" where
  "hyper_poll_next x ips h =
     (case pop_hyper_event h of
        Some (ev, h') \<Rightarrow> Inr (Some (Ready ev, h'))
      | None \<Rightarrow> hyper_loop x ips h)"

end
