(* ===== verification/Hyper_Run.thy ===== *)
theory Hyper_Run
  imports Hyper_Dht
begin

text \<open>
  Runs of \<^verbatim>\<open>HyperDht\<close>: the calls of a user and the polls, in any order, against any messages from
  other nodes.  The invariant joins the invariants of the node, of the peer cache and of the
  store, and says that every value a query has collected is authentic.
\<close>

section \<open>Invariant\<close>

text \<open>A collected immutable value hashes to the key asked for; a mutable one carries a valid
  signature for the key asked for, and at least the sequence number asked for.\<close>

definition lan_free :: "query_stream_inner \<Rightarrow> bool" where
  "lan_free q \<longleftrightarrow> (case qi_local_address q of Some (SockV4 _ _) \<Rightarrow> False | _ \<Rightarrow> True)"

definition immutable_auth :: "('s, 'pk, 'sk, 'sig) hyper_lib \<Rightarrow> bytes get_result \<Rightarrow> bool" where
  "immutable_auth x g \<longleftrightarrow> (\<forall>val \<in> set (gr_values g). hash_id (sx_blake (hx_store x)) val = gr_key g)"

definition mutable_auth :: "('s, 'pk, 'sk, 'sig) hyper_lib \<Rightarrow> mutable get_result \<Rightarrow> bool" where
  "mutable_auth x g \<longleftrightarrow> (\<forall>m \<in> set (gr_values g). verify (hx_store x) (gr_key g) m = Inr ())"

fun query_ok :: "('s, 'pk, 'sk, 'sig) hyper_lib \<Rightarrow> ('pk, 'sk, 'sig) query_stream_type \<Rightarrow> bool" where
  "query_ok x (QLookUp q) = lan_free q"
| "query_ok x (QAnnounce q) = lan_free q"
| "query_ok x (QUnAnnounce q) = lan_free q"
| "query_ok x (QGetImmutable g) = immutable_auth x g"
| "query_ok x (QGetMutable g m) = (length (gr_key g) = 32 \<and> mutable_auth x g)"
| "query_ok x _ = True"

fun event_auth :: "('s, 'pk, 'sk, 'sig) hyper_lib \<Rightarrow> ('pk, 'sk, 'sig) hyper_event \<Rightarrow> bool" where
  "event_auth x (GetImmutableResult g) = immutable_auth x g"
| "event_auth x (GetMutableResult g) = mutable_auth x g"
| "event_auth x _ = True"

definition hyper_ok ::
  "('s, 'pk, 'sk, 'sig) hyper_lib \<Rightarrow> ('s \<Rightarrow> bool) \<Rightarrow> ('s \<Rightarrow> storage_key \<Rightarrow> storage_entry option) \<Rightarrow> instant \<Rightarrow> nat
     \<Rightarrow> ('s, 'pk, 'sk, 'sig) hyper_dht \<Rightarrow> bool" where
  "hyper_ok x good view now n h \<longleftrightarrow>
     rpc_ok (hx_rpc x) now n (hd_inner h) \<and> (\<exists>k. boot_ok k (hd_inner h)) \<and>
     pc_ok (hd_peers h) \<and> 0 < pc_capacity (hd_peers h) \<and> kinds_ok (hd_peers h) \<and>
     store_ok (hx_store x) good view (hd_store h) \<and>
     (\<forall>i q. hm_get (hd_queries h) i = Some q \<longrightarrow> query_ok x q) \<and>
     list_all (event_auth x) (hd_queued_events h)"

lemma hyper_ok_inner:
  "hyper_ok x good view now n h \<Longrightarrow> rpc_ok (hx_rpc x) now' m d \<Longrightarrow> boot_ok k d \<Longrightarrow> hyper_ok x good view now' m (h\<lparr>hd_inner := d\<rparr>)"
  by (auto simp: hyper_ok_def)

lemma hyper_ok_store:
  "hyper_ok x good view now n h \<Longrightarrow> store_ok (hx_store x) good view s \<Longrightarrow> hyper_ok x good view now n (h\<lparr>hd_store := s\<rparr>)"
  by (simp add: hyper_ok_def)

lemma hyper_ok_peers:
  "hyper_ok x good view now n h \<Longrightarrow> pc_ok c \<Longrightarrow> 0 < pc_capacity c \<Longrightarrow> kinds_ok c \<Longrightarrow> hyper_ok x good view now n (h\<lparr>hd_peers := c\<rparr>)"
  by (simp add: hyper_ok_def)

lemma hyper_ok_set_query:
  "hyper_ok x good view now n h \<Longrightarrow> query_ok x q \<Longrightarrow> hyper_ok x good view now n (set_query i q h)"
  by (simp add: hyper_ok_def set_query_def)

lemma hyper_ok_push:
  "hyper_ok x good view now n h \<Longrightarrow> event_auth x ev \<Longrightarrow> hyper_ok x good view now n (push_hyper_event ev h)"
  by (simp add: hyper_ok_def push_hyper_event_def)

lemma hyper_ok_mono:
  "hyper_ok x good view now n h \<Longrightarrow> now \<le> now' \<Longrightarrow> n \<le> m \<Longrightarrow> hyper_ok x good view now' m h"
  by (auto simp: hyper_ok_def intro: rpc_ok_mono)

section \<open>Commands of other nodes\<close>

lemma hyper_reply_ok:
  assumes ok: "hyper_ok x good view now n h"
  shows "\<exists>h'. hyper_reply x e resp h = Inr h' \<and> hyper_ok x good view now n h'"
proof -
  obtain k where inner: "rpc_ok (hx_rpc x) now n (hd_inner h)" "boot_ok k (hd_inner h)" using ok by (auto simp: hyper_ok_def)
  obtain d where d: "reply_command (hx_rpc x) (he_rpc e) resp (hd_inner h) = Inr d" "rpc_ok (hx_rpc x) now n d"
    using rpc_reply_ok [OF inner(1)] by (fastforce simp: reply_command_def)
  have "boot_ok k d" using boot_ok_cong [OF reply_boot inner(2)] d(1) by (auto simp: reply_command_def)
  then show ?thesis using d hyper_ok_inner [OF ok] by (auto simp: hyper_reply_def)
qed

lemma query_locals_ok:
  assumes "pc_ok c" and "kinds_ok c"
  shows "\<exists>l c'. query_locals now lc c = Inr (l, c') \<and> pc_ok c' \<and> kinds_ok c' \<and> pc_capacity c' = pc_capacity c \<and>
    (\<forall>b. l = Some b \<longrightarrow> length b \<le> 32)"
proof (cases lc)
  case (Some ks)
  obtain r c' where "pc_get now (fst ks) c = Inr (r, c')" "pc_ok c'" "pc_capacity c' = pc_capacity c"
    using pc_get_ok [OF assms(1)] by blast
  moreover have "kinds_ok c'" using kinds_ok_get calculation(1) assms(2) by blast
  ultimately show ?thesis using Some by (cases ks) (auto simp: query_locals_def bind_eq_Some_conv)
qed (use assms in \<open>simp add: query_locals_def\<close>)

lemma query_remotes_ok:
  assumes "pc_ok c" and "kinds_ok c" and "\<forall>b. l = Some b \<longrightarrow> length b \<le> 32"
  shows "\<exists>r c'. query_remotes now k from l c = Inr (r, c') \<and> pc_ok c' \<and> kinds_ok c' \<and> pc_capacity c' = pc_capacity c"
proof -
  obtain r c' where "pc_get now k c = Inr (r, c')" "pc_ok c'" "pc_capacity c' = pc_capacity c"
    using pc_get_ok [OF assms(1)] by blast
  moreover have "kinds_ok c'" using kinds_ok_get calculation(1) assms(2) by blast
  ultimately show ?thesis using assms(3) by (auto simp: query_remotes_def usize_sub_def Let_def split: option.splits)
qed

lemma unannounce_ok:
  assumes "pc_ok c" and "kinds_ok c"
  shows "\<exists>c'. res_bind (pc_remove_addr k a c) (\<lambda>(_, c1).
      case lc of Some (k, suffix) \<Rightarrow> res_bind (pc_remove_addr k (ALocal suffix) c1) (\<lambda>(_, c2). Inr c2) | None \<Rightarrow> Inr c1) = Inr c' \<and>
    pc_ok c' \<and> kinds_ok c' \<and> pc_capacity c' = pc_capacity c"
proof -
  have step: "\<exists>r d'. pc_remove_addr k a d = Inr (r, d') \<and> pc_ok d' \<and> kinds_ok d' \<and> pc_capacity d' = pc_capacity d"
    if "pc_ok d" "kinds_ok d" for k a d
    using pc_remove_addr_ok [OF that(1), of k a] kinds_ok_remove_addr that(2) by blast
  obtain r c1 where c1: "pc_remove_addr k a c = Inr (r, c1)" "pc_ok c1" "kinds_ok c1" "pc_capacity c1 = pc_capacity c"
    using step [OF assms] by blast
  show ?thesis
  proof (cases lc)
    case (Some ks)
    obtain r' c2 where "pc_remove_addr (fst ks) (ALocal (snd ks)) c1 = Inr (r', c2)" "pc_ok c2" "kinds_ok c2" "pc_capacity c2 = pc_capacity c1"
      using step [OF c1(2,3)] by blast
    then show ?thesis using c1 Some by (cases ks) simp
  qed (use c1 in simp)
qed

lemma announce_ok:
  assumes "pc_ok c" and "0 < pc_capacity c" and "kinds_ok c" and "lc = local_cache topic p"
  shows "\<exists>c'. res_bind (pc_insert t (KRemote i) (ARemote a) c) (\<lambda>c1.
      case lc of Some (k, suffix) \<Rightarrow> pc_insert t' k (ALocal suffix) c1 | None \<Rightarrow> Inr c1) = Inr c' \<and>
    pc_ok c' \<and> kinds_ok c' \<and> pc_capacity c' = pc_capacity c"
proof -
  have step: "\<exists>d'. pc_insert t k a d = Inr d' \<and> pc_ok d' \<and> kinds_ok d' \<and> pc_capacity d' = pc_capacity d"
    if "pc_ok d" "0 < pc_capacity d" "kinds_ok d" "\<And>e. key_kind k (ac_new a e)" for t k a d
    using pc_insert_ok [OF that(1,2), of t k a] kinds_ok_insert [OF _ that] by blast
  obtain c1 where c1: "pc_insert t (KRemote i) (ARemote a) c = Inr c1" "pc_ok c1" "kinds_ok c1" "pc_capacity c1 = pc_capacity c"
    using step [OF assms(1-3), of "KRemote i" "ARemote a" t] by auto
  then have cap: "0 < pc_capacity c1" using assms(2) by simp
  show ?thesis
  proof (cases lc)
    case (Some ks)
    then have "key_kind (fst ks) (ac_new (ALocal (snd ks)) e)" for e
      using assms(4) by (auto simp: local_cache_def bind_eq_Some_conv split: if_splits)
    then obtain c2 where "pc_insert t' (fst ks) (ALocal (snd ks)) c1 = Inr c2" "pc_ok c2" "kinds_ok c2" "pc_capacity c2 = pc_capacity c1"
      using step [OF c1(2) cap c1(3), of "fst ks" "ALocal (snd ks)" t'] by auto
    then show ?thesis using c1 Some by (cases ks) simp
  qed (use c1 in simp)
qed

lemma on_peers_ok:
  assumes ok: "hyper_ok x good view now n h"
  shows "\<exists>h'. on_peers x e q h = Inr h' \<and> hyper_ok x good view now n h'"
proof (cases "Option.bind (cq_value q) (hx_in_dec x)")
  case (Some p)
  have c: "pc_ok (hd_peers h)" "0 < pc_capacity (hd_peers h)" "kinds_ok (hd_peers h)" using ok by (simp_all add: hyper_ok_def)
  have reply: "\<exists>h'. hyper_reply x e resp (h\<lparr>hd_peers := c'\<rparr>) = Inr h' \<and> hyper_ok x good view now n h'"
    if "pc_ok c'" "pc_capacity c' = pc_capacity (hd_peers h)" "kinds_ok c'" for resp c'
    using hyper_reply_ok [OF hyper_ok_peers [OF ok that(1)]] that(2,3) c(2) by simp
  show ?thesis
  proof (cases "peer_addr (cq_peer q)")
    case (SockV6 ip port fl sc)
    then show ?thesis using Some hyper_reply_ok [OF ok] by (simp add: on_peers_def)
  next
    case (SockV4 host port)
    let ?from = "SockV4 host (announced_port p (SockV4 host port))" and ?r = "KRemote (cq_target q)" and ?l = "local_cache (cq_target q) p"
    show ?thesis
    proof (cases "cq_ty q = TQuery")
      case True
      obtain l c1 where l: "query_locals (he_get_local e) ?l (hd_peers h) = Inr (l, c1)" "pc_ok c1"
        "kinds_ok c1" "pc_capacity c1 = pc_capacity (hd_peers h)" "\<forall>b. l = Some b \<longrightarrow> length b \<le> 32"
        using query_locals_ok [OF c(1,3)] by blast
      obtain r c2 where "query_remotes (he_get_remote e) ?r ?from l c1 = Inr (r, c2)" "pc_ok c2" "kinds_ok c2" "pc_capacity c2 = pc_capacity c1"
        using query_remotes_ok [OF l(2,3,5)] by blast
      then show ?thesis using Some SockV4 True l reply [of c2] by (simp add: on_peers_def Let_def)
    next
      case False
      obtain c1 c2 where
        "res_bind (pc_remove_addr ?r (ARemote ?from) (hd_peers h)) (\<lambda>(_, c1).
          case ?l of Some (k, suffix) \<Rightarrow> res_bind (pc_remove_addr k (ALocal suffix) c1) (\<lambda>(_, c2). Inr c2) | None \<Rightarrow> Inr c1) = Inr c1"
        "pc_ok c1" "kinds_ok c1" "pc_capacity c1 = pc_capacity (hd_peers h)"
        "res_bind (pc_insert (he_insert_remote e) ?r (ARemote ?from) (hd_peers h)) (\<lambda>c1.
          case ?l of Some (k, suffix) \<Rightarrow> pc_insert (he_insert_local e) k (ALocal suffix) c1 | None \<Rightarrow> Inr c1) = Inr c2"
        "pc_ok c2" "kinds_ok c2" "pc_capacity c2 = pc_capacity (hd_peers h)"
        using unannounce_ok [OF c(1,3), where k = ?r and a = "ARemote ?from" and lc = ?l]
          announce_ok [OF c refl, where t = "he_insert_remote e" and i = "cq_target q" and a = ?from and topic = "cq_target q" and p = p and t' = "he_insert_local e"] by blast
      then show ?thesis using Some SockV4 False reply [of c1] reply [of c2]
        by (cases "case pi_unannounce p of Some b \<Rightarrow> b | None \<Rightarrow> False") (simp_all add: on_peers_def Let_def)
    qed
  qed
qed (use ok in \<open>simp add: on_peers_def\<close>)

lemma on_command_ok:
  assumes lru: "lru_cache (sx_lru (hx_store x)) good view" and ok: "hyper_ok x good view now n h" and q: "length (cq_target q) = 32"
  shows "\<exists>h'. on_command x e q h = Inr h' \<and> hyper_ok x good view now n h'"
proof -
  have s: "store_ok (hx_store x) good view (hd_store h)" using ok by (simp add: hyper_ok_def)
  have step: "\<exists>resp s'. store_step (hx_store x) op (hd_store h) = Inr (resp, s') \<and> store_ok (hx_store x) good view s'" if "store_adm op" for op
    using lru_cache.store_step_keeps [OF lru s refl that] by (auto simp: command_keeps_def)
  have reply: "\<exists>h'. hyper_reply x e resp (h\<lparr>hd_store := s'\<rparr>) = Inr h' \<and> hyper_ok x good view now n h'"
    if "store_ok (hx_store x) good view s'" for resp s'
    using hyper_reply_ok [OF hyper_ok_store [OF ok that]] .
  consider "cq_command q = MUTABLE_STORE_CMD" | "cq_command q = IMMUTABLE_STORE_CMD" | "cq_command q = PEERS_CMD"
    | "cq_command q \<notin> {MUTABLE_STORE_CMD, IMMUTABLE_STORE_CMD, PEERS_CMD}" by auto
  then show ?thesis
  proof cases
    case 1
    obtain resp s' where "store_on_command_mut (hx_store x) q (hd_store h) = Inr (resp, s')" "store_ok (hx_store x) good view s'"
      using step [of "OnCommandMut q"] 1 q by auto
    then show ?thesis using 1 reply by (simp add: on_command_def)
  next
    case 2
    obtain resp s' where "store_on_command (hx_store x) q (hd_store h) = Inr (resp, s')" "store_ok (hx_store x) good view s'"
      using step [of "OnCommand q"] 2 q by auto
    then show ?thesis using 2 reply by (simp add: on_command_def MUTABLE_STORE_CMD_def IMMUTABLE_STORE_CMD_def)
  next
    case 3
    then show ?thesis using on_peers_ok [OF ok]
      by (simp add: on_command_def MUTABLE_STORE_CMD_def IMMUTABLE_STORE_CMD_def PEERS_CMD_def)
  next
    case 4
    then show ?thesis using hyper_ok_push [OF ok] by (simp add: on_command_def Let_def)
  qed
qed

section \<open>Calls\<close>

lemma start_query_ok:
  assumes ok: "hyper_ok x good view now n h" and f: "\<And>i. query_ok x (f i)"
  shows "\<exists>i h'. start_query x e cmd key val ty f h = Inr (i, h') \<and> hyper_ok x good view now n h' \<and> hd_store h' = hd_store h"
proof -
  obtain k where inner: "rpc_ok (hx_rpc x) now n (hd_inner h)" "boot_ok k (hd_inner h)" using ok by (auto simp: hyper_ok_def)
  obtain i d where d: "run_command (hx_rpc x) e (command_from cmd) (id_key (hx_rpc x) key) val ty (hd_inner h) = Inr (i, d)"
    "rpc_ok (hx_rpc x) now n d" using run_command_ok [OF inner(1)] by blast
  have "boot_ok k d" by (rule boot_ok_cong [OF run_command_boot [OF d(1)] inner(2)])
  then have "hyper_ok x good view now n (set_query i (f i) (h\<lparr>hd_inner := d\<rparr>))"
    using hyper_ok_set_query [OF hyper_ok_inner [OF ok d(2)] f] by blast
  then show ?thesis using d(1) by (simp add: start_query_def set_query_def)
qed

lemma new_results_auth [simp]: "immutable_auth x (get_result_new k i)" "mutable_auth x (get_result_new k i)"
  by (simp_all add: immutable_auth_def mutable_auth_def get_result_new_def gr_values_def)

lemma put_immutable_ok:
  assumes lru: "lru_cache (sx_lru x) good view" and "store_ok x good view s" and "hash_id (sx_blake x) val = k" "put_immutable x k val s = (r, s')"
  shows "store_ok x good view s'"
  using lru_cache.store_put_ok [OF lru assms(2) refl, of "ImmutableKey k" "ImmutableEntry val"] assms(3,4)
  by (auto simp: put_immutable_def split: prod.splits)

lemma put_mutable_ok:
  assumes lru: "lru_cache (sx_lru x) good view" and "store_ok x good view s" and "verify x i m = Inr ()" "length i = 32"
    "put_mutable x (get_mut_key m i) m s = (r, s')"
  shows "store_ok x good view s'"
  using lru_cache.store_put_ok [OF lru assms(2) refl, of "MutableKey (get_mut_key m i)" "MutableEntry m"] entry_ok_mutable [OF assms(4,3)] assms(5)
  by (auto simp: put_mutable_def split: prod.splits)

lemma get_immutable_ok:
  assumes lru: "lru_cache (sx_lru (hx_store x)) good view" and ok: "hyper_ok x good view now n h"
  shows "\<exists>r h'. get_immutable x e key h = Inr (r, h') \<and> hyper_ok x good view now n h' \<and>
    (\<forall>k val. r = Inr (k, val) \<longrightarrow> k = key \<and> hash_id (sx_blake (hx_store x)) val = key)"
proof -
  have s: "store_ok (hx_store x) good view (hd_store h)" using ok by (simp add: hyper_ok_def)
  then have g: "good (st_inner (hd_store h))" by (simp add: store_ok_def)
  obtain r s' where r: "store_get (hx_store x) (ImmutableKey key) (hd_store h) = (r, s')" by fastforce
  have h': "hyper_ok x good view now n (h\<lparr>hd_store := s'\<rparr>)"
    by (rule hyper_ok_store [OF ok lru_cache.store_get_ok [OF lru s refl r]])
  show ?thesis
  proof (cases "Option.bind r as_immutable")
    case None
    obtain i h'' where "start_query x e IMMUTABLE_STORE_CMD key None QTQuery (\<lambda>i. QGetImmutable (get_result_new key i)) (h\<lparr>hd_store := s'\<rparr>) = Inr (i, h'')"
      "hyper_ok x good view now n h''" using start_query_ok [OF h', of "\<lambda>i. QGetImmutable (get_result_new key i)" e IMMUTABLE_STORE_CMD key None QTQuery] by auto
    then show ?thesis using r None by (simp add: get_immutable_def)
  next
    case (Some val)
    then have "hash_id (sx_blake (hx_store x)) val = key"
      using lru_cache.store_get_view(1) [OF lru g refl r] s entry_ok_ImmutableKey [of "hx_store x" key]
      by (fastforce simp: store_ok_def bind_eq_Some_conv)
    then show ?thesis using r Some h' by (simp add: get_immutable_def)
  qed
qed

lemma get_mutable_ok:
  assumes ok: "hyper_ok x good view now n h" and "\<forall>slt. go_salt g = Some slt \<longrightarrow> length slt \<le> 64" and "length (go_key g) = 32"
  shows "\<exists>i h'. get_mutable x e g h = Inr (i, h') \<and> hyper_ok x good view now n h'"
proof -
  let ?m = "\<lparr>mut_value = None, mut_signature = None, mut_seq = Some (go_seq g), mut_salt = go_salt g\<rparr>"
  have "query_ok x (QGetMutable (get_result_new (go_key g) i) ?m)" for i using assms(3) by (simp add: get_result_new_def [of "go_key g"])
     (simp add: mutable_auth_def gr_values_def)
  from start_query_ok [OF ok this] show ?thesis using assms(2)
    by (fastforce simp: get_mutable_def Let_def split: option.splits)
qed

lemma hyper_put_immutable_ok:
  assumes lru: "lru_cache (sx_lru (hx_store x)) good view" and ok: "hyper_ok x good view now n h" and "length val \<le> PUT_VALUE_MAX_SIZE"
  shows "\<exists>i h'. hyper_put_immutable x e val h = Inr (i, h') \<and> hyper_ok x good view now n h' \<and>
    (\<exists>r. put_immutable (hx_store x) (hash_id (sx_blake (hx_store x)) val) val (hd_store h) = (r, hd_store h'))"
proof -
  let ?k = "hash_id (sx_blake (hx_store x)) val"
  have "store_ok (hx_store x) good view (hd_store h)" using ok by (simp add: hyper_ok_def)
  moreover obtain r s where s: "put_immutable (hx_store x) ?k val (hd_store h) = (r, s)" by fastforce
  ultimately have h1: "hyper_ok x good view now n (h\<lparr>hd_store := s\<rparr>)" using hyper_ok_store [OF ok put_immutable_ok [OF lru]] by blast
  from start_query_ok [OF h1, of "\<lambda>i. QPutImmutable i ?k" e IMMUTABLE_STORE_CMD ?k "Some val" QTUpdate] show ?thesis using assms(3) s
    by (auto simp: hyper_put_immutable_def Let_def)
qed

lemma put_then_get_immutable:
  assumes lru: "lru_cache (sx_lru (hx_store x)) good view" and ok: "hyper_ok x good view now n h" and "length val \<le> PUT_VALUE_MAX_SIZE"
  shows "\<exists>i h1 h2. hyper_put_immutable x e val h = Inr (i, h1) \<and>
    get_immutable x e' (hash_id (sx_blake (hx_store x)) val) h1 = Inr (Inr (hash_id (sx_blake (hx_store x)) val, val), h2)"
proof -
  let ?x = "hx_store x" and ?k = "hash_id (sx_blake (hx_store x)) val"
  obtain i h1 r where h1: "hyper_put_immutable x e val h = Inr (i, h1)" "hyper_ok x good view now n h1"
    "put_immutable ?x ?k val (hd_store h) = (r, hd_store h1)"
    using hyper_put_immutable_ok [OF assms] by blast
  have good: "good (st_inner (hd_store h))" "good (st_inner (hd_store h1))" using ok h1(2) by (simp_all add: hyper_ok_def store_ok_def)
  have put: "hd_store h1 = snd (store_put ?x (ImmutableKey ?k) (ImmutableEntry val) (hd_store h))"
    using h1(3) by (auto simp: put_immutable_def split: prod.splits)
  have "view (st_inner (hd_store h1)) (ImmutableKey ?k) = Some (ImmutableEntry val)"
    using lru_cache.store_put_only(1) [OF lru good(1) refl] unfolding put stored_only_def by simp
  then obtain s where "store_get ?x (ImmutableKey ?k) (hd_store h1) = (Some (ImmutableEntry val), s)"
    using lru_cache.store_get_view(1) [OF lru good(2) refl] by (metis surj_pair)
  then show ?thesis using h1(1) by (simp add: get_immutable_def)
qed

lemma hyper_put_mutable_ok:
  assumes lru: "lru_cache (sx_lru (hx_store x)) good view" and ok: "hyper_ok x good view now n h" and "length val \<le> PUT_VALUE_MAX_SIZE"
    and m: "put_mutable_of (sx_ed (hx_store x)) val opts = Inr m" "verify (hx_store x) (put_id (sx_ed (hx_store x)) opts) m = Inr ()"
      "length (put_id (sx_ed (hx_store x)) opts) = 32"
  shows "\<exists>i h'. hyper_put_mutable x e val opts h = Inr (i, h') \<and> hyper_ok x good view now n h'"
proof -
  let ?k = "put_id (sx_ed (hx_store x)) opts"
  have "store_ok (hx_store x) good view (hd_store h)" using ok by (simp add: hyper_ok_def)
  moreover obtain r s where s: "put_mutable (hx_store x) (get_mut_key m ?k) m (hd_store h) = (r, s)" by fastforce
  ultimately have h1: "hyper_ok x good view now n (h\<lparr>hd_store := s\<rparr>)"
    using hyper_ok_store [OF ok put_mutable_ok [OF lru _ m(2,3)]] by blast
  from start_query_ok [OF h1, of "\<lambda>i. QPutMutable i opts" e MUTABLE_STORE_CMD ?k "Some (sx_enc (hx_store x) m)" QTUpdate]
  show ?thesis using assms(3) m(1) s by (auto simp: hyper_put_mutable_def Let_def)
qed

section \<open>Responses\<close>

lemma inner_inject_ok:
  assumes "lan_free q"
  shows "\<exists>q'. inner_inject_response x resp q = Inr q' \<and> lan_free q'"
proof (cases "Option.bind (rs_value resp) (hx_out_dec x)")
  case (Some val)
  have "(case pu_local_peers val of Some buf \<Rightarrow> (case qi_local_address q of Some (SockV4 ip _) \<Rightarrow> decode_local_peers ip buf | _ \<Rightarrow> Inr [])
      | None \<Rightarrow> Inr []) = Inr []"
    using assms by (auto simp: lan_free_def split: option.splits socket_addr.splits)
  then show ?thesis using Some assms by (simp add: inner_inject_response_def Let_def lan_free_def)
qed (use assms in \<open>simp add: inner_inject_response_def\<close>)

lemma push_response_auth:
  "immutable_auth x g \<Longrightarrow> hash_id (sx_blake (hx_store x)) val = gr_key g \<Longrightarrow> immutable_auth x (push_response resp val g)"
  "mutable_auth x g' \<Longrightarrow> verify (hx_store x) (gr_key g') m = Inr () \<Longrightarrow> mutable_auth x (push_response resp m g')"
  "gr_key (push_response resp m g') = gr_key g'"
  by (auto simp: immutable_auth_def mutable_auth_def push_response_def gr_values_def)

lemma hyper_inject_response_ok:
  assumes lru: "lru_cache (sx_lru (hx_store x)) good view" and ok: "hyper_ok x good view now n h"
  shows "\<exists>h'. hyper_inject_response x resp h = Inr h' \<and> hyper_ok x good view now n h'"
proof (cases "hm_get (hd_queries h) (rs_query resp)")
  case (Some q)
  have s: "store_ok (hx_store x) good view (hd_store h)" and q: "query_ok x q" using ok Some by (auto simp: hyper_ok_def)
  note set = hyper_ok_set_query [OF ok] and set_store = hyper_ok_set_query [OF hyper_ok_store [OF ok]]
  show ?thesis
  proof (cases q)
    case (QLookUp inner)
    then show ?thesis using Some q set inner_inject_ok [of inner x resp] by (auto simp: hyper_inject_response_def)
  next
    case (QAnnounce inner)
    then show ?thesis using Some q set inner_inject_ok [of inner x resp] by (auto simp: hyper_inject_response_def)
  next
    case (QUnAnnounce inner)
    then show ?thesis using Some q set inner_inject_ok [of inner x resp] by (auto simp: hyper_inject_response_def)
  next
    case (QGetImmutable g)
    then show ?thesis using Some q ok put_immutable_ok [OF lru s refl] push_response_auth(1) [of x g] set_store
      by (auto simp: hyper_inject_response_def Let_def split: option.splits prod.splits)
  next
    case (QGetMutable g m)
    then show ?thesis using Some q ok put_mutable_ok [OF lru s, of "gr_key g"] push_response_auth(2) [of x g] push_response_auth(3) set_store
      by (auto simp: hyper_inject_response_def Let_def split: option.splits prod.splits)
  qed (use Some ok in \<open>simp_all add: hyper_inject_response_def\<close>)
qed (use ok in \<open>simp add: hyper_inject_response_def\<close>)

lemma hyper_query_finished_ok:
  assumes "hyper_ok x good view now n h"
  shows "hyper_ok x good view now n (hyper_query_finished i h)"
proof (cases "hm_get (hd_queries h) i")
  case (Some q)
  then have "query_ok x q" using assms by (auto simp: hyper_ok_def)
  then have "event_auth x (finalize i q)" by (cases q) simp_all
  moreover have "hyper_ok x good view now n (h\<lparr>hd_queries := hm_remove i (hd_queries h)\<rparr>)" using assms by (auto simp: hyper_ok_def)
  ultimately show ?thesis using Some hyper_ok_push by (simp add: hyper_query_finished_def)
qed (use assms in \<open>simp add: hyper_query_finished_def\<close>)

lemma pop_hyper_event_ok:
  "hyper_ok x good view now n h \<Longrightarrow> pop_hyper_event h = Some (ev, h') \<Longrightarrow> event_auth x ev \<and> hyper_ok x good view now n h'"
  by (auto simp: pop_hyper_event_def hyper_ok_def split: list.splits)

section \<open>Polls\<close>

fun polls_adm :: "instant \<Rightarrow> inner_poll list \<Rightarrow> bool" where
  "polls_adm now [] = True"
| "polls_adm now (ip # ips) = (now \<le> ip_now ip \<and> list_all round_ok (ip_rounds ip) \<and> polls_adm (ip_now ip) ips)"

fun polls_rounds :: "inner_poll list \<Rightarrow> nat" where
  "polls_rounds [] = 0"
| "polls_rounds (ip # ips) = length (ip_rounds ip) + polls_rounds ips"

fun polls_end :: "instant \<Rightarrow> inner_poll list \<Rightarrow> instant" where
  "polls_end now [] = now"
| "polls_end now (ip # ips) = polls_end (ip_now ip) ips"

lemma polls_end_le: "polls_adm now ips \<Longrightarrow> now \<le> polls_end now ips"
  by (induction ips arbitrary: now) fastforce+

definition poll_auth ::
  "('s, 'pk, 'sk, 'sig) hyper_lib \<Rightarrow> ('s \<Rightarrow> bool) \<Rightarrow> ('s \<Rightarrow> storage_key \<Rightarrow> storage_entry option) \<Rightarrow> instant \<Rightarrow> nat
     \<Rightarrow> (('pk, 'sk, 'sig) hyper_event poll \<times> ('s, 'pk, 'sk, 'sig) hyper_dht) option \<Rightarrow> bool" where
  "poll_auth x good view now n r \<longleftrightarrow>
     (\<forall>ev h. r = Some (ev, h) \<longrightarrow> hyper_ok x good view now n h \<and> (\<forall>e. ev = Ready e \<longrightarrow> event_auth x e))"

lemma poll_authI:
  assumes "hyper_ok x good view now n h" and "now \<le> now'" "n \<le> m" and "\<And>e. ev = Ready e \<Longrightarrow> event_auth x e"
  shows "poll_auth x good view now' m (Some (ev, h))"
  using hyper_ok_mono [OF assms(1-3)] assms(4) by (simp add: poll_auth_def)

text \<open>The reaction to an event of the node puts at most one message into its outbox and leaves its
  queries and its other events alone.\<close>

definition inner_step :: "rpc_dht \<Rightarrow> rpc_dht \<Rightarrow> bool" where
  "inner_step d d' \<longleftrightarrow>
     rd_queries d' = rd_queries d \<and> rd_queued_events d' = rd_queued_events d \<and> io_effort (rd_io d') \<le> io_effort (rd_io d) + 1"

lemma inner_step_refl [simp]: "inner_step d d"
  by (simp add: inner_step_def)

lemma hyper_reply_step: "hyper_reply x e resp h = Inr h' \<Longrightarrow> inner_step (hd_inner h) (hd_inner h')"
  by (auto simp: hyper_reply_def reply_command_def rpc_reply_def closer_nodes_def io_reply_def send_message_def inner_step_def io_effort_def Let_def
      elim!: res_bind_InrE)

lemma on_command_step: "on_command x e q h = Inr h' \<Longrightarrow> inner_step (hd_inner h) (hd_inner h')"
  by (auto simp: on_command_def on_peers_def push_hyper_event_def Let_def elim!: res_bind_InrE dest!: hyper_reply_step
      split: option.splits socket_addr.splits prod.splits if_splits)

lemma hyper_inject_response_step: "hyper_inject_response x resp h = Inr h' \<Longrightarrow> hd_inner h' = hd_inner h"
  by (auto simp: hyper_inject_response_def set_query_def Let_def elim!: res_bind_InrE split: option.splits query_stream_type.splits prod.splits if_splits)

text \<open>What follows a poll of the node: the poll of \<^verbatim>\<open>HyperDht\<close> returns, or it reacts to the event and
  polls again.\<close>

lemma hyper_round:
  assumes lru: "lru_cache (sx_lru (hx_store x)) good view" and ok: "hyper_ok x good view t m (h\<lparr>hd_inner := d\<rparr>)"
    and target: "\<And>e. ev = Ready e \<Longrightarrow> event_target_ok e"
    and poll: "rpc_poll_next (hx_rpc x) (ip_now ip) (ip_bootstrap ip) (ip_ping ip) (ip_env ip) (ip_rounds ip) (hd_inner h) = Inr (Some (ev, d))"
  shows "(\<exists>ev' h'. (\<forall>ips. hyper_loop x (ip # ips) h = Inr (Some (ev', h'))) \<and> hyper_ok x good view t m h' \<and> (\<forall>e. ev' = Ready e \<longrightarrow> event_auth x e)) \<or>
    (\<exists>h'. ev \<noteq> Pending \<and> (\<forall>ips. hyper_loop x (ip # ips) h = hyper_loop x ips h') \<and> hyper_ok x good view t m h' \<and> inner_step d (hd_inner h'))"
    (is "?stops \<or> ?goes_on")
proof (cases ev)
  case Pending
  show ?thesis
  proof (cases "pop_hyper_event (h\<lparr>hd_inner := d\<rparr>)")
    case None
    then show ?thesis using poll Pending ok by (intro disjI1) auto
  next
    case (Some evh)
    then show ?thesis using poll Pending pop_hyper_event_ok [OF ok] by (cases evh) (intro disjI1, auto)
  qed
next
  case (Ready e)
  have go: ?goes_on if "\<And>ips. hyper_loop x (ip # ips) h = hyper_loop x ips h'" "hyper_ok x good view t m h'" "inner_step d (hd_inner h')" for h'
    using that Ready by (intro exI [of _ h']) auto
  show ?thesis
  proof (cases e)
    case (RequestResult res)
    show ?thesis
    proof (cases res)
      case (Inr q)
      then obtain h2 where h2: "on_command x (ip_callback ip) q (h\<lparr>hd_inner := d\<rparr>) = Inr h2" "hyper_ok x good view t m h2"
        using on_command_ok [OF lru ok, of q] target Ready RequestResult by auto
      then show ?thesis using poll Ready RequestResult Inr go [of h2] on_command_step [OF h2(1)] by simp
    qed (use poll Ready RequestResult go [OF _ ok] in simp)
  next
    case (ResponseResult res)
    show ?thesis
    proof (cases "\<exists>resp. res = Inr (ResponseOk resp)")
      case True
      then obtain resp where resp: "res = Inr (ResponseOk resp)" by blast
      obtain h2 where h2: "hyper_inject_response x resp (h\<lparr>hd_inner := d\<rparr>) = Inr h2" "hyper_ok x good view t m h2"
        using hyper_inject_response_ok [OF lru ok] by blast
      then show ?thesis using poll Ready ResponseResult resp go [of h2] hyper_inject_response_step [OF h2(1)] by simp
    next
      case False
      then have "hyper_loop x (ip # ips) h = hyper_loop x ips (h\<lparr>hd_inner := d\<rparr>)" for ips
        using poll Ready ResponseResult by (auto simp: Let_def split: sum.splits response_ok.splits)
      then show ?thesis using go [OF _ ok] by simp
    qed
  next
    case (Bootstrapped st)
    then show ?thesis using poll Ready ok by (intro disjI1) auto
  next
    case (QueryResult i c st)
    have "hd_inner (hyper_query_finished i (h\<lparr>hd_inner := d\<rparr>)) = d"
      by (simp add: hyper_query_finished_def push_hyper_event_def split: option.splits)
    then show ?thesis using QueryResult poll Ready go [OF _ hyper_query_finished_ok [OF ok, of i]] by simp
  qed (use poll Ready go [OF _ ok] in simp)
qed

lemma hyper_loop_ok:
  assumes sha: "sha_32 (hx_rpc x)" and lru: "lru_cache (sx_lru (hx_store x)) good view"
  shows "hyper_ok x good view now n h \<Longrightarrow> polls_adm now ips \<Longrightarrow> n + polls_rounds ips < 2 ^ 32 \<Longrightarrow>
    \<exists>r. hyper_loop x ips h = Inr r \<and> poll_auth x good view (polls_end now ips) (n + polls_rounds ips) r"
proof (induction ips arbitrary: now n h)
  case (Cons ip ips)
  let ?t = "ip_now ip" and ?n = "n + length (ip_rounds ip)"
  let ?T = "polls_end now (ip # ips)" and ?N = "n + polls_rounds (ip # ips)"
  have adm: "now \<le> ?t" "list_all round_ok (ip_rounds ip)" "polls_adm ?t ips" "?n + polls_rounds ips < 2 ^ 32"
    using Cons.prems(2,3) by simp_all
  obtain k where k: "boot_ok k (hd_inner h)" and "rpc_ok (hx_rpc x) ?t n (hd_inner h)"
    using Cons.prems(1) adm(1) by (auto simp: hyper_ok_def intro: rpc_ok_mono)
  from rpc_poll_next_ok [OF this(2) sha adm(2), of "ip_bootstrap ip" "ip_ping ip" "ip_env ip"] adm(4) obtain r where
    r: "rpc_poll_next (hx_rpc x) ?t (ip_bootstrap ip) (ip_ping ip) (ip_env ip) (ip_rounds ip) (hd_inner h) = Inr r"
    "\<forall>ev d. r = Some (ev, d) \<longrightarrow> rpc_ok (hx_rpc x) ?t ?n d" by auto
  show ?case
  proof (cases r)
    case None
    then show ?thesis using r(1) by (simp add: poll_auth_def)
  next
    case (Some evd)
    obtain ev d where evd: "r = Some (ev, d)" "rpc_ok (hx_rpc x) ?t ?n d" using r(2) Some by (cases evd) auto
    have "poll_ok k (ev, d)" using rpc_poll_next_boot [OF _ k] r(1) evd(1) by blast
    then have boot: "boot_ok (k + poll_boots ev) d" "\<And>e. ev = Ready e \<Longrightarrow> event_target_ok e" by (auto simp: poll_ok_def)
    have "hyper_ok x good view ?t ?n (h\<lparr>hd_inner := d\<rparr>)" by (rule hyper_ok_inner [OF Cons.prems(1) evd(2) boot(1)])
    from hyper_round [OF lru this boot(2) r(1) [unfolded evd(1)]] consider
        (stop) ev' h' where "hyper_loop x (ip # ips) h = Inr (Some (ev', h'))" "hyper_ok x good view ?t ?n h'" "\<And>e. ev' = Ready e \<Longrightarrow> event_auth x e"
      | (go) h' where "hyper_loop x (ip # ips) h = hyper_loop x ips h'" "hyper_ok x good view ?t ?n h'" by blast
    then show ?thesis
    proof cases
      case stop
      then show ?thesis using poll_authI [OF stop(2) polls_end_le [OF adm(3)], of ?N ev'] by (simp del: hyper_loop.simps)
    next
      case go
      then show ?thesis using Cons.IH [OF go(2) adm(3,4)] by (simp add: add.assoc del: hyper_loop.simps)
    qed
  qed
qed (simp add: poll_auth_def)

lemma hyper_poll_next_ok:
  assumes sha: "sha_32 (hx_rpc x)" and lru: "lru_cache (sx_lru (hx_store x)) good view"
    and ok: "hyper_ok x good view now n h" and adm: "polls_adm now ips" "n + polls_rounds ips < 2 ^ 32"
  shows "\<exists>r. hyper_poll_next x ips h = Inr r \<and> poll_auth x good view (polls_end now ips) (n + polls_rounds ips) r"
proof (cases "pop_hyper_event h")
  case None
  then show ?thesis using hyper_loop_ok [OF sha lru ok adm] by (simp add: hyper_poll_next_def)
next
  case (Some evh)
  then show ?thesis using pop_hyper_event_ok [OF ok] poll_authI [OF _ polls_end_le [OF adm(1)]]
    by (cases evh) (fastforce simp: hyper_poll_next_def)
qed

section \<open>Runs\<close>

datatype ('pk, 'sk, 'sig) hyper_op =
    HPoll "inner_poll list"
  | HGetImmutable rpc_env id_bytes
  | HGetMutable rpc_env get_opts
  | HPutImmutable rpc_env bytes
  | HPutMutable rpc_env bytes "('pk, 'sk, 'sig) put_opts"
  | HLookup rpc_env query_opts
  | HAnnounce rpc_env query_opts
  | HUnannounce rpc_env query_opts

datatype ('pk, 'sk, 'sig) hyper_out =
    OutId u64
  | OutImmutable id_bytes bytes
  | OutEvent "('pk, 'sk, 'sig) hyper_event poll"

definition out_id ::
  "(u64 \<times> ('s, 'pk, 'sk, 'sig) hyper_dht) res \<Rightarrow> (('pk, 'sk, 'sig) hyper_out \<times> ('s, 'pk, 'sk, 'sig) hyper_dht) option res" where
  "out_id r = res_bind r (\<lambda>(i, h). Inr (Some (OutId i, h)))"

fun hyper_step ::
  "('s, 'pk, 'sk, 'sig) hyper_lib \<Rightarrow> ('pk, 'sk, 'sig) hyper_op \<Rightarrow> ('s, 'pk, 'sk, 'sig) hyper_dht
     \<Rightarrow> (('pk, 'sk, 'sig) hyper_out \<times> ('s, 'pk, 'sk, 'sig) hyper_dht) option res" where
  "hyper_step x (HPoll ips) h = res_bind (hyper_poll_next x ips h) (\<lambda>r. Inr (map_option (\<lambda>(ev, h'). (OutEvent ev, h')) r))"
| "hyper_step x (HGetImmutable e key) h =
     res_bind (get_immutable x e key h) (\<lambda>(r, h').
       Inr (Some (case r of Inl i \<Rightarrow> OutId i | Inr (k, val) \<Rightarrow> OutImmutable k val, h')))"
| "hyper_step x (HGetMutable e g) h = out_id (get_mutable x e g h)"
| "hyper_step x (HPutImmutable e val) h = out_id (hyper_put_immutable x e val h)"
| "hyper_step x (HPutMutable e val opts) h = out_id (hyper_put_mutable x e val opts h)"
| "hyper_step x (HLookup e opts) h = out_id (lookup x e opts h)"
| "hyper_step x (HAnnounce e opts) h = out_id (announce x e opts h)"
| "hyper_step x (HUnannounce e opts) h = out_id (unannounce x e opts h)"

text \<open>A run ends with \<open>None\<close> when a poll is still going on at the end of its rounds.\<close>

fun hyper_run ::
  "('s, 'pk, 'sk, 'sig) hyper_lib \<Rightarrow> ('pk, 'sk, 'sig) hyper_op list \<Rightarrow> ('s, 'pk, 'sk, 'sig) hyper_dht
     \<Rightarrow> (('pk, 'sk, 'sig) hyper_out list \<times> ('s, 'pk, 'sk, 'sig) hyper_dht) option res" where
  "hyper_run x [] h = Inr (Some ([], h))"
| "hyper_run x (op # ops) h =
     res_bind (hyper_step x op h) (\<lambda>r.
       case r of
         None \<Rightarrow> Inr None
       | Some (out, h') \<Rightarrow>
           res_bind (hyper_run x ops h') (\<lambda>r'. Inr (map_option (\<lambda>(outs, h''). (out # outs, h'')) r')))"

text \<open>What the calls rely on: the documented limits on the sizes of values and salts, keys of 32
  bytes, a signature that fits the value, and no IPv4 address as LAN address.\<close>

fun op_adm :: "('s, 'pk, 'sk, 'sig) hyper_lib \<Rightarrow> instant \<Rightarrow> ('pk, 'sk, 'sig) hyper_op \<Rightarrow> bool" where
  "op_adm x now (HPoll ips) = polls_adm now ips"
| "op_adm x now (HGetImmutable e key) = True"
| "op_adm x now (HGetMutable e g) =
     ((case go_salt g of Some slt \<Rightarrow> length slt \<le> 64 | None \<Rightarrow> True) \<and> length (go_key g) = 32)"
| "op_adm x now (HPutImmutable e val) = (length val \<le> PUT_VALUE_MAX_SIZE)"
| "op_adm x now (HPutMutable e val opts) =
     (length val \<le> PUT_VALUE_MAX_SIZE \<and> length (put_id (sx_ed (hx_store x)) opts) = 32 \<and>
      (case put_mutable_of (sx_ed (hx_store x)) val opts of
         Inr m \<Rightarrow> verify (hx_store x) (put_id (sx_ed (hx_store x)) opts) m = Inr ()
       | Inl _ \<Rightarrow> False))"
| "op_adm x now (HLookup e opts) = lan_free (inner_new (qo_topic opts) (qo_local_addr opts))"
| "op_adm x now (HAnnounce e opts) = lan_free (inner_new (qo_topic opts) (qo_local_addr opts))"
| "op_adm x now (HUnannounce e opts) = lan_free (inner_new (qo_topic opts) (qo_local_addr opts))"

fun op_end :: "instant \<Rightarrow> ('pk, 'sk, 'sig) hyper_op \<Rightarrow> instant" where
  "op_end now (HPoll ips) = polls_end now ips"
| "op_end now _ = now"

fun op_rounds :: "('pk, 'sk, 'sig) hyper_op \<Rightarrow> nat" where
  "op_rounds (HPoll ips) = polls_rounds ips"
| "op_rounds _ = 0"

fun hyper_adm :: "('s, 'pk, 'sk, 'sig) hyper_lib \<Rightarrow> instant \<Rightarrow> ('pk, 'sk, 'sig) hyper_op list \<Rightarrow> bool" where
  "hyper_adm x now [] = True"
| "hyper_adm x now (op # ops) = (op_adm x now op \<and> hyper_adm x (op_end now op) ops)"

fun out_auth :: "('s, 'pk, 'sk, 'sig) hyper_lib \<Rightarrow> ('pk, 'sk, 'sig) hyper_out \<Rightarrow> bool" where
  "out_auth x (OutEvent (Ready ev)) = event_auth x ev"
| "out_auth x (OutImmutable k val) = (hash_id (sx_blake (hx_store x)) val = k)"
| "out_auth x _ = True"

definition step_auth ::
  "('s, 'pk, 'sk, 'sig) hyper_lib \<Rightarrow> ('s \<Rightarrow> bool) \<Rightarrow> ('s \<Rightarrow> storage_key \<Rightarrow> storage_entry option) \<Rightarrow> instant \<Rightarrow> nat
     \<Rightarrow> (('pk, 'sk, 'sig) hyper_out \<times> ('s, 'pk, 'sk, 'sig) hyper_dht) option res \<Rightarrow> bool" where
  "step_auth x good view now n r \<longleftrightarrow>
     (\<exists>r'. r = Inr r' \<and> (\<forall>out h. r' = Some (out, h) \<longrightarrow> hyper_ok x good view now n h \<and> out_auth x out))"

lemma step_authI: "\<exists>i h'. r = Inr (i, h') \<and> hyper_ok x good view now n h' \<Longrightarrow> step_auth x good view now n (out_id r)"
  by (auto simp: step_auth_def out_id_def)

lemma start_query_auth:
  assumes "hyper_ok x good view now n h" and "\<And>i. query_ok x (f i)"
  shows "step_auth x good view now n (out_id (start_query x e cmd key val ty f h))"
  using start_query_ok [of x good view now n h f e cmd key val ty, OF assms] by (intro step_authI) blast

lemma hyper_step_ok:
  assumes sha: "sha_32 (hx_rpc x)" and lru: "lru_cache (sx_lru (hx_store x)) good view"
    and ok: "hyper_ok x good view now n h" and adm: "op_adm x now op" "n + op_rounds op < 2 ^ 32"
  shows "step_auth x good view (op_end now op) (n + op_rounds op) (hyper_step x op h)"
proof (cases op)
  case (HPoll ips)
  have "polls_adm now ips" "n + polls_rounds ips < 2 ^ 32" using adm HPoll by simp_all
  from hyper_poll_next_ok [OF sha lru ok this] obtain r where
    "hyper_poll_next x ips h = Inr r" "poll_auth x good view (polls_end now ips) (n + polls_rounds ips) r" by blast
  moreover have "out_auth x (OutEvent ev) \<longleftrightarrow> (\<forall>e. ev = Ready e \<longrightarrow> event_auth x e)" for ev by (cases ev) simp_all
  ultimately show ?thesis using HPoll by (auto simp: step_auth_def poll_auth_def)
next
  case (HGetImmutable e key)
  obtain r h' where "get_immutable x e key h = Inr (r, h')" "hyper_ok x good view now n h'"
    "\<forall>k val. r = Inr (k, val) \<longrightarrow> k = key \<and> hash_id (sx_blake (hx_store x)) val = key"
    using get_immutable_ok [OF lru ok] by blast
  then show ?thesis using HGetImmutable by (auto simp: step_auth_def split: sum.splits)
next
  case (HGetMutable e g)
  then show ?thesis using step_authI [OF get_mutable_ok [OF ok, of g e]] adm(1) by (auto split: option.splits)
next
  case (HPutImmutable e val)
  then show ?thesis using hyper_put_immutable_ok [OF lru ok, of val e] adm(1) by (auto intro!: step_authI)
next
  case (HPutMutable e val opts)
  then show ?thesis using hyper_put_mutable_ok [OF lru ok, of val opts _ e] adm(1) by (auto intro!: step_authI split: sum.splits)
next
  case (HLookup e opts)
  then show ?thesis using start_query_auth [OF ok] adm(1) by (simp add: lookup_def)
next
  case (HAnnounce e opts)
  then show ?thesis using start_query_auth [OF ok] adm(1) by (simp add: announce_def)
next
  case (HUnannounce e opts)
  then show ?thesis using start_query_auth [OF ok] adm(1) by (simp add: unannounce_def)
qed

lemma hyper_run_ok:
  assumes sha: "sha_32 (hx_rpc x)" and lru: "lru_cache (sx_lru (hx_store x)) good view"
  shows "hyper_ok x good view now n h \<Longrightarrow> hyper_adm x now ops \<Longrightarrow> n + sum_list (map op_rounds ops) < 2 ^ 32 \<Longrightarrow>
    \<exists>r. hyper_run x ops h = Inr r \<and>
      (\<forall>outs h'. r = Some (outs, h') \<longrightarrow> list_all (out_auth x) outs \<and>
         hyper_ok x good view (foldl op_end now ops) (n + sum_list (map op_rounds ops)) h')"
proof (induction ops arbitrary: now n h)
  case (Cons op ops)
  have "op_adm x now op" "n + op_rounds op < 2 ^ 32" using Cons.prems(2,3) by simp_all
  from hyper_step_ok [OF sha lru Cons.prems(1) this] obtain r where
    r: "hyper_step x op h = Inr r" "\<forall>out h. r = Some (out, h) \<longrightarrow> hyper_ok x good view (op_end now op) (n + op_rounds op) h \<and> out_auth x out"
    by (auto simp: step_auth_def)
  show ?case
  proof (cases r)
    case (Some oh)
    obtain out h1 where h1: "oh = (out, h1)" "hyper_ok x good view (op_end now op) (n + op_rounds op) h1" "out_auth x out"
      using r(2) Some by (cases oh) auto
    obtain r' where "hyper_run x ops h1 = Inr r'"
      "\<forall>outs h'. r' = Some (outs, h') \<longrightarrow> list_all (out_auth x) outs \<and>
         hyper_ok x good view (foldl op_end (op_end now op) ops) (n + op_rounds op + sum_list (map op_rounds ops)) h'"
      using Cons.IH [OF h1(2)] Cons.prems(2,3) by (auto simp: add.assoc)
    then show ?thesis using r(1) Some h1 by (auto simp: add.assoc)
  qed (use r(1) in simp)
qed auto

lemma hyper_with_config_ok:
  assumes sha: "sha_32 (hx_rpc x)" and lru: "lru_cache (sx_lru (hx_store x)) good view"
  shows "\<exists>h. hyper_with_config x resolve e k1 k2 first random_id now config = Inr h \<and> hyper_ok x good view now 0 h"
proof -
  let ?c1 = "register_commands [MUTABLE_STORE_CMD, IMMUTABLE_STORE_CMD, PEERS_CMD] config"
  let ?c2 = "if dc_bootstrap_nodes ?c1 = None then set_bootstrap_nodes resolve DEFAULT_BOOTSTRAP ?c1 else ?c1"
  obtain d where d: "with_config (hx_rpc x) e k1 k2 first random_id now ?c2 = Inr d" "rpc_ok (hx_rpc x) now 0 d"
    using with_config_ok [OF sha] by blast
  have "boot_ok 0 d" using with_config_boot [OF d(1)] .
  then show ?thesis using d lru_cache.store_new_ok [OF lru refl, of 5000] pc_new_ok
    unfolding hyper_with_config_def Let_def by (auto simp: hyper_ok_def)
qed

section \<open>Properties\<close>


text \<open>The library for the witnesses: the one of the node and the one of the store; a payload of
  announcements is empty, an answer is decoded to one with one byte of LAN peers.\<close>

definition sample_hyper :: "(list_lru, bytes, bytes, bytes) hyper_lib" where
  "sample_hyper =
     \<lparr>hx_rpc = sample_rpc, hx_store = sample_lib, hx_in_enc = (\<lambda>_. []),
      hx_in_dec = (\<lambda>b. Some \<lparr>pi_port = None, pi_local_address = None, pi_unannounce = None\<rparr>),
      hx_out_enc = (\<lambda>out. case pu_peers out of Some b \<Rightarrow> b | None \<Rightarrow> []),
      hx_out_dec = (\<lambda>b. Some \<lparr>pu_peers = Some b, pu_local_peers = Some [7]\<rparr>)\<rparr>"


end
