(* ===== verification/Hyper_Flows.thy ===== *)
theory Hyper_Flows
  imports Hyper_Run
begin

text \<open>
  What \<^verbatim>\<open>HyperDht\<close> is for: a value that is put can be got, and a peer that is announced is found by
  a lookup.  Each theorem follows a value through the nodes that take part: the one that puts or
  announces, the one that stores, and the one that asks.  The laws of the crates that this rests
  on are named: the generated codecs decode what they encode, and Ed25519 accepts the signatures
  that it makes.
\<close>

section \<open>Reachable nodes and the laws of the crates\<close>

definition reached :: "('s, 'pk, 'sk, 'sig) hyper_lib \<Rightarrow> ('s, 'pk, 'sk, 'sig) hyper_dht \<Rightarrow> bool" where
  "reached x h \<longleftrightarrow>
     (\<exists>resolve e k1 k2 first random_id now config h0 ops outs.
        hyper_with_config x resolve e k1 k2 first random_id now config = Inr h0 \<and>
        hyper_adm x now ops \<and> sum_list (map op_rounds ops) < 2 ^ 32 \<and> hyper_run x ops h0 = Inr (Some (outs, h)))"

lemma reached_ok:
  assumes "sha_32 (hx_rpc x)" and "lru_cache (sx_lru (hx_store x)) good view" and "reached x h"
  shows "\<exists>now n. hyper_ok x good view now n h"
proof -
  obtain resolve e k1 k2 first random_id now config h0 ops outs where
    r: "hyper_with_config x resolve e k1 k2 first random_id now config = Inr h0" "hyper_adm x now ops"
      "sum_list (map op_rounds ops) < 2 ^ 32" "hyper_run x ops h0 = Inr (Some (outs, h))"
    using assms(3) by (auto simp: reached_def)
  have "hyper_ok x good view now 0 h0"
    using hyper_with_config_ok [OF assms(1,2), of resolve e k1 k2 first random_id now config] r(1) by auto
  then show ?thesis using hyper_run_ok [OF assms(1,2) _ r(2), of 0 h0] r(3,4) by auto
qed

definition codec_law :: "('a \<Rightarrow> bytes) \<Rightarrow> (bytes \<Rightarrow> 'a option) \<Rightarrow> bool" where
  "codec_law enc dec \<longleftrightarrow> (\<forall>m. dec (enc m) = Some m)"

definition keypair_law :: "('pk, 'sk, 'sig) ed25519 \<Rightarrow> 'pk \<Rightarrow> 'sk \<Rightarrow> bool" where
  "keypair_law ed pk sk \<longleftrightarrow>
     ed_public_from ed (ed_public_bytes ed pk) = Some pk \<and> length (ed_public_bytes ed pk) = 32 \<and>
     (\<forall>sg. ed_sig_from ed (ed_sig_bytes ed sg) = Some sg) \<and> (\<forall>msg. ed_verify ed pk msg (ed_sign ed sk msg pk))"

section \<open>Steps of the flows\<close>

lemma reply_keeps:
  assumes "hyper_ok x good view now n h"
  shows "\<exists>d. hyper_reply x e resp h = Inr (h\<lparr>hd_inner := d\<rparr>) \<and> hyper_ok x good view now n (h\<lparr>hd_inner := d\<rparr>)"
  using hyper_reply_ok [OF assms, of e resp] by (auto simp: hyper_reply_def elim!: res_bind_InrE)

lemma on_command_simps:
  "cq_command q = IMMUTABLE_STORE_CMD \<Longrightarrow>
     on_command x e q h = res_bind (store_on_command (hx_store x) q (hd_store h)) (\<lambda>(resp, s). hyper_reply x e resp (h\<lparr>hd_store := s\<rparr>))"
  "cq_command q = MUTABLE_STORE_CMD \<Longrightarrow>
     on_command x e q h = res_bind (store_on_command_mut (hx_store x) q (hd_store h)) (\<lambda>(resp, s). hyper_reply x e resp (h\<lparr>hd_store := s\<rparr>))"
  "cq_command q = PEERS_CMD \<Longrightarrow> on_command x e q h = on_peers x e q h"
  by (simp_all add: on_command_def MUTABLE_STORE_CMD_def IMMUTABLE_STORE_CMD_def PEERS_CMD_def)

text \<open>The node answers the command \<open>q\<close> with \<open>resp\<close> and is in the state \<open>h'\<close> afterwards.\<close>

definition answered ::
  "('s, 'pk, 'sk, 'sig) hyper_lib \<Rightarrow> hyper_env \<Rightarrow> command_query \<Rightarrow> ('s, 'pk, 'sk, 'sig) hyper_dht \<Rightarrow> command_query_response
     \<Rightarrow> ('s, 'pk, 'sk, 'sig) hyper_dht \<Rightarrow> bool" where
  "answered x e q h resp h' \<longleftrightarrow>
     (\<exists>s c. on_command x e q h = hyper_reply x e resp (h\<lparr>hd_store := s, hd_peers := c\<rparr>) \<and> on_command x e q h = Inr h')"

lemma answered_store:
  assumes ok: "hyper_ok x good view now n h" and s: "store_ok (hx_store x) good view s"
    and "on_command x e q h = hyper_reply x e resp (h\<lparr>hd_store := s\<rparr>)"
  shows "\<exists>d. answered x e q h resp (h\<lparr>hd_store := s, hd_inner := d\<rparr>) \<and> hyper_ok x good view now n (h\<lparr>hd_store := s, hd_inner := d\<rparr>)"
proof -
  obtain d where "hyper_reply x e resp (h\<lparr>hd_store := s\<rparr>) = Inr (h\<lparr>hd_store := s, hd_inner := d\<rparr>)"
    "hyper_ok x good view now n (h\<lparr>hd_store := s, hd_inner := d\<rparr>)"
    using reply_keeps [OF hyper_ok_store [OF ok s]] by blast
  moreover have "h\<lparr>hd_store := s\<rparr> = h\<lparr>hd_store := s, hd_peers := hd_peers h\<rparr>" by simp
  ultimately show ?thesis using assms(3) unfolding answered_def by metis
qed

context lru_cache
begin

lemma store_update_then_query:
  assumes "good (st_inner s)" and "sx_lru x = ops" and "hash_id (sx_blake x) val = cq_target q" and "cq_value q = Some val"
    and "cq_target q2 = cq_target q" and "store_update x q s = (resp, s1)"
  shows "resp = response_from (q\<lparr>cq_value := None\<rparr>)" and "\<exists>s2. store_query x q2 s1 = (response_from (q2\<lparr>cq_value := Some val\<rparr>), s2)"
proof -
  let ?k = "ImmutableKey (cq_target q)"
  have s1: "resp = response_from (q\<lparr>cq_value := None\<rparr>)" "s1 = snd (store_put x ?k (ImmutableEntry val) s)"
    using assms(3-6) by (auto simp: store_update_def Let_def)
  then show "resp = response_from (q\<lparr>cq_value := None\<rparr>)" by simp
  have "good (st_inner s1)" "view (st_inner s1) ?k = Some (ImmutableEntry val)"
    using store_put_only [OF assms(1,2), of ?k "ImmutableEntry val"] s1(2) by (simp_all add: stored_only_def)
  then obtain s2 where "store_get x ?k s1 = (Some (ImmutableEntry val), s2)"
    using store_get_view(1) [OF _ assms(2)] by (metis surj_pair)
  then show "\<exists>s2. store_query x q2 s1 = (response_from (q2\<lparr>cq_value := Some val\<rparr>), s2)"
    using assms(5) by (simp add: store_query_def)
qed

lemma update_mut_then_query:
  assumes "good (st_inner s)" and "sx_lru x = ops" and "mut_value m \<noteq> None" "mut_signature m \<noteq> None" "verify x (cq_target q) m = Inr ()"
    and "\<And>loc. held view (get_mut_key m (cq_target q)) s = Some loc \<Longrightarrow> unwrap_or_default (mut_seq loc) < unwrap_or_default (mut_seq m)"
    and "cq_target q2 = cq_target q" "mut_salt m2 = mut_salt m" "unwrap_or_default (mut_seq m2) \<le> unwrap_or_default (mut_seq m)"
    and upd: "update_mut x q m s = (resp, s1)"
  shows "resp = response_from q" and "\<exists>s2. query_mut x q2 m2 s1 = (response_from (q2\<lparr>cq_value := Some (sx_enc x m)\<rparr>), s2)"
proof -
  let ?k = "MutableKey (get_mut_key m (cq_target q))"
  have st: "resp = response_from q" "good (st_inner s1)" "view (st_inner s1) ?k = Some (MutableEntry m)"
    using update_mut_stored [OF assms(3-5,1,2) upd] assms(6) maybe_seq_error_Inr [of m] by (auto simp: stored_only_def)
  then show "resp = response_from q" by simp
  have k: "get_mut_key m2 (cq_target q2) = get_mut_key m (cq_target q)" using assms(7,8) by (simp add: get_mut_key_def)
  obtain s2 where "store_get x ?k s1 = (Some (MutableEntry m), s2)"
    using store_get_view(1) [OF st(2) assms(2)] st(3) by (metis surj_pair)
  then show "\<exists>s2. query_mut x q2 m2 s1 = (response_from (q2\<lparr>cq_value := Some (sx_enc x m)\<rparr>), s2)"
    using k assms(9) by (simp add: query_mut_def)
qed

end

section \<open>Libraries for the witnesses\<close>

definition sample_flow :: "(list_lru, bytes, bytes, bytes) hyper_lib" where
  "sample_flow = sample_hyper\<lparr>
     hx_store := sample_lib\<lparr>
       sx_enc := (\<lambda>m. opt_enc (mut_value m) @ opt_enc (mut_signature m) @ num_enc (mut_seq m) @ opt_enc (mut_salt m)),
       sx_dec := (\<lambda>b. let (v, b1) = opt_dec b; (sg, b2) = opt_dec b1; (n, b3) = opt_dec b2; (slt, _) = opt_dec b3
                      in Some \<lparr>mut_value = v, mut_signature = sg, mut_seq = num_dec n, mut_salt = slt\<rparr>)\<rparr>,
     hx_in_enc := (\<lambda>p. num_enc (pi_port p) @ opt_enc (pi_local_address p) @
                       opt_enc (map_option (\<lambda>u. if u then [1] else []) (pi_unannounce p))),
     hx_in_dec := (\<lambda>b. let (n, b1) = opt_dec b; (l, b2) = opt_dec b1; (u, _) = opt_dec b2
                       in Some \<lparr>pi_port = num_dec n, pi_local_address = l, pi_unannounce = map_option (\<lambda>b. b \<noteq> []) u\<rparr>),
     hx_out_enc := (\<lambda>out. opt_enc (pu_peers out) @ opt_enc (pu_local_peers out)),
     hx_out_dec := (\<lambda>b. let (p, b1) = opt_dec b; (l, _) = opt_dec b1 in Some \<lparr>pu_peers = p, pu_local_peers = l\<rparr>)\<rparr>"

lemma sample_flow_laws:
  "sha_32 (hx_rpc sample_flow)" "lru_cache (sx_lru (hx_store sample_flow)) (\<lambda>s. 0 < fst s) (\<lambda>s. map_of (snd s))"
  "codec_law (sx_enc (hx_store sample_flow)) (sx_dec (hx_store sample_flow))" "codec_law (hx_in_enc sample_flow) (hx_in_dec sample_flow)"
  "codec_law (hx_out_enc sample_flow) (hx_out_dec sample_flow)" "keypair_law (sx_ed (hx_store sample_flow)) (replicate 32 9) (replicate 32 9)"
proof -
  show "codec_law (hx_in_enc sample_flow) (hx_in_dec sample_flow)"
    unfolding codec_law_def
  proof
    fix p :: peers_input
    have "map_option (\<lambda>b. b \<noteq> []) (map_option (\<lambda>u. if u then [1 :: u8] else []) v) = v" for v by (cases v) simp_all
    then show "hx_in_dec sample_flow (hx_in_enc sample_flow p) = Some p"
      by (simp add: sample_flow_def num_enc_def)
  qed
qed (use sample_rpc_sha sample_lib_cache in
    \<open>simp_all add: sample_flow_def sample_hyper_def codec_law_def num_enc_def keypair_law_def sample_lib_def\<close>)

lemma sample_node:
  "\<exists>h0. reached sample_flow h0 \<and> hd_peers h0 = pc_new 65536 (60 * 25 * 1000) \<and> hd_store h0 = store_new (hx_store sample_flow) 5000"
proof -
  obtain h0 where h0: "hyper_with_config sample_flow (\<lambda>_. None) sample_env [1] [2] 5 (replicate 32 3) 0 dht_config_default = Inr h0"
    using hyper_with_config_ok [OF sample_flow_laws(1,2)] by blast
  have "hyper_run sample_flow [] h0 = Inr (Some ([], h0))" "hyper_adm sample_flow 0 []"
    "sum_list (map op_rounds ([] :: (bytes, bytes, bytes) hyper_op list)) < 2 ^ 32" by simp_all
  then have "reached sample_flow h0" unfolding reached_def using h0 by blast
  moreover have "hd_peers h0 = pc_new 65536 (60 * 25 * 1000) \<and> hd_store h0 = store_new (hx_store sample_flow) 5000"
    using h0 by (auto simp: hyper_with_config_def Let_def elim!: res_bind_InrE)
  ultimately show ?thesis by blast
qed

section \<open>Immutable values\<close>

lemma immutable_stored_answered:
  assumes lru: "lru_cache (sx_lru (hx_store x)) good view" and ok: "hyper_ok x good view now n h"
    and q: "cq_command q = IMMUTABLE_STORE_CMD" "cq_ty q = TUpdate" "cq_target q = hash_id (sx_blake (hx_store x)) val" "cq_value q = Some val"
    and q2: "cq_command q2 = IMMUTABLE_STORE_CMD" "cq_ty q2 = TQuery" "cq_target q2 = cq_target q"
  shows "\<exists>h1 h2. answered x e q h (response_from (q\<lparr>cq_value := None\<rparr>)) h1 \<and>
    answered x e2 q2 h1 (response_from (q2\<lparr>cq_value := Some val\<rparr>)) h2"
proof -
  have good: "good (st_inner (hd_store h))" using ok by (simp add: hyper_ok_def store_ok_def)
  obtain r s where upd: "store_update (hx_store x) q (hd_store h) = (r, s)" by fastforce
  obtain s' where s': "r = response_from (q\<lparr>cq_value := None\<rparr>)" "store_query (hx_store x) q2 s = (response_from (q2\<lparr>cq_value := Some val\<rparr>), s')"
    using lru_cache.store_update_then_query [OF lru good refl _ q(4) q2(3) upd] q(3) by auto
  have "store_ok (hx_store x) good view s"
    using lru_cache.store_update_keeps [OF lru _ refl upd] ok by (simp add: hyper_ok_def command_keeps_def)
  moreover have "on_command x e q h = hyper_reply x e (response_from (q\<lparr>cq_value := None\<rparr>)) (h\<lparr>hd_store := s\<rparr>)"
    using upd s'(1) q(1,2) by (simp add: on_command_simps store_on_command_def)
  ultimately obtain d where d: "answered x e q h (response_from (q\<lparr>cq_value := None\<rparr>)) (h\<lparr>hd_store := s, hd_inner := d\<rparr>)"
    "hyper_ok x good view now n (h\<lparr>hd_store := s, hd_inner := d\<rparr>)" using answered_store [OF ok] by blast
  have "store_ok (hx_store x) good view s'"
    using lru_cache.store_query_keeps(1) [OF lru _ refl s'(2)] d(2) by (simp add: hyper_ok_def command_keeps_def)
  moreover have "on_command x e2 q2 (h\<lparr>hd_store := s, hd_inner := d\<rparr>) =
      hyper_reply x e2 (response_from (q2\<lparr>cq_value := Some val\<rparr>)) (h\<lparr>hd_store := s, hd_inner := d\<rparr>\<lparr>hd_store := s'\<rparr>)"
    using s'(2) q2(1,2) by (simp add: on_command_simps store_on_command_def)
  ultimately show ?thesis using answered_store [OF d(2)] d(1) by blast
qed


definition sample_henv :: hyper_env where
  "sample_henv = \<lparr>he_rpc = sample_env, he_get_local = 5, he_get_remote = 5, he_insert_remote = 3, he_insert_local = 3\<rparr>"

definition sample_cmd :: "string \<Rightarrow> msg_type \<Rightarrow> id_bytes \<Rightarrow> u16 \<Rightarrow> bytes option \<Rightarrow> command_query" where
  "sample_cmd cmd ty target port val =
     \<lparr>cq_rid = 7, cq_ty = ty, cq_command = cmd, cq_peer = peer_from (SockV4 (127, 0, 0, 1) port), cq_target = target, cq_value = val\<rparr>"

definition sample_response :: "bytes \<Rightarrow> response" where
  "sample_response b =
     \<lparr>rs_query = 1, rs_ty = QTQuery, rs_cmd = command_from PEERS_CMD, rs_to = None, rs_peer = SockV4 (127, 0, 0, 1) 80,
      rs_peer_id = None, rs_value = Some b\<rparr>"

lemma sample_cmd_simps [simp]:
  "cq_command (sample_cmd cmd ty target port val) = cmd" "cq_ty (sample_cmd cmd ty target port val) = ty"
  "cq_target (sample_cmd cmd ty target port val) = target" "cq_value (sample_cmd cmd ty target port val) = val"
  "peer_addr (cq_peer (sample_cmd cmd ty target port val)) = SockV4 (127, 0, 0, 1) port"
  "rs_query (sample_response b) = 1" "rs_value (sample_response b) = Some b"
  "hm_get (hd_queries (set_query i ty' h)) i = Some ty'" "gr_key (get_result_new k n) = k"
  by (simp_all add: sample_cmd_def sample_response_def peer_from_def set_query_def get_result_new_def)


section \<open>Mutable values\<close>

lemma put_mutable_of_signed:
  assumes "keypair_law ed pk sk" and "po_key opts = KeyPair pk sk" and "\<forall>slt. po_salt opts = Some slt \<longrightarrow> length slt \<le> 64" and "sx_ed x = ed"
  shows "\<exists>m. put_mutable_of ed val opts = Inr m \<and> mut_value m = Some val \<and> mut_signature m \<noteq> None \<and> mut_seq m = Some (po_seq opts) \<and>
    mut_salt m = po_salt opts \<and> verify x (put_id ed opts) m = Inr ()"
proof -
  obtain msg where msg: "signable val (po_salt opts) (po_seq opts) = Some msg"
    using assms(3) by (cases "po_salt opts") (auto simp: signable_def Let_def)
  then show ?thesis using assms(1,2,4)
    by (simp add: put_mutable_of_def sign_def verify_def put_id_def signature_def signable_mutable_def unwrap_or_default_def
        crypto_verify_def keypair_law_def)
qed

lemma mutable_stored_answered:
  assumes lru: "lru_cache (sx_lru (hx_store x)) good view" and ok: "hyper_ok x good view now n h"
    and codec: "codec_law (sx_enc (hx_store x)) (sx_dec (hx_store x))"
    and m: "mut_value m \<noteq> None" "mut_signature m \<noteq> None" "verify (hx_store x) (cq_target q) m = Inr ()" "length (cq_target q) = 32"
      "\<And>loc. held view (get_mut_key m (cq_target q)) (hd_store h) = Some loc \<Longrightarrow> unwrap_or_default (mut_seq loc) < unwrap_or_default (mut_seq m)"
    and q: "cq_command q = MUTABLE_STORE_CMD" "cq_ty q = TUpdate" "cq_value q = Some (sx_enc (hx_store x) m)"
    and q2: "cq_command q2 = MUTABLE_STORE_CMD" "cq_ty q2 = TQuery" "cq_target q2 = cq_target q" "cq_value q2 = Some (sx_enc (hx_store x) m2)"
      "mut_salt m2 = mut_salt m" "unwrap_or_default (mut_seq m2) \<le> unwrap_or_default (mut_seq m)"
  shows "\<exists>h1 h2. answered x e q h (response_from (q\<lparr>cq_value := None\<rparr>)) h1 \<and>
    answered x e2 q2 h1 (response_from (q2\<lparr>cq_value := Some (sx_enc (hx_store x) m)\<rparr>)) h2"
proof -
  let ?q = "q\<lparr>cq_value := None\<rparr>" and ?q2 = "q2\<lparr>cq_value := None\<rparr>"
  have dec: "sx_dec (hx_store x) (sx_enc (hx_store x) m) = Some m" for m using codec by (simp add: codec_law_def)
  have good: "good (st_inner (hd_store h))" using ok by (simp add: hyper_ok_def store_ok_def)
  obtain r s where upd: "update_mut (hx_store x) ?q m (hd_store h) = (r, s)" by fastforce
  obtain s' where s': "r = response_from ?q" "query_mut (hx_store x) ?q2 m2 s = (response_from (q2\<lparr>cq_value := Some (sx_enc (hx_store x) m)\<rparr>), s')"
    using lru_cache.update_mut_then_query [OF lru good refl m(1,2) _ _ _ q2(5,6) upd, of ?q2] m(3,5) q2(3) by auto
  have "store_ok (hx_store x) good view s"
    using lru_cache.update_mut_keeps [OF lru _ refl _ upd] ok m(4) by (simp add: hyper_ok_def command_keeps_def)
  moreover have "on_command x e q h = hyper_reply x e (response_from ?q) (h\<lparr>hd_store := s\<rparr>)"
    using upd s'(1) q dec by (simp add: on_command_simps store_on_command_mut_def)
  ultimately obtain d where d: "answered x e q h (response_from ?q) (h\<lparr>hd_store := s, hd_inner := d\<rparr>)"
    "hyper_ok x good view now n (h\<lparr>hd_store := s, hd_inner := d\<rparr>)" using answered_store [OF ok] by blast
  have "store_ok (hx_store x) good view s'"
    using lru_cache.query_mut_keeps [OF lru _ refl s'(2)] d(2) by (simp add: hyper_ok_def command_keeps_def)
  moreover have "on_command x e2 q2 (h\<lparr>hd_store := s, hd_inner := d\<rparr>) =
      hyper_reply x e2 (response_from (q2\<lparr>cq_value := Some (sx_enc (hx_store x) m)\<rparr>)) (h\<lparr>hd_store := s, hd_inner := d\<rparr>\<lparr>hd_store := s'\<rparr>)"
    using s'(2) q2(1,2,4) dec by (simp add: on_command_simps store_on_command_mut_def)
  ultimately show ?thesis using answered_store [OF d(2)] d(1) by blast
qed

lemma mutable_response_collected:
  assumes "hm_get (hd_queries h) (rs_query resp) = Some (QGetMutable g m0)"
    and "rs_value resp = Some b" "sx_dec (hx_store x) b = Some m" "verify (hx_store x) (gr_key g) m = Inr ()"
    and "unwrap_or_default (mut_seq m0) \<le> unwrap_or_default (mut_seq m)"
  shows "\<exists>h'. hyper_inject_response x resp h = Inr h' \<and>
    hm_get (hd_queries h') (rs_query resp) = Some (QGetMutable (push_response resp m g) m0) \<and>
    hd_store h' = snd (store_put (hx_store x) (MutableKey (get_mut_key m (gr_key g))) (MutableEntry m) (hd_store h))"
  using assms by (auto simp: hyper_inject_response_def set_query_def put_mutable_def split: prod.splits)

text \<open>The stored value is replaced by that of a response whatever its sequence number is, as long as
  that is not below the one asked for: unlike an update by another node, a response can put an
  older value in the place of a newer one.\<close>

lemma response_overwrites_newer:
  assumes lru: "lru_cache (sx_lru (hx_store x)) good view" and good: "good (st_inner (hd_store h))"
    and "hm_get (hd_queries h) (rs_query resp) = Some (QGetMutable g m0)"
    and "rs_value resp = Some b" "sx_dec (hx_store x) b = Some m" "verify (hx_store x) (gr_key g) m = Inr ()"
    and "unwrap_or_default (mut_seq m0) \<le> unwrap_or_default (mut_seq m)"
    and "held view (get_mut_key m (gr_key g)) (hd_store h) = Some newer" "unwrap_or_default (mut_seq m) < unwrap_or_default (mut_seq newer)"
  shows "\<exists>h'. hyper_inject_response x resp h = Inr h' \<and> held view (get_mut_key m (gr_key g)) (hd_store h') = Some m"
proof -
  let ?k = "MutableKey (get_mut_key m (gr_key g))"
  have "view (st_inner (snd (store_put (hx_store x) ?k (MutableEntry m) (hd_store h)))) ?k = Some (MutableEntry m)"
    using lru_cache.store_put_only(1) [OF lru good refl, of ?k "MutableEntry m"] by (simp add: stored_only_def)
  then show ?thesis using mutable_response_collected [OF assms(3-7)] by (auto simp: held_def)
qed



section \<open>Announced peers\<close>

text \<open>The address that a node announces for a request from \<open>a\<close>: the port of the options if it is
  one, else that of the sender.\<close>

definition announced_addr :: "query_opts \<Rightarrow> u8 \<times> u8 \<times> u8 \<times> u8 \<Rightarrow> u16 \<Rightarrow> socket_addr" where
  "announced_addr opts ip port =
     SockV4 ip (case qo_port opts of Some n \<Rightarrow> if unat n < 2 ^ 16 then ucast n else port | None \<Rightarrow> port)"

lemma announced_addr_port:
  "announced_addr opts ip port =
     SockV4 ip (announced_port \<lparr>pi_port = qo_port opts, pi_local_address = l, pi_unannounce = un\<rparr> (SockV4 ip port))"
  by (simp add: announced_addr_def announced_port_def addr_port_def split: option.splits)

lemma ac_time_remotes: "ac_ok d \<Longrightarrow> ac_time (ARemote a) d = Some t \<Longrightarrow> \<exists>rs. iter_remotes d = Some rs \<and> a \<in> set rs"
  by (cases d) (auto simp: ce_ok_def synced_def dest: hm_get_keysD)

lemma pc_get_entry_ok:
  assumes "pc_ok c" and "pc_get now k c = Inr (Some d, c')"
  shows "ac_ok d"
proof -
  have "hm_get (pc_map c') k = Some d" using assms(2) by (auto simp: pc_get_def Let_def res_bind_Inr_iff split: option.splits)
  moreover have "pc_ok c'" using pc_get_ok [OF assms(1), of now k] assms(2) by auto
  ultimately show ?thesis by (auto simp: pc_ok_def)
qed

lemma take_filter_min: "take (min (length xs) n) (filter P xs) = take n (filter P xs)"
  by (metis length_filter_le min.cobounded1 min.commute take_all_iff take_take)

lemma query_remotes_found:
  assumes "pc_ok c" and g: "pc_get now k c = Inr (Some d, c')" and "ac_time (ARemote a) d = Some t" and "length (remotes_of k c) \<le> 128"
    and "a \<noteq> from" "is_v4 a"
  shows "\<exists>buf. query_remotes now k from None c = Inr (Some buf, c') \<and> a \<in> set (decode_peers buf)"
proof -
  obtain rs where rs: "iter_remotes d = Some rs" "a \<in> set rs" using ac_time_remotes [OF pc_get_entry_ok [OF assms(1,2)] assms(3)] by blast
  let ?buf = "concat (map encode_addr (take 128 (filter (\<lambda>b. b \<noteq> from) rs)))"
  have "length (filter (\<lambda>b. b \<noteq> from) rs) \<le> 128"
    using get_remotes [OF g rs(1)] assms(4) length_filter_le [of "\<lambda>b. b \<noteq> from" rs] by linarith
  then have "a \<in> set (decode_peers ?buf)" using rs(2) assms(5,6) by (simp add: decode_encode_addrs)
  moreover have "query_remotes now k from None c = Inr (Some ?buf, c')"
    using g rs(1) by (simp add: query_remotes_def usize_sub_def take_filter_min)
  ultimately show ?thesis by blast
qed

lemma answered_peers:
  assumes ok: "hyper_ok x good view now n h" and c: "pc_ok c" "0 < pc_capacity c" "kinds_ok c"
    and "on_command x e q h = hyper_reply x e resp (h\<lparr>hd_peers := c\<rparr>)"
  shows "\<exists>d. answered x e q h resp (h\<lparr>hd_peers := c, hd_inner := d\<rparr>) \<and> hyper_ok x good view now n (h\<lparr>hd_peers := c, hd_inner := d\<rparr>)"
proof -
  obtain d where "hyper_reply x e resp (h\<lparr>hd_peers := c\<rparr>) = Inr (h\<lparr>hd_peers := c, hd_inner := d\<rparr>)"
    "hyper_ok x good view now n (h\<lparr>hd_peers := c, hd_inner := d\<rparr>)"
    using reply_keeps [OF hyper_ok_peers [OF ok c]] by blast
  moreover have "h\<lparr>hd_peers := c\<rparr> = h\<lparr>hd_store := hd_store h, hd_peers := c\<rparr>" by simp
  ultimately show ?thesis using assms(5) unfolding answered_def by metis
qed

lemma lookup_collects:
  assumes "hm_get (hd_queries h) (rs_query resp) = Some (QLookUp inner)" and "rs_value resp = Some b"
    and "hx_out_dec x b = Some \<lparr>pu_peers = Some buf, pu_local_peers = None\<rparr>" and "a \<in> set (decode_peers buf)"
  shows "\<exists>h' l. hyper_inject_response x resp h = Inr h' \<and>
    hd_queued_events (hyper_query_finished (rs_query resp) h') = hd_queued_events h @ [LookupResult l (rs_query resp)] \<and>
    lk_topic l = qi_topic inner \<and> a \<in> set (lk_remotes l)"
proof -
  have "decode_peers buf \<noteq> []" using assms(4) by auto
  then obtain inner' where "inner_inject_response x resp inner = Inr inner'" "qi_topic inner' = qi_topic inner"
    "\<exists>p \<in> set (qi_responses inner'). a \<in> set (pf_peers p)"
    using assms(2-4) by (auto simp: inner_inject_response_def Let_def)
  then show ?thesis using assms(1)
    by (auto simp: hyper_inject_response_def set_query_def hyper_query_finished_def push_hyper_event_def lk_remotes_def)
qed

lemma announce_then_get:
  assumes ok: "pc_ok c" "0 < pc_capacity c" "kinds_ok c" and time: "now \<le> now'" "now' \<le> now + pc_age c"
    and few: "length (remotes_of (KRemote i) c) < 128" and v4: "is_v4 a" "a \<noteq> from"
  shows "\<exists>c1 c2 buf. pc_insert now (KRemote i) (ARemote a) c = Inr c1 \<and> pc_ok c1 \<and> 0 < pc_capacity c1 \<and> kinds_ok c1 \<and>
    query_remotes now' (KRemote i) from None c1 = Inr (Some buf, c2) \<and> pc_ok c2 \<and> 0 < pc_capacity c2 \<and> kinds_ok c2 \<and>
    a \<in> set (decode_peers buf)"
proof -
  obtain c1 where c1: "pc_insert now (KRemote i) (ARemote a) c = Inr c1" "pc_ok c1" "pc_capacity c1 = pc_capacity c"
    using pc_insert_ok [OF ok(1,2)] by blast
  then have k1: "kinds_ok c1" using kinds_ok_insert [OF _ ok] by simp
  have "same_kind (ARemote a) d" if "hm_get (pc_map c) (KRemote i) = Some d" for d
  proof -
    have "key_kind (KRemote i) d" using ok(3) that by (simp add: kinds_ok_def)
    then show ?thesis by (cases d) simp_all
  qed
  then obtain d c2 where d: "pc_get now' (KRemote i) c1 = Inr (Some d, c2)" "ac_time (ARemote a) d = Some (now + pc_age c)"
    using pc_insert_then_get [OF ok(1,2) _ c1(1) time] by blast
  have "length (remotes_of (KRemote i) c1) \<le> 128" using insert_remotes [OF c1(1)] few by simp
  then obtain buf where buf: "query_remotes now' (KRemote i) from None c1 = Inr (Some buf, c2)" "a \<in> set (decode_peers buf)"
    using query_remotes_found [OF c1(2) d _ v4(2,1)] by blast
  have "pc_ok c2" "pc_capacity c2 = pc_capacity c1" using pc_get_ok [OF c1(2), of now' "KRemote i"] d(1) by auto
  then show ?thesis using c1 k1 ok(2) buf kinds_ok_get [OF d(1) k1] by auto
qed

text \<open>C4. Announce and lookup.  A reachable node that handles the update which an announcement sends
  (without a LAN address) answers a following lookup of the topic by another address, within the
  age of the cache, with a list of peers that contains the announced address, provided that fewer
  than 128 addresses were known for the topic; and a node whose lookup query gets this answer
  reports the address in its result.\<close>

theorem announce_lookup:
  assumes lib: "sha_32 (hx_rpc x)" "lru_cache (sx_lru (hx_store x)) good view"
    and laws: "codec_law (hx_in_enc x) (hx_in_dec x)" "codec_law (hx_out_enc x) (hx_out_dec x)"
    and node: "reached x h" and few: "length (remotes_of (KRemote topic) (hd_peers h)) < 128"
    and lan: "qo_local_addr opts = None" "qo_local_addr opts2 = None"
    and q: "cq_command q = PEERS_CMD" "cq_ty q = TUpdate" "cq_target q = topic" "cq_value q = Some (peers_payload x None opts)"
      "peer_addr (cq_peer q) = SockV4 ip port"
    and q2: "cq_command q2 = PEERS_CMD" "cq_ty q2 = TQuery" "cq_target q2 = topic" "cq_value q2 = Some (peers_payload x None opts2)"
      "peer_addr (cq_peer q2) = SockV4 ip2 port2"
    and other: "announced_addr opts ip port \<noteq> announced_addr opts2 ip2 port2"
    and time: "he_insert_remote e \<le> he_get_remote e2" "he_get_remote e2 \<le> he_insert_remote e + pc_age (hd_peers h)"
  shows "\<exists>h1 h2 out. answered x e q h (response_from (q\<lparr>cq_value := None\<rparr>)) h1 \<and>
    answered x e2 q2 h1 (response_from (q2\<lparr>cq_value := Some (hx_out_enc x out)\<rparr>)) h2 \<and>
    (\<forall>hc inner resp. hm_get (hd_queries hc) (rs_query resp) = Some (QLookUp inner) \<longrightarrow> rs_value resp = Some (hx_out_enc x out) \<longrightarrow>
       (\<exists>hc' l. hyper_inject_response x resp hc = Inr hc' \<and>
          hd_queued_events (hyper_query_finished (rs_query resp) hc') = hd_queued_events hc @ [LookupResult l (rs_query resp)] \<and>
          lk_topic l = qi_topic inner \<and> announced_addr opts ip port \<in> set (lk_remotes l)))"
proof -
  let ?a = "announced_addr opts ip port" and ?b = "announced_addr opts2 ip2 port2"
  obtain now n where ok: "hyper_ok x good view now n h" using reached_ok [OF lib node] by blast
  then have peers: "pc_ok (hd_peers h)" "0 < pc_capacity (hd_peers h)" "kinds_ok (hd_peers h)" by (simp_all add: hyper_ok_def)
  have "is_v4 ?a" by (simp add: announced_addr_def is_v4_def)
  from announce_then_get [OF peers time few this other] obtain c1 c2 buf where
    c1: "pc_insert (he_insert_remote e) (KRemote topic) (ARemote ?a) (hd_peers h) = Inr c1" "pc_ok c1" "0 < pc_capacity c1" "kinds_ok c1"
    and c2: "query_remotes (he_get_remote e2) (KRemote topic) ?b None c1 = Inr (Some buf, c2)" "pc_ok c2" "0 < pc_capacity c2" "kinds_ok c2"
    and buf: "?a \<in> set (decode_peers buf)" by blast
  have dec: "hx_in_dec x (peers_payload x None op) = Some \<lparr>pi_port = qo_port op, pi_local_address = None, pi_unannounce = None\<rparr>"
    if "qo_local_addr op = None" for op
    using laws(1) that by (simp add: peers_payload_def codec_law_def local_addr_encoded_def)
  let ?out = "\<lparr>pu_peers = Some buf, pu_local_peers = None\<rparr>"
  have "on_command x e q h = hyper_reply x e (response_from (q\<lparr>cq_value := None\<rparr>)) (h\<lparr>hd_peers := c1\<rparr>)"
    using q lan(1) dec c1(1) by (simp add: on_command_simps on_peers_def Let_def local_cache_def announced_addr_port [symmetric])
  then obtain d where d: "answered x e q h (response_from (q\<lparr>cq_value := None\<rparr>)) (h\<lparr>hd_peers := c1, hd_inner := d\<rparr>)"
    "hyper_ok x good view now n (h\<lparr>hd_peers := c1, hd_inner := d\<rparr>)" using answered_peers [OF ok c1(2-4)] by blast
  have "on_command x e2 q2 (h\<lparr>hd_peers := c1, hd_inner := d\<rparr>) =
      hyper_reply x e2 (response_from (q2\<lparr>cq_value := Some (hx_out_enc x ?out)\<rparr>)) (h\<lparr>hd_peers := c1, hd_inner := d\<rparr>\<lparr>hd_peers := c2\<rparr>)"
    using q2 lan(2) dec c2(1)
    by (simp add: on_command_simps on_peers_def Let_def local_cache_def query_locals_def announced_addr_port [symmetric])
  then obtain h2 where "answered x e2 q2 (h\<lparr>hd_peers := c1, hd_inner := d\<rparr>) (response_from (q2\<lparr>cq_value := Some (hx_out_enc x ?out)\<rparr>)) h2"
    using answered_peers [OF d(2) c2(2-4)] by blast
  moreover have "hx_out_dec x (hx_out_enc x ?out) = Some ?out" using laws(2) by (simp add: codec_law_def)
  ultimately show ?thesis using d(1) lookup_collects [OF _ _ _ buf] by blast
qed

theorem announce_lookup_witness:
  "\<exists>h0 h1 h2 out hc' l.
     (let q = sample_cmd PEERS_CMD TUpdate (replicate 32 7) 80 (Some (peers_payload sample_flow None (with_port (replicate 32 7) 99)));
          q2 = sample_cmd PEERS_CMD TQuery (replicate 32 7) 81 (Some (peers_payload sample_flow None (query_opts_new (replicate 32 7))))
      in answered sample_flow sample_henv q h0 (response_from (q\<lparr>cq_value := None\<rparr>)) h1 \<and>
         answered sample_flow sample_henv q2 h1 (response_from (q2\<lparr>cq_value := Some (hx_out_enc sample_flow out)\<rparr>)) h2 \<and>
         hyper_inject_response sample_flow (sample_response (hx_out_enc sample_flow out))
           (set_query 1 (QLookUp (inner_new (replicate 32 7) None)) h0) = Inr hc' \<and>
         last (hd_queued_events (hyper_query_finished 1 hc')) = LookupResult l 1 \<and> SockV4 (127, 0, 0, 1) 99 \<in> set (lk_remotes l))"
proof -
  let ?t = "replicate 32 7 :: bytes" and ?p = "SockV4 (127, 0, 0, 1) 99"
  let ?q = "sample_cmd PEERS_CMD TUpdate ?t 80 (Some (peers_payload sample_flow None (with_port ?t 99)))"
  let ?q2 = "sample_cmd PEERS_CMD TQuery ?t 81 (Some (peers_payload sample_flow None (query_opts_new ?t)))"
  obtain h0 where h0: "reached sample_flow h0" "hd_peers h0 = pc_new 65536 (60 * 25 * 1000)" using sample_node by blast
  have addr: "announced_addr (with_port ?t 99) (127, 0, 0, 1) 80 = ?p" "announced_addr (query_opts_new ?t) (127, 0, 0, 1) 81 = SockV4 (127, 0, 0, 1) 81"
    by (simp_all add: announced_addr_def with_port_def query_opts_new_def)
  have "\<exists>h1 h2 out. answered sample_flow sample_henv ?q h0 (response_from (?q\<lparr>cq_value := None\<rparr>)) h1 \<and>
    answered sample_flow sample_henv ?q2 h1 (response_from (?q2\<lparr>cq_value := Some (hx_out_enc sample_flow out)\<rparr>)) h2 \<and>
    (\<forall>hc inner resp. hm_get (hd_queries hc) (rs_query resp) = Some (QLookUp inner) \<longrightarrow> rs_value resp = Some (hx_out_enc sample_flow out) \<longrightarrow>
       (\<exists>hc' l. hyper_inject_response sample_flow resp hc = Inr hc' \<and>
          hd_queued_events (hyper_query_finished (rs_query resp) hc') = hd_queued_events hc @ [LookupResult l (rs_query resp)] \<and>
          lk_topic l = qi_topic inner \<and> announced_addr (with_port ?t 99) (127, 0, 0, 1) 80 \<in> set (lk_remotes l)))"
    by (rule announce_lookup [OF sample_flow_laws(1,2,4,5) h0(1), where topic = ?t and ?opts2.0 = "query_opts_new ?t" and ?ip2.0 = "(127, 0, 0, 1)" and ?port2.0 = 81])
      (use h0(2) addr in \<open>simp_all add: with_port_def query_opts_new_def remotes_of_def sample_henv_def\<close>)
  then obtain h1 h2 out where ans: "answered sample_flow sample_henv ?q h0 (response_from (?q\<lparr>cq_value := None\<rparr>)) h1"
    "answered sample_flow sample_henv ?q2 h1 (response_from (?q2\<lparr>cq_value := Some (hx_out_enc sample_flow out)\<rparr>)) h2"
    and get: "\<And>hc inner resp. hm_get (hd_queries hc) (rs_query resp) = Some (QLookUp inner) \<Longrightarrow> rs_value resp = Some (hx_out_enc sample_flow out) \<Longrightarrow>
       \<exists>hc' l. hyper_inject_response sample_flow resp hc = Inr hc' \<and>
          hd_queued_events (hyper_query_finished (rs_query resp) hc') = hd_queued_events hc @ [LookupResult l (rs_query resp)] \<and>
          lk_topic l = qi_topic inner \<and> ?p \<in> set (lk_remotes l)"
    unfolding addr by blast
  obtain hc' l where
    "hyper_inject_response sample_flow (sample_response (hx_out_enc sample_flow out)) (set_query 1 (QLookUp (inner_new ?t None)) h0) = Inr hc'"
    "last (hd_queued_events (hyper_query_finished 1 hc')) = LookupResult l 1" "?p \<in> set (lk_remotes l)"
    using get [of "set_query 1 (QLookUp (inner_new ?t None)) h0" "sample_response (hx_out_enc sample_flow out)" "inner_new ?t None"] by auto
  then show ?thesis using ans unfolding Let_def by blast
qed

section \<open>Kinds of cached addresses\<close>

text \<open>C23. The peer cache is well typed.  Whatever command of another node a reachable node handles,
  afterwards every entry of its peer cache is of the kind of its key: remote keys have caches of
  socket addresses and LAN keys caches of LAN suffixes, each with the addresses in its list once
  and exactly those of its map.  (The insertion of an address into a cache of the other kind
  would be dropped without notice.)\<close>

theorem cache_typed:
  assumes lib: "sha_32 (hx_rpc x)" "lru_cache (sx_lru (hx_store x)) good view" and node: "reached x h" and q: "length (cq_target q) = 32"
  shows "\<exists>h1. on_command x e q h = Inr h1 \<and>
    (\<forall>k d. hm_get (pc_map (hd_peers h1)) k = Some d \<longrightarrow>
       (case k of
          KRemote _ \<Rightarrow> \<exists>c. d = CRemote c \<and> distinct (ce_list c) \<and> set (ce_list c) = hm_keys (ce_inner c)
        | KLocal _ _ \<Rightarrow> \<exists>c. d = CLocal c \<and> distinct (ce_list c) \<and> set (ce_list c) = hm_keys (ce_inner c)))"
proof -
  obtain now n where ok: "hyper_ok x good view now n h" using reached_ok [OF lib node] by blast
  obtain h1 where h1: "on_command x e q h = Inr h1" "hyper_ok x good view now n h1" using on_command_ok [OF lib(2) ok q] by blast
  have "case k of
      KRemote _ \<Rightarrow> \<exists>c. d = CRemote c \<and> distinct (ce_list c) \<and> set (ce_list c) = hm_keys (ce_inner c)
    | KLocal _ _ \<Rightarrow> \<exists>c. d = CLocal c \<and> distinct (ce_list c) \<and> set (ce_list c) = hm_keys (ce_inner c)"
    if "hm_get (pc_map (hd_peers h1)) k = Some d" for k d
  proof -
    have "key_kind k d" "ac_ok d" using that h1(2) by (auto simp: hyper_ok_def kinds_ok_def pc_ok_def)
    then show ?thesis by (cases k; cases d) (simp_all add: ce_ok_def synced_def)
  qed
  then show ?thesis using h1(1) by blast
qed

theorem cache_typed_witness:
  "\<exists>h0 h1 d c.
     on_command sample_flow sample_henv
       (sample_cmd PEERS_CMD TUpdate (replicate 32 7) 80 (Some (peers_payload sample_flow None (query_opts_new (replicate 32 7))))) h0 = Inr h1 \<and>
     hm_get (pc_map (hd_peers h1)) (KRemote (replicate 32 7)) = Some d \<and> d = CRemote c \<and> distinct (ce_list c)"
proof -
  let ?t = "replicate 32 7 :: bytes" and ?a = "SockV4 (127, 0, 0, 1) 80"
  let ?q = "sample_cmd PEERS_CMD TUpdate ?t 80 (Some (peers_payload sample_flow None (query_opts_new ?t)))"
  obtain h0 where h0: "reached sample_flow h0" "hd_peers h0 = pc_new 65536 (60 * 25 * 1000)" using sample_node by blast
  obtain h1 where h1: "on_command sample_flow sample_henv ?q h0 = Inr h1"
    and kind: "\<And>k d. hm_get (pc_map (hd_peers h1)) k = Some d \<Longrightarrow>
       (case k of
          KRemote _ \<Rightarrow> \<exists>c. d = CRemote c \<and> distinct (ce_list c) \<and> set (ce_list c) = hm_keys (ce_inner c)
        | KLocal _ _ \<Rightarrow> \<exists>c. d = CLocal c \<and> distinct (ce_list c) \<and> set (ce_list c) = hm_keys (ce_inner c))"
    using cache_typed [OF sample_flow_laws(1,2) h0(1), of ?q sample_henv] by (auto simp del: replicate.simps)
  have dec: "hx_in_dec sample_flow (peers_payload sample_flow None (query_opts_new ?t)) =
      Some \<lparr>pi_port = None, pi_local_address = None, pi_unannounce = None\<rparr>"
    using sample_flow_laws(4) by (simp add: peers_payload_def codec_law_def local_addr_encoded_def query_opts_new_def)
  obtain c1 where c1: "pc_insert 3 (KRemote ?t) (ARemote ?a) (hd_peers h0) = Inr c1" "pc_ok c1"
    using pc_insert_ok [of "hd_peers h0" 3 "KRemote ?t" "ARemote ?a"] pc_new_ok h0(2) by (auto simp del: replicate.simps)
  have "hd_peers h1 = c1"
    using h1 dec c1(1) by (auto simp: on_command_simps on_peers_def Let_def local_cache_def sample_henv_def announced_port_def addr_port_def
        hyper_reply_def simp del: replicate.simps elim!: res_bind_InrE)
  moreover obtain d c2 where "pc_get 5 (KRemote ?t) c1 = Inr (Some d, c2)"
    using pc_insert_then_get [OF _ _ _ c1(1), of 5] pc_new_ok h0(2) by auto
  then have "\<exists>d. hm_get (pc_map c1) (KRemote ?t) = Some d"
    by (auto simp: pc_get_def res_bind_Inr_iff dest: pc_remove_expired_entry split: option.splits)
  ultimately obtain d where "hm_get (pc_map (hd_peers h1)) (KRemote ?t) = Some d" by blast
  then show ?thesis using h1 kind by fastforce
qed

section \<open>LAN peers\<close>

text \<open>C40. A lookup that names its own LAN address (as the documentation suggests for peers behind the
  same router) never reports a LAN peer: a response whose list of LAN peers consists of whole
  four-byte entries adds its remote peers only, and a response with any other length makes the
  node panic.\<close>

theorem lookup_lan_outcome:
  assumes "hm_get (hd_queries h) (rs_query resp) = Some (QLookUp inner)" and "qi_local_address inner = Some (SockV4 ip port)"
    and "rs_value resp = Some b" and "hx_out_dec x b = Some out" and "pu_local_peers out = Some buf"
  shows "hyper_inject_response x resp h =
    (if 4 dvd length buf then
       Inr (set_query (rs_query resp) (QLookUp (inner\<lparr>qi_responses := qi_responses inner @
         (case pu_peers out of
            Some p \<Rightarrow> if 6 \<le> length p
                      then [\<lparr>pf_node = rs_peer resp, pf_peer_id = rs_peer_id resp, pf_peers = decode_peers p, pf_local_peers = []\<rparr>]
                      else []
          | None \<Rightarrow> [])\<rparr>)) h)
     else Inl IndexOutOfBounds)"
proof -
  have "decode_peers p = [] \<longleftrightarrow> \<not> 6 \<le> length p" for p by (subst decode_peers_rec) simp
  then show ?thesis using assms
    by (auto simp: hyper_inject_response_def inner_inject_response_def decode_local_peers_outcome Let_def split: option.splits)
qed

theorem lookup_lan_outcome_witness:
  "\<forall>h :: (list_lru, bytes, bytes, bytes) hyper_dht.
     hyper_inject_response sample_hyper (sample_response [])
       (set_query 1 (QLookUp (inner_new (replicate 32 7) (Some (SockV4 (192, 168, 0, 2) 80)))) h) = Inl IndexOutOfBounds"
proof
  fix h :: "(list_lru, bytes, bytes, bytes) hyper_dht"
  let ?inner = "inner_new (replicate 32 7) (Some (SockV4 (192, 168, 0, 2) 80))"
  have "hm_get (hd_queries (set_query 1 (QLookUp ?inner) h)) (rs_query (sample_response [])) = Some (QLookUp ?inner)"
    by (simp del: replicate.simps)
  from lookup_lan_outcome [OF this, of "(192, 168, 0, 2)" 80 "[]" sample_hyper "\<lparr>pu_peers = Some [], pu_local_peers = Some [7]\<rparr>" "[7]"]
  show "hyper_inject_response sample_hyper (sample_response []) (set_query 1 (QLookUp ?inner) h) = Inl IndexOutOfBounds"
    by (simp add: sample_hyper_def inner_new_def)
qed

end
