(* ===== verification/Hyper_Exchange.thy ===== *)
theory Hyper_Exchange
  imports Hyper_Flows
begin

text \<open>
  A \<^verbatim>\<open>get\<close> across the wire: from the call on one node, through the polls of both nodes and the two
  datagrams between them, to the value in the result of the query.
\<close>

section \<open>The first request of a query\<close>

lemma idle_poll:
  assumes ok: "io_ok x io" and box: "outbox io = []" and pe: "pe_recv pe = RecvPending"
  shows "\<exists>io'. io_poll_next x pe io = Inr (Pending, io') \<and> io_ok x io' \<and> outbox io' = [] \<and> io_pending_recv io' = io_pending_recv io \<and>
    io_id io' = io_id io \<and> io_next_req_id io' = io_next_req_id io"
proof -
  have start: "start_send_next x io = (Inr (), io)" "io_pending_flush io = None"
    using box by (auto simp: start_send_next_def outbox_def split: option.splits list.splits)
  have "udp_ok (io_socket io)" using ok by (simp add: io_ok_def)
  then obtain u where u: "udp_poll_next (codec_decode (rl_decode x)) RecvPending (io_socket io) = Inr (Pending, u)" "udp_ok u"
    "udp_outgoing u = udp_outgoing (io_socket io)"
    using udp_poll_next_ok [of "io_socket io" RecvPending "codec_decode (rl_decode x)"] by auto
  then have "io_ok x (io\<lparr>io_socket := u\<rparr>)" using ok by (simp add: io_ok_def)
  then show ?thesis using start u(1) pe box
    by (simp add: io_poll_next_def io_read_def Let_def rotate_secrets_def io_ok_def outbox_def)
qed

lemma bootstrap_asks:
  assumes "qs_peer_iter q = Bootstrap (fixed_new (p # ps) n)" and "0 < n" and "qtype_is_query (qs_ty q)"
  shows "\<exists>q'. qs_poll_iter order q = Inr (Ready (Some (EvQuery p (qs_cmd q) (preimage (qt_target (qs_inner q))) (qs_value q))), q') \<and>
    qs_ty q' = qs_ty q \<and> qs_id q' = qs_id q"
  using assms by (subst qs_poll_iter.simps) (simp add: fixed_next_def fixed_new_def send_ready_def qs_send_def)

text \<open>A node with nothing to send that polls its new query first asks the first bootstrap node.\<close>

lemma first_request:
  assumes ok: "rpc_ok x now n d" "now \<le> t" and sha: "sha_32 x" and idle: "outbox (rd_io d) = []"
    and boot: "rd_bootstrap_nodes d = b # bs" "0 < qc_parallelism (qp_config (rd_queries d))"
    and run: "run_command x e cmd target val ty d = Inr (i, d1)" "qtype_is_query ty"
    and env: "pe_recv pe = RecvPending" "env_ok e'" "re_qorder e' (qp_queries (rd_queries d1)) = i # ids"
  shows "\<exists>d2 q. (\<forall>es. rpc_loop x t ((pe, e') # es) d1 =
        res_bind (inject_query_event x e' i (EvQuery (peer_from b) cmd (preimage target) val) d2) (rpc_loop x t es)) \<and>
      rpc_ok x t n d2 \<and> pool_get (rd_queries d2) i = Some q \<and> qs_ty q = ty \<and> outbox (rd_io d2) = [] \<and>
      io_id (rd_io d2) = io_id (rd_io d) \<and> io_next_req_id (rd_io d2) = io_next_req_id (rd_io d) \<and>
      rd_queued_events d2 = rd_queued_events d"
proof -
  have "rpc_ok x t n d" using ok by (auto intro: rpc_ok_mono)
  then have ok1: "rpc_ok x t n d1" using run_command_ok [of x t n d e cmd target val ty] run(1) by auto
  obtain q0 where d1: "hm_get (qp_queries (rd_queries d1)) i = Some q0" "rd_io d1 = rd_io d" "rd_queued_events d1 = rd_queued_events d"
    "qs_peer_iter q0 = Bootstrap (fixed_new (peer_from b # map peer_from bs) (qc_parallelism (qp_config (rd_queries d))))"
    "qs_ty q0 = ty" "qs_id q0 = i" "qs_cmd q0 = cmd" "qs_value q0 = val" "qt_target (qs_inner q0) = target" "st_start (qs_stats q0) = None"
    using run(1) boot(1)
    by (auto simp: run_command_def pool_add_stream_def pool_next_query_id_def qs_bootstrap_def stats_empty_def qt_new_def Let_def elim!: res_bind_InrE)
  have "io_ok x (rd_io d1)" using ok1 by (simp add: rpc_ok_def)
  then obtain io where io: "io_poll_next x pe (rd_io d1) = Inr (Pending, io)" "io_ok x io" "outbox io = []"
    "io_id io = io_id (rd_io d)" "io_next_req_id io = io_next_req_id (rd_io d)"
    using idle_poll [of x "rd_io d1" pe] idle env(1) d1(2) by auto
  let ?q = "q0\<lparr>qs_stats := (qs_stats q0)\<lparr>st_start := Some t\<rparr>\<rparr>"
  obtain q1 where q1: "qs_poll_iter (re_order e') ?q = Inr (Ready (Some (EvQuery (peer_from b) cmd (preimage target) val)), q1)" "qs_ty q1 = ty" "qs_id q1 = i"
    using bootstrap_asks [of ?q "peer_from b" "map peer_from bs" _ "re_order e'"] boot(2) d1(4-9) run(2) by auto
  let ?p = "(rd_queries d1)\<lparr>qp_queries := hm_insert i q1 (qp_queries (rd_queries d1))\<rparr>"
  have poll: "pool_poll (re_order e') (re_qorder e') t (rd_queries d1) = Inr (PoolWaiting (Some (i, EvQuery (peer_from b) cmd (preimage target) val)), ?p)"
    using d1(1,10) env(3) q1(1) by (simp add: pool_poll_def)
  have d2: "rpc_ok x t n (d1\<lparr>rd_io := io, rd_queries := ?p\<rparr>)"
    using pool_poll_inv [OF rpc_ok_io [OF ok1 io(2)] env(2), of "re_order e'"] poll by simp
  have get: "pool_get ?p i = Some q1" by (simp add: pool_get_def)
  have "rpc_loop x t ((pe, e') # es) d1 =
      res_bind (inject_query_event x e' i (EvQuery (peer_from b) cmd (preimage target) val) (d1\<lparr>rd_io := io, rd_queries := ?p\<rparr>)) (rpc_loop x t es)" for es
    using io(1) poll get q1(3) by simp
  then show ?thesis using d2 get q1(2) io(3-5) d1(3) by (intro exI [of _ "d1\<lparr>rd_io := io, rd_queries := ?p\<rparr>"] exI [of _ q1]) simp
qed

text \<open>The round that asks and the round in which the socket takes the request: from then on the node
  waits for the answer on behalf of the query.\<close>

lemma first_request_sent:
  assumes ok: "rpc_ok x now n d" "now \<le> t" and sha: "sha_32 x" and idle: "outbox (rd_io d) = []" "rd_queued_events d = []"
    and boot: "rd_bootstrap_nodes d = b # bs" "0 < qc_parallelism (qp_config (rd_queries d))"
    and run: "run_command x e (UnknownCmd s) target val ty d = Inr (i, d1)" "qtype_is_query ty" "command_from s = UnknownCmd s"
    and env: "pe_recv pe0 = RecvPending" "env_ok e0" "re_qorder e0 (qp_queries (rd_queries d1)) = i # ids" "pe_send pe1 = SendDone sent"
  shows "\<exists>d' req q. (\<forall>es. rpc_loop x t ((pe0, e0) # (pe1, e1) # es) d1 = rpc_loop x t es d') \<and> rpc_ok x t n d' \<and> rd_queued_events d' = [] \<and>
    hm_get (io_pending_recv (rd_io d')) (io_next_req_id (rd_io d)) = Some req \<and> rq_user_data req = i \<and> \<not> msg_is_ping (rq_message req) \<and>
    pool_get (rd_queries d') i = Some q \<and> qs_ty q = ty"
proof -
  let ?ev = "EvQuery (peer_from b) (UnknownCmd s) (preimage target) val"
  obtain d2 q where d2: "\<And>es. rpc_loop x t ((pe0, e0) # es) d1 = res_bind (inject_query_event x e0 i ?ev d2) (rpc_loop x t es)"
    "rpc_ok x t n d2" "pool_get (rd_queries d2) i = Some q" "qs_ty q = ty" "outbox (rd_io d2) = []"
    "io_next_req_id (rd_io d2) = io_next_req_id (rd_io d)" "rd_queued_events d2 = []"
    using first_request [OF ok sha idle(1) boot run(1,2) env(1-3)] idle(2) by auto
  let ?m = "query_message (io_msg_id (rd_io d2)) (io_next_req_id (rd_io d2)) s (preimage target) val b"
  obtain d3 where d3: "inject_query_event x e0 i ?ev d2 = Inr d3" "outbox (rd_io d3) = [MQuery ?m (peer_from b) i]" "d3 = d2\<lparr>rd_io := rd_io d3\<rparr>"
    using request_queued [of x e0 i b s "preimage target" val d2] d2(5) by auto
  then have ok3: "rpc_ok x t n d3" using inject_query_event_ok [OF d2(2) sha] by (metis sum.inject(2))
  obtain d4 where d4: "io_round x pe1 e1 d3 = Inr d4" "rpc_ok x t n d4" "d4 = d3\<lparr>rd_io := rd_io d4\<rparr>"
    "io_pending_recv (rd_io d4) = hm_insert (msg_rid ?m)
      \<lparr>rq_message = ?m, rq_peer = peer_from b, rq_timestamp = pe_sent_at pe1, rq_user_data = i\<rparr> (io_pending_recv (rd_io d3))"
    "\<exists>ev io. io_poll_next x pe1 (rd_io d3) = Inr (Ready ev, io)"
    using request_sent [OF ok3 d3(2) env(4)] by blast
  have same: "rd_queries d4 = rd_queries d2" "rd_queued_events d4 = []"
    using d2(7) arg_cong [OF d3(3), of rd_queries] arg_cong [OF d3(3), of rd_queued_events]
      arg_cong [OF d4(3), of rd_queries] arg_cong [OF d4(3), of rd_queued_events] by simp_all
  have "rpc_loop x t ((pe0, e0) # (pe1, e1) # es) d1 = rpc_loop x t es d4" for es
    using d2(1) d3(1) d4(1,5) same(2) rpc_loop_io_round by (auto simp: pop_event_def simp del: rpc_loop.simps)
  moreover have "\<not> msg_is_ping ?m" using run(3) by (auto simp: msg_is_ping_def cmd_eq_def query_message_def command_from_def)
  moreover have "msg_rid ?m = io_next_req_id (rd_io d)" using d2(6) by (simp add: query_message_def)
  ultimately show ?thesis using d4(2,4) same d2(3,4) by (intro exI [of _ d4]) auto
qed

section \<open>The node that holds the value\<close>

lemma hyper_reply_queued:
  assumes "rpc_ok (hx_rpc x) now n (hd_inner h)"
  shows "\<exists>h' r. hyper_reply x e (response_from q) h = Inr h' \<and>
    outbox (rd_io (hd_inner h')) = outbox (rd_io (hd_inner h)) @ [MResponse r (cq_peer q)] \<and>
    msg_type r = type_id TResponse \<and> msg_version r = Some VERSION \<and> msg_rid r = cq_rid q \<and> msg_value r = cq_value q \<and>
    msg_error r = None \<and> msg_id r = io_msg_id (rd_io (hd_inner h))"
proof -
  obtain d' r where d': "reply_command (hx_rpc x) (he_rpc e) (response_from q) (hd_inner h) = Inr d'"
    "outbox (rd_io d') = outbox (rd_io (hd_inner h)) @ [MResponse r (cq_peer q)]"
    "msg_type r = type_id TResponse" "msg_version r = Some VERSION" "msg_rid r = cq_rid q" "msg_value r = cq_value q"
    "msg_error r = None" "msg_id r = io_msg_id (rd_io (hd_inner h))"
    using reply_queued [OF assms, of "he_rpc e" q] by (elim exE conjE)
  then show ?thesis by (intro exI [of _ "h\<lparr>hd_inner := d'\<rparr>"] exI [of _ r]) (simp add: hyper_reply_def)
qed

text \<open>A query for a value that the node holds is answered with it.\<close>

lemma immutable_answer:
  assumes lru: "lru_cache (sx_lru (hx_store x)) good view" and ok: "hyper_ok x good view now n h"
    and held: "view (st_inner (hd_store h)) (ImmutableKey (cq_target q)) = Some (ImmutableEntry val)"
    and q: "cq_command q = IMMUTABLE_STORE_CMD" "cq_ty q = TQuery"
  shows "\<exists>h' r. on_command x e q h = Inr h' \<and>
    outbox (rd_io (hd_inner h')) = outbox (rd_io (hd_inner h)) @ [MResponse r (cq_peer q)] \<and>
    msg_type r = type_id TResponse \<and> msg_version r = Some VERSION \<and> msg_rid r = cq_rid q \<and> msg_value r = Some val \<and>
    msg_error r = None \<and> msg_id r = io_msg_id (rd_io (hd_inner h))"
proof -
  obtain v s where g: "store_get (hx_store x) (ImmutableKey (cq_target q)) (hd_store h) = (v, s)" by fastforce
  have "good (st_inner (hd_store h))" using ok by (simp add: hyper_ok_def store_ok_def)
  then have "v = Some (ImmutableEntry val)" using lru_cache.store_get_view(1) [OF lru _ refl g] held by simp
  then have eq: "on_command x e q h = hyper_reply x e (response_from (q\<lparr>cq_value := Some val\<rparr>)) (h\<lparr>hd_store := s\<rparr>)"
    using q g by (simp add: on_command_simps store_on_command_def store_query_def)
  have "rpc_ok (hx_rpc x) now n (hd_inner (h\<lparr>hd_store := s\<rparr>))" using ok by (simp add: hyper_ok_def)
  from hyper_reply_queued [OF this, of e "q\<lparr>cq_value := Some val\<rparr>"] show ?thesis unfolding eq by simp
qed

section \<open>The node that asks\<close>

text \<open>The poll after the call: the request goes out, the response comes in, and the value is in
  the result.\<close>

lemma get_poll:
  assumes lib: "sha_32 (hx_rpc x)" "wire_law (hx_rpc x)" and ok: "rpc_ok (hx_rpc x) now n (hd_inner hc)" "n + 1 < 2 ^ 32"
    and get: "get_immutable x e key hc = Inr (Inl i, hc1)" "hash_id (sx_blake (hx_store x)) val = key" "length key = 32"
    and idle: "outbox (rd_io (hd_inner hc)) = []" "rd_queued_events (hd_inner hc) = []"
      "rd_bootstrap_nodes (hd_inner hc) = b # bs" "0 < qc_parallelism (qp_config (rd_queries (hd_inner hc)))"
    and ip: "\<not> ip_bootstrap ip" "\<not> ip_ping ip" "now \<le> ip_now ip"
    and rounds: "pe_recv pe0 = RecvPending" "env_ok e0" "re_qorder e0 (qp_queries (rd_queries (hd_inner hc1))) = i # ids"
      "pe_send pe1 = SendDone sent"
    and r: "msg_type r = type_id TResponse" "msg_version r = Some VERSION" "sender_ok (msg_id r)" "msg_error r = None"
      "msg_rid r = io_next_req_id (rd_io (hd_inner hc))" "msg_value r = Some val"
  shows "\<exists>resp hc'.
    hyper_loop x (ip\<lparr>ip_rounds := [(pe0, e0), (pe1, e1), (arrival (hx_rpc x) pad r b pe, e2)]\<rparr> # ips) hc1 = hyper_loop x ips hc' \<and>
    rs_peer resp = b \<and> hm_get (hd_queries hc') i = Some (QGetImmutable (push_response resp val (get_result_new key i)))"
proof -
  let ?x = "hx_rpc x" and ?t = "ip_now ip" and ?cmd = "UnknownCmd IMMUTABLE_STORE_CMD"
  have cmd: "command_from IMMUTABLE_STORE_CMD = ?cmd" "qtype_is_query QTQuery"
    by (simp_all add: command_from_def IMMUTABLE_STORE_CMD_def qtype_is_query_def)
  obtain s d1 where d1: "run_command ?x e ?cmd (id_key ?x key) None QTQuery (hd_inner hc) = Inr (i, d1)"
    "hc1 = hc\<lparr>hd_store := s, hd_inner := d1, hd_queries := hm_insert i (QGetImmutable (get_result_new key i)) (hd_queries hc)\<rparr>"
    using get(1) cmd(1) by (auto simp: get_immutable_def start_query_def Let_def elim!: res_bind_InrE split: prod.splits option.splits)
  have ids: "re_qorder e0 (qp_queries (rd_queries d1)) = i # ids" using rounds(3) d1(2) by simp
  obtain d4 req q where d4: "\<And>es. rpc_loop ?x ?t ((pe0, e0) # (pe1, e1) # es) d1 = rpc_loop ?x ?t es d4" "rpc_ok ?x ?t n d4" "rd_queued_events d4 = []"
    "hm_get (io_pending_recv (rd_io d4)) (msg_rid r) = Some req" "rq_user_data req = i" "\<not> msg_is_ping (rq_message req)"
    "pool_get (rd_queries d4) i = Some q" "qs_ty q = QTQuery"
    using first_request_sent [OF ok(1) ip(3) lib(1) idle d1(1) cmd(2,1) rounds(1,2) ids rounds(4), of e1] unfolding r(5) by auto
  obtain d5 resp where d5: "io_round ?x (arrival ?x pad r b pe) e2 d4 = Inr d5"
    "rd_queued_events d5 = [ResponseResult (Inr (ResponseOk resp))]" "rs_query resp = i" "rs_value resp = Some val" "rs_peer resp = b"
    "\<exists>ev io. io_poll_next ?x (arrival ?x pad r b pe) (rd_io d4) = Inr (Ready ev, io)"
    using response_arrives [OF d4(2) ok(2) lib r(1-4) d4(4,6), of q pad b pe e2] d4(3,5,7,8) cmd(2) r(6) by auto
  have "rpc_loop ?x ?t [(pe0, e0), (pe1, e1), (arrival ?x pad r b pe, e2)] d1 =
      Inr (Some (Ready (ResponseResult (Inr (ResponseOk resp))), d5\<lparr>rd_queued_events := []\<rparr>))"
    using d4(1) d5(1,2,6) rpc_loop_io_round by (auto simp: pop_event_def simp del: rpc_loop.simps)
  moreover have "rd_queued_events d1 = []" using run_command_starts [OF d1(1)] idle(2) by auto
  ultimately have poll: "rpc_poll_next ?x ?t False False (ip_env ip) [(pe0, e0), (pe1, e1), (arrival ?x pad r b pe, e2)] d1 =
      Inr (Some (Ready (ResponseResult (Inr (ResponseOk resp))), d5\<lparr>rd_queued_events := []\<rparr>))"
    by (simp add: rpc_poll_next_def job_poll_def pop_event_def del: rpc_loop.simps)
  let ?h = "hc1\<lparr>hd_inner := d5\<lparr>rd_queued_events := []\<rparr>\<rparr>"
  obtain st where st: "put_immutable (hx_store x) key val (hd_store ?h) = st" by simp
  have inj: "hyper_inject_response x resp ?h = Inr (set_query i (QGetImmutable (push_response resp val (get_result_new key i))) (?h\<lparr>hd_store := snd st\<rparr>))"
    using d5(3,4) get(2) st d1(2) by (cases st) (simp add: hyper_inject_response_def get_result_new_def)
  moreover have "hd_inner hc1 = d1" using d1(2) by simp
  ultimately show ?thesis using poll ip(1,2) d5(5)
    by (intro exI [of _ resp] exI [of _ "set_query i (QGetImmutable (push_response resp val (get_result_new key i))) (?h\<lparr>hd_store := snd st\<rparr>)"])
      (simp add: set_query_def)
qed

section \<open>Properties\<close>


text \<open>Two nodes of the same configuration, with a bootstrap node; on one of them the value was put.\<close>

definition sample_net :: "(list_lru, bytes, bytes, bytes) hyper_lib" where
  "sample_net = sample_flow\<lparr>hx_rpc := sample_wire\<rparr>"

definition sample_config :: dht_config where
  "sample_config = dht_config_default\<lparr>dc_bootstrap_nodes := Some [SockV4 (10, 0, 0, 2) 53]\<rparr>"

definition sample_ip :: inner_poll where
  "sample_ip = \<lparr>ip_now = 1, ip_bootstrap = False, ip_ping = False, ip_env = sample_env, ip_rounds = [], ip_callback = sample_henv\<rparr>"

lemma sample_net_laws:
  "sha_32 (hx_rpc sample_net)" "wire_law (hx_rpc sample_net)" "lru_cache (sx_lru (hx_store sample_net)) (\<lambda>s. 0 < fst s) (\<lambda>s. map_of (snd s))"
  using sample_wire_laws sample_flow_laws(2) by (simp_all add: sample_net_def)

definition net_ready :: "rpc_dht \<Rightarrow> bool" where
  "net_ready d \<longleftrightarrow> IMMUTABLE_STORE_CMD \<in> rd_commands d \<and> sender_ok (io_msg_id (rd_io d)) \<and> outbox (rd_io d) = [] \<and> rd_queued_events d = [] \<and>
     rd_bootstrap_nodes d = [SockV4 (10, 0, 0, 2) 53] \<and> 0 < qc_parallelism (qp_config (rd_queries d))"

lemma net_ready_start:
  assumes "start_query x e cmd key val ty f h = Inr (i, h')" and "net_ready (hd_inner h)"
  shows "net_ready (hd_inner h')"
  using assms by (auto simp: start_query_def net_ready_def elim!: res_bind_InrE dest!: run_command_starts)

lemma sample_net_node:
  "\<exists>h0. hyper_with_config sample_net (\<lambda>_. None) sample_env [1] [2] 5 (replicate 32 3) 0 sample_config = Inr h0 \<and>
     hyper_ok sample_net (\<lambda>s. 0 < fst s) (\<lambda>s. map_of (snd s)) 0 0 h0 \<and> net_ready (hd_inner h0) \<and>
     hd_store h0 = store_new (hx_store sample_net) 5000"
proof -
  obtain h0 where h0: "hyper_with_config sample_net (\<lambda>_. None) sample_env [1] [2] 5 (replicate 32 3) 0 sample_config = Inr h0"
    "hyper_ok sample_net (\<lambda>s. 0 < fst s) (\<lambda>s. map_of (snd s)) 0 0 h0"
    using hyper_with_config_ok [OF sample_net_laws(1,3)] by blast
  have "net_ready (hd_inner h0) \<and> hd_store h0 = store_new (hx_store sample_net) 5000"
    using h0(1)
    by (auto simp: hyper_with_config_def with_config_def rpc_bootstrap_def rpc_query_def sample_config_def dht_config_default_def register_commands_def
        net_ready_def io_new_def outbox_def sender_ok_def io_msg_id_def id_key_def key_new_def pool_new_def query_config_default_def ALPHA_VALUE_def Let_def
        elim!: res_bind_InrE dest!: run_command_starts)
  then show ?thesis using h0 by blast
qed

lemma sample_net_get:
  assumes "hyper_ok sample_net (\<lambda>s. 0 < fst s) (\<lambda>s. map_of (snd s)) now n h0" and "hd_store h0 = store_new (hx_store sample_net) 5000"
  shows "\<exists>i hc1. get_immutable sample_net sample_env key h0 = Inr (Inl i, hc1)"
proof -
  have "sx_lru (hx_store sample_net) = list_lru" by (simp add: sample_net_def sample_flow_def sample_lib_def)
  then have "store_get (hx_store sample_net) (ImmutableKey key) (hd_store h0) = (None, hd_store h0)"
    using assms(2) by (simp add: store_get_def store_new_def list_lru_def list_lru_get_def)
  then show ?thesis using get_immutable_ok [OF sample_net_laws(3) assms(1), of sample_env key]
    by (auto simp: get_immutable_def Let_def elim!: res_bind_InrE)
qed


end
