(* ===== verification/Hyper_Term.thy ===== *)
theory Hyper_Term
  imports Hyper_Exchange
begin

text \<open>
  Termination of \<^verbatim>\<open>HyperDht::poll_next\<close>: its loop polls the node again after every event that it
  handles itself, so it ends because the node runs out of events.
\<close>

section \<open>Polls in which nothing arrives\<close>

definition quiet_poll :: "inner_poll \<Rightarrow> bool" where
  "quiet_poll ip \<longleftrightarrow> \<not> ip_bootstrap ip \<and> \<not> ip_ping ip \<and> list_all quiet_round (ip_rounds ip)"

text \<open>Enough for the loop: as many polls of the node as it has events left, each with as many rounds
  as it has work left; the reaction to an event adds one message at most.\<close>

definition hyper_work :: "('s, 'pk, 'sk, 'sig) hyper_dht \<Rightarrow> nat" where
  "hyper_work h = node_effort (hd_inner h) + event_budget (hd_inner h)"

lemma hyper_quiet_loop:
  assumes sha: "sha_32 (hx_rpc x)" and lru: "lru_cache (sx_lru (hx_store x)) good view" and n: "n + 1 < 2 ^ 32"
  shows "hyper_ok x good view now n h \<Longrightarrow> polls_adm now ips \<Longrightarrow> list_all quiet_poll ips \<Longrightarrow>
    event_budget (hd_inner h) < length ips \<Longrightarrow> \<forall>ip \<in> set ips. hyper_work h < length (ip_rounds ip) \<Longrightarrow>
    \<exists>ev h'. hyper_loop x ips h = Inr (Some (ev, h'))"
proof (induction ips arbitrary: now h)
  case (Cons ip ips)
  let ?t = "ip_now ip" and ?d = "hd_inner h"
  have adm: "now \<le> ?t" "polls_adm ?t ips" using Cons.prems(2) by simp_all
  obtain k where k: "boot_ok k ?d" and ok: "rpc_ok (hx_rpc x) ?t n ?d"
    using Cons.prems(1) adm(1) by (auto simp: hyper_ok_def intro: rpc_ok_mono)
  have q: "\<not> ip_bootstrap ip" "\<not> ip_ping ip" "list_all quiet_round (ip_rounds ip)" "node_effort ?d < length (ip_rounds ip)"
    using Cons.prems(3,5) by (simp_all add: quiet_poll_def hyper_work_def)
  obtain ev d where d: "rpc_poll_next (hx_rpc x) ?t False False (ip_env ip) (ip_rounds ip) ?d = Inr (Some (ev, d))" "rpc_ok (hx_rpc x) ?t n d"
    "node_effort d \<le> node_effort ?d" "ev \<noteq> Pending \<Longrightarrow> event_budget d < event_budget ?d"
    using quiet_poll_returns [OF sha n ok q(3,4), of "ip_env ip"] by blast
  then have poll: "rpc_poll_next (hx_rpc x) ?t (ip_bootstrap ip) (ip_ping ip) (ip_env ip) (ip_rounds ip) ?d = Inr (Some (ev, d))" using q by simp
  have "poll_ok k (ev, d)" using rpc_poll_next_boot [OF d(1) k] .
  then have boot: "boot_ok (k + poll_boots ev) d" "\<And>e. ev = Ready e \<Longrightarrow> event_target_ok e" by (auto simp: poll_ok_def)
  have "hyper_ok x good view ?t n (h\<lparr>hd_inner := d\<rparr>)" by (rule hyper_ok_inner [OF Cons.prems(1) d(2) boot(1)])
  from hyper_round [OF lru this boot(2) poll] consider
      (stop) ev' h' where "hyper_loop x (ip # ips) h = Inr (Some (ev', h'))"
    | (go) h' where "ev \<noteq> Pending" "hyper_loop x (ip # ips) h = hyper_loop x ips h'" "hyper_ok x good view ?t n h'" "inner_step d (hd_inner h')" by blast
  then show ?case
  proof cases
    case stop
    then show ?thesis by blast
  next
    case go
    have le: "event_budget (hd_inner h') < event_budget ?d" "hyper_work h' \<le> hyper_work h"
      using d(3,4) go(1,4) by (auto simp: inner_step_def event_budget_def node_effort_def hyper_work_def)
    then have "\<forall>ip \<in> set ips. hyper_work h' < length (ip_rounds ip)" "event_budget (hd_inner h') < length ips"
      using Cons.prems(4,5) by fastforce+
    then show ?thesis using Cons.IH [OF go(3) adm(2)] Cons.prems(3) go(2) by simp
  qed
qed simp

section \<open>Properties\<close>

text \<open>C7. A poll of \<^verbatim>\<open>HyperDht\<close> returns.  After any run of calls and polls there is a bound such that the
  next poll returns an event or \<^verbatim>\<open>Pending\<close> as soon as that many polls of the node, each of that many
  rounds, go by without a datagram and without a job that is due; whatever is in the queues and
  whichever queries are running.\<close>

theorem hyper_poll_terminates:
  assumes lib: "sha_32 (hx_rpc x)" "lru_cache (sx_lru (hx_store x)) good view"
    and run: "hyper_with_config x resolve e k1 k2 first random_id now config = Inr h0" "hyper_adm x now ops"
      "hyper_run x ops h0 = Inr (Some (outs, h))" "sum_list (map op_rounds ops) + 1 < 2 ^ 32"
  shows "\<exists>N. \<forall>ips. list_all quiet_poll ips \<and> polls_adm (foldl op_end now ops) ips \<and> N \<le> length ips \<and>
      list_all (\<lambda>ip. N \<le> length (ip_rounds ip)) ips \<longrightarrow>
    (\<exists>ev h'. hyper_poll_next x ips h = Inr (Some (ev, h')))"
proof (intro exI [of _ "hyper_work h + 1"] allI impI)
  fix ips
  let ?N = "hyper_work h + 1"
  assume ips: "list_all quiet_poll ips \<and> polls_adm (foldl op_end now ops) ips \<and> ?N \<le> length ips \<and> list_all (\<lambda>ip. ?N \<le> length (ip_rounds ip)) ips"
  have "hyper_ok x good view now 0 h0" using hyper_with_config_ok [OF lib, of resolve e k1 k2 first random_id now config] run(1) by auto
  then have ok: "hyper_ok x good view (foldl op_end now ops) (sum_list (map op_rounds ops)) h"
    using hyper_run_ok [OF lib _ run(2), of 0 h0] run(3,4) by auto
  show "\<exists>ev h'. hyper_poll_next x ips h = Inr (Some (ev, h'))"
  proof (cases "pop_hyper_event h")
    case None
    have "event_budget (hd_inner h) < length ips" "\<forall>ip \<in> set ips. hyper_work h < length (ip_rounds ip)"
      using ips by (auto simp: hyper_work_def list_all_iff)
    then show ?thesis using None hyper_quiet_loop [OF lib run(4) ok] ips by (simp add: hyper_poll_next_def)
  qed (auto simp: hyper_poll_next_def)
qed

theorem hyper_poll_terminates_witness:
  "\<exists>h0 i h N ev h'. hyper_with_config sample_net (\<lambda>_. None) sample_env [1] [2] 5 (replicate 32 3) 0 sample_config = Inr h0 \<and>
     hyper_run sample_net [HGetImmutable sample_env (42 # replicate 31 0)] h0 = Inr (Some ([OutId i], h)) \<and>
     hyper_poll_next sample_net (replicate N (sample_ip\<lparr>ip_rounds := replicate N (sample_poll SendPending RecvPending, sample_env)\<rparr>)) h = Inr (Some (ev, h'))"
proof -
  let ?op = "HGetImmutable sample_env (42 # replicate 31 0) :: (bytes, bytes, bytes) hyper_op"
  let ?ip = "\<lambda>N. sample_ip\<lparr>ip_rounds := replicate N (sample_poll SendPending RecvPending, sample_env)\<rparr>"
  obtain h0 where h0: "hyper_with_config sample_net (\<lambda>_. None) sample_env [1] [2] 5 (replicate 32 3) 0 sample_config = Inr h0"
    "hyper_ok sample_net (\<lambda>s. 0 < fst s) (\<lambda>s. map_of (snd s)) 0 0 h0" "hd_store h0 = store_new (hx_store sample_net) 5000"
    using sample_net_node by blast
  obtain i h where "get_immutable sample_net sample_env (42 # replicate 31 0) h0 = Inr (Inl i, h)" using sample_net_get [OF h0(2,3)] by blast
  then have run: "hyper_run sample_net [?op] h0 = Inr (Some ([OutId i], h))" by (simp del: replicate.simps)
  have adm: "hyper_adm sample_net 0 [?op]" "sum_list (map op_rounds [?op]) + 1 < 2 ^ 32" by (simp_all del: replicate.simps)
  obtain N where N: "\<And>ips. list_all quiet_poll ips \<and> polls_adm (foldl op_end 0 [?op]) ips \<and> N \<le> length ips \<and>
      list_all (\<lambda>ip. N \<le> length (ip_rounds ip)) ips \<Longrightarrow> \<exists>ev h'. hyper_poll_next sample_net ips h = Inr (Some (ev, h'))"
    using hyper_poll_terminates [OF sample_net_laws(1,3) h0(1) adm(1) run adm(2)] by blast
  have quiet: "quiet_round (sample_poll SendPending RecvPending, sample_env)" using sample_env_ok by (simp add: quiet_round_def sample_poll_def)
  have "polls_adm 1 (replicate j (?ip N)) \<and> polls_adm 0 (replicate j (?ip N))" for j
    using quiet_round_ok [OF quiet] by (induction j) (simp_all add: sample_ip_def list_all_length)
  moreover have "quiet_poll (?ip N)" using quiet by (simp add: quiet_poll_def sample_ip_def list_all_length)
  ultimately have "\<exists>ev h'. hyper_poll_next sample_net (replicate N (?ip N)) h = Inr (Some (ev, h'))" by (intro N) (simp add: list_all_length)
  then show ?thesis using h0(1) run by blast
qed

end
